(* ===== verification/Prelude.thy ===== *)
theory Prelude
  imports Main "HOL-Library.Word" "HOL-Library.Monad_Syntax" "HOL-Library.Code_Target_Nat"
begin

text \<open>
  Shared vocabulary of the development: the machine types of the Rust code, big-endian byte
  encodings of numbers, the result monad (\<open>Result<T, E>\<close> as a sum type, \<open>?\<close> as \<open>rbind\<close>) and
  parsers over a byte buffer (\<open>&mut Bytes\<close> as state passing, \<open>?\<close> as \<open>pbind\<close>), together with the
  contract every incremental header parser of the program is held to (\<open>incremental\<close>): a result
  does not change when more bytes arrive.
\<close>

unbundle bit_operations_syntax

section \<open>Types and collections\<close>

type_synonym byte = "8 word"
type_synonym bytes = "byte list"
type_synonym u16 = "16 word"
type_synonym u32 = "32 word"
type_synonym u64 = "64 word"

named_theorems be_simps \<open>big-endian encodings of numbers\<close>
named_theorems res_simps \<open>the result monad and parsers\<close>
named_theorems inc_intros \<open>which parsers are incremental\<close>

section \<open>Big-endian numbers\<close>

definition be_nat :: "bytes \<Rightarrow> nat" where
  "be_nat bs = foldl (\<lambda>a b. a * 256 + unat b) 0 bs"

primrec be_bytes :: "nat \<Rightarrow> nat \<Rightarrow> bytes" where
  "be_bytes 0 x = []"
| "be_bytes (Suc n) x = be_bytes n (x div 256) @ [word_of_nat x]"

text \<open>\<open>u16::from_be_bytes\<close> and its relatives, and \<open>to_be_bytes\<close>.\<close>

definition word_of_be :: "bytes \<Rightarrow> 'a::len word" where
  "word_of_be bs = word_of_nat (be_nat bs)"

definition be16 :: "u16 \<Rightarrow> bytes" where
  "be16 w = be_bytes 2 (unat w)"

definition be32 :: "u32 \<Rightarrow> bytes" where
  "be32 w = be_bytes 4 (unat w)"

section \<open>Results and parsers\<close>

definition rbind :: "'e + 'a \<Rightarrow> ('a \<Rightarrow> 'e + 'b) \<Rightarrow> 'e + 'b" where
  "rbind m f = (case m of Inl e \<Rightarrow> Inl e | Inr x \<Rightarrow> f x)"

definition ok_or :: "'a option \<Rightarrow> 'e \<Rightarrow> 'e + 'a" where
  "ok_or m e = (case m of None \<Rightarrow> Inl e | Some x \<Rightarrow> Inr x)"

definition res_ok :: "'e + 'a \<Rightarrow> 'a option" where
  "res_ok m = (case m of Inl _ \<Rightarrow> None | Inr x \<Rightarrow> Some x)"

definition map_err :: "('e \<Rightarrow> 'f) \<Rightarrow> 'e + 'a \<Rightarrow> 'f + 'a" where
  "map_err f m = (case m of Inl e \<Rightarrow> Inl (f e) | Inr x \<Rightarrow> Inr x)"

type_synonym ('e, 'a) parser = "bytes \<Rightarrow> 'e + ('a \<times> bytes)"

definition preturn :: "'a \<Rightarrow> ('e, 'a) parser" where
  "preturn x = (\<lambda>bs. Inr (x, bs))"

definition pfail :: "'e \<Rightarrow> ('e, 'a) parser" where
  "pfail e = (\<lambda>bs. Inl e)"

definition plift :: "'e + 'a \<Rightarrow> ('e, 'a) parser" where
  "plift m = (case m of Inl e \<Rightarrow> pfail e | Inr x \<Rightarrow> preturn x)"

definition pbind :: "('e, 'a) parser \<Rightarrow> ('a \<Rightarrow> ('e, 'b) parser) \<Rightarrow> ('e, 'b) parser" where
  "pbind p f = (\<lambda>bs. case p bs of Inl e \<Rightarrow> Inl e | Inr (x, r) \<Rightarrow> f x r)"

text \<open>
  The contract of an incremental parser. \<open>t\<close> says which errors ask for more bytes
  (\<open>Error::Truncated\<close>). A success consumes a prefix, does not look beyond it, and is not changed by
  further bytes; any other error is final.
\<close>

definition incremental :: "('e \<Rightarrow> bool) \<Rightarrow> ('e, 'a) parser \<Rightarrow> bool" where
  "incremental t p \<longleftrightarrow>
     (\<forall>bs x r. p bs = Inr (x, r) \<longrightarrow>
        (\<exists>c. bs = c @ r \<and> (\<forall>ext. p (c @ ext) = Inr (x, ext)))) \<and>
     (\<forall>bs e. p bs = Inl e \<longrightarrow> \<not> t e \<longrightarrow> (\<forall>ext. p (bs @ ext) = Inl e))"

section \<open>Lemmas on numbers\<close>

lemma be_nat_Nil [be_simps, simp]: "be_nat [] = 0"
  by (simp add: be_nat_def)

lemma be_nat_snoc [be_simps]: "be_nat (bs @ [b]) = be_nat bs * 256 + unat b"
  by (simp add: be_nat_def)

lemma length_be_bytes [be_simps, simp]: "length (be_bytes n x) = n"
  by (induction n arbitrary: x) auto

lemma unat_byte_bound [simp]: "unat (b :: byte) < 256"
  using unsigned_less [of b] by simp

lemma unat_u16_bound [simp]: "unat (w :: u16) < 65536"
  using unsigned_less [of w] by simp

lemma be_nat_bound: "be_nat bs < 256 ^ length bs"
proof (induction bs rule: rev_induct)
  case Nil
  then show ?case by simp
next
  case (snoc b bs)
  have "be_nat bs * 256 + unat b < (be_nat bs + 1) * 256" by simp
  also have "\<dots> \<le> 256 ^ length bs * 256"
    using snoc by (intro mult_right_mono) auto
  finally show ?case by (simp add: be_nat_snoc)
qed

lemma be_nat_be_bytes: "be_nat (be_bytes n x) = x mod 256 ^ n"
proof (induction n arbitrary: x)
  case 0
  then show ?case by simp
next
  case (Suc n)
  have "x mod 256 ^ Suc n = (x div 256) mod 256 ^ n * 256 + x mod 256"
    by (simp add: mod_mult2_eq mult.commute)
  then show ?case using Suc by (simp add: be_nat_snoc unat_of_nat)
qed

lemma be_bytes_be_nat: "be_bytes (length bs) (be_nat bs) = bs"
proof (induction bs rule: rev_induct)
  case Nil
  then show ?case by simp
next
  case (snoc b bs)
  have "(256 :: byte) = 0" by simp
  then have "(word_of_nat (be_nat bs * 256 + unat b) :: byte) = b"
    by (simp only: of_nat_add of_nat_mult of_nat_numeral) simp
  with snoc show ?case by (simp add: be_nat_snoc)
qed

lemma be_nat_inj: "length xs = length ys \<Longrightarrow> be_nat xs = be_nat ys \<Longrightarrow> xs = ys"
  by (metis be_bytes_be_nat)

lemma word_of_be_be_bytes:
  assumes "256 ^ n = (2::nat) ^ LENGTH('a::len)"
  shows "(word_of_be (be_bytes n (unat (w :: 'a word))) :: 'a word) = w"
proof -
  have "unat w mod 256 ^ n = unat w"
    using unsigned_less [of w] by (simp add: assms)
  then show ?thesis by (simp add: word_of_be_def be_nat_be_bytes)
qed

lemma be_bytes_word_of_be:
  assumes "256 ^ n = (2::nat) ^ LENGTH('a::len)" and "length bs = n"
  shows "be_bytes n (unat (word_of_be bs :: 'a word)) = bs"
proof -
  have "unat (word_of_be bs :: 'a word) = be_nat bs"
    using be_nat_bound [of bs] by (simp add: word_of_be_def unat_of_nat assms)
  then show ?thesis using be_bytes_be_nat [of bs] assms(2) by simp
qed

lemma word_of_be_be16 [be_simps, simp]: "word_of_be (be16 w) = w"
  by (simp add: be16_def word_of_be_be_bytes)

lemma be16_word_of_be [be_simps]: "length bs = 2 \<Longrightarrow> be16 (word_of_be bs) = bs"
  by (simp add: be16_def be_bytes_word_of_be)

lemma word_of_be_be32 [be_simps, simp]: "word_of_be (be32 w) = w"
  by (simp add: be32_def word_of_be_be_bytes)

lemma be32_word_of_be [be_simps]: "length bs = 4 \<Longrightarrow> be32 (word_of_be bs) = bs"
  by (simp add: be32_def be_bytes_word_of_be)

lemma length_be16 [be_simps, simp]: "length (be16 w) = 2"
  by (simp add: be16_def)

lemma length_be32 [be_simps, simp]: "length (be32 w) = 4"
  by (simp add: be32_def)

lemma be16_split: "\<exists>h l. be16 w = [h, l]"
  using length_be16 [of w] by (metis (no_types, opaque_lifting) Suc_length_conv length_0_conv numeral_2_eq_2)

lemma unat_word_of_be_bound: "length bs = 2 \<Longrightarrow> be_nat bs < 65536"
  using be_nat_bound [of bs] by simp

lemma unat_word_of_be16 [be_simps]:
  "length bs = 2 \<Longrightarrow> unat (word_of_be bs :: u16) = be_nat bs"
  using unat_word_of_be_bound [of bs] by (simp add: word_of_be_def unat_of_nat)

section \<open>Lemmas on results and parsers\<close>

lemma rbind_simps [res_simps, simp]:
  "rbind (Inl e) f = Inl e"
  "rbind (Inr x) f = f x"
  by (simp_all add: rbind_def)

lemma rbind_Inr_conv: "rbind m f = Inr y \<longleftrightarrow> (\<exists>x. m = Inr x \<and> f x = Inr y)"
  by (cases m) auto

lemma ok_or_simps [res_simps, simp]:
  "ok_or None e = Inl e"
  "ok_or (Some x) e = Inr x"
  by (simp_all add: ok_or_def)

lemma ok_or_Inr: "ok_or m e = Inr x \<longleftrightarrow> m = Some x"
  by (cases m) simp_all

lemma res_ok_simps [res_simps, simp]:
  "res_ok (Inl e) = None"
  "res_ok (Inr x) = Some x"
  by (simp_all add: res_ok_def)

lemma res_ok_Some_conv [res_simps, simp]: "res_ok m = Some x \<longleftrightarrow> m = Inr x"
  by (cases m) auto

lemma map_err_simps [res_simps, simp]:
  "map_err f (Inl e) = Inl (f e)"
  "map_err f (Inr x) = Inr x"
  by (simp_all add: map_err_def)

lemma map_err_Inr_conv [res_simps, simp]: "map_err f m = Inr x \<longleftrightarrow> m = Inr x"
  by (cases m) auto

lemma parser_simps [res_simps, simp]:
  "preturn x bs = Inr (x, bs)"
  "pfail e bs = Inl e"
  "plift (Inl e) bs = Inl e"
  "plift (Inr y) bs = Inr (y, bs)"
  by (simp_all add: preturn_def pfail_def plift_def)

lemma pbind_Inr [res_simps]: "p bs = Inr (x, r) \<Longrightarrow> pbind p f bs = f x r"
  by (simp add: pbind_def)

lemma pbind_Inl [res_simps]: "p bs = Inl e \<Longrightarrow> pbind p f bs = Inl e"
  by (simp add: pbind_def)

lemma pbind_Inr_conv:
  "pbind p f bs = Inr (y, s) \<longleftrightarrow> (\<exists>x r. p bs = Inr (x, r) \<and> f x r = Inr (y, s))"
  by (auto simp: pbind_def split: sum.splits)

lemma pbind_Inl_conv:
  "pbind p f bs = Inl e \<longleftrightarrow> p bs = Inl e \<or> (\<exists>x r. p bs = Inr (x, r) \<and> f x r = Inl e)"
  by (auto simp: pbind_def split: sum.splits)

lemma pbindE:
  assumes "pbind p f bs = Inr (y, s)"
  obtains x r where "p bs = Inr (x, r)" "f x r = Inr (y, s)"
  using assms by (auto simp: pbind_Inr_conv)

lemma incrementalD_ok:
  "incremental t p \<Longrightarrow> p bs = Inr (x, r) \<Longrightarrow> \<exists>c. bs = c @ r \<and> (\<forall>ext. p (c @ ext) = Inr (x, ext))"
  by (simp add: incremental_def)

lemma incrementalD_err:
  "incremental t p \<Longrightarrow> p bs = Inl e \<Longrightarrow> \<not> t e \<Longrightarrow> p (bs @ ext) = Inl e"
  by (simp add: incremental_def)

lemma incremental_ok_append:
  assumes "incremental t p" and "p bs = Inr (x, r)"
  shows "p (bs @ ext) = Inr (x, r @ ext)"
  using incrementalD_ok [OF assms] by auto

lemma incremental_preturn [inc_intros]: "incremental t (preturn x)"
  by (simp add: incremental_def)

lemma incremental_pfail [inc_intros]: "incremental t (pfail e)"
  by (simp add: incremental_def)

lemma incremental_plift [inc_intros]: "incremental t (plift m)"
  by (cases m) (simp_all add: incremental_def)

lemma incremental_if [inc_intros]:
  "incremental t p \<Longrightarrow> incremental t q \<Longrightarrow> incremental t (if b then p else q)"
  by simp

lemma incremental_pbind [inc_intros]:
  assumes p: "incremental t p" and f: "\<And>x. incremental t (f x)"
  shows "incremental t (pbind p f)"
  unfolding incremental_def
proof (intro conjI allI impI)
  fix bs y s
  assume "pbind p f bs = Inr (y, s)"
  then obtain x r where 1: "p bs = Inr (x, r)" and 2: "f x r = Inr (y, s)"
    by (auto simp: pbind_Inr_conv)
  from incrementalD_ok [OF p 1] obtain c
    where c: "bs = c @ r" "\<And>ext. p (c @ ext) = Inr (x, ext)" by auto
  from incrementalD_ok [OF f 2] obtain d
    where d: "r = d @ s" "\<And>ext. f x (d @ ext) = Inr (y, ext)" by auto
  have "pbind p f ((c @ d) @ ext) = Inr (y, ext)" for ext
    using c(2) [of "d @ ext"] d(2) [of ext] by (simp add: pbind_Inr)
  then show "\<exists>c. bs = c @ s \<and> (\<forall>ext. pbind p f (c @ ext) = Inr (y, ext))"
    using c(1) d(1) by (intro exI [of _ "c @ d"]) simp
next
  fix bs e ext
  assume e: "pbind p f bs = Inl e" and t: "\<not> t e"
  from e consider "p bs = Inl e" | x r where "p bs = Inr (x, r)" "f x r = Inl e"
    by (auto simp: pbind_Inl_conv)
  then show "pbind p f (bs @ ext) = Inl e"
  proof cases
    case 1
    then show ?thesis using incrementalD_err [OF p _ t] by (simp add: pbind_Inl)
  next
    case 2
    then show ?thesis
      using incremental_ok_append [OF p 2(1), of ext] incrementalD_err [OF f 2(2) t, of ext]
      by (simp add: pbind_Inr)
  qed
qed

text \<open>A parser of a fixed-width field is incremental.\<close>

lemma incremental_fixed:
  assumes short: "\<And>bs. length bs < n \<Longrightarrow> \<exists>e. p bs = Inl e \<and> t e"
    and enough: "\<And>bs. n \<le> length bs \<Longrightarrow> p bs = Inr (g (take n bs), drop n bs)"
  shows "incremental t p"
  unfolding incremental_def
proof (intro conjI allI impI)
  fix bs x r
  assume p: "p bs = Inr (x, r)"
  then have n: "n \<le> length bs" using short [of bs] by (cases "n \<le> length bs") auto
  with p enough [OF n] have x: "x = g (take n bs)" and r: "r = drop n bs" by auto
  have "p (take n bs @ ext) = Inr (x, ext)" for ext
    using enough [of "take n bs @ ext"] n by (simp add: x)
  then show "\<exists>c. bs = c @ r \<and> (\<forall>ext. p (c @ ext) = Inr (x, ext))"
    by (intro exI [of _ "take n bs"]) (simp add: r)
next
  fix bs e ext
  assume "p bs = Inl e" and "\<not> t e"
  then have False using short [of bs] enough [of bs] by (cases "n \<le> length bs") auto
  then show "p (bs @ ext) = Inl e" ..
qed

section \<open>Lemmas on lists\<close>

lemma length_2_conv: "length xs = 2 \<longleftrightarrow> (\<exists>a b. xs = [a, b])"
  by (auto simp: numeral_2_eq_2 length_Suc_conv)

lemma take_append_exact [simp]: "length xs = n \<Longrightarrow> take n (xs @ ys) = xs"
  by simp

lemma drop_append_exact [simp]: "length xs = n \<Longrightarrow> drop n (xs @ ys) = ys"
  by simp

end
