(* ===== verification/Errors.thy ===== *)
theory Errors
  imports RustStd
begin

text \<open>
  The error types of the program: \<open>Error\<close> of kernel/src/error.rs, and \<open>io::Error\<close> reduced to its kind
  and message (the message of a wrapped \<open>Error\<close> is the wrapped value).
\<close>

datatype error =
    Truncated nat nat
  | Overflow
  | BadAddressType byte
  | BadDomain
  | Protocol string
  | Auth
  | Crypto string
  | Config string
  | ServiceStack
  | ErrIo string

definition is_truncated :: "error \<Rightarrow> bool" where
  "is_truncated e = (case e of Truncated _ _ \<Rightarrow> True | _ \<Rightarrow> False)"

datatype error_kind =
  NotFound | PermissionDenied | InvalidData | InvalidInput | TimedOut | UnexpectedEof
  | WouldBlock | Unsupported | BrokenPipe | KindOther

datatype io_error = IoMsg error_kind string | IoWrap error_kind error

primrec io_kind :: "io_error \<Rightarrow> error_kind" where
  "io_kind (IoMsg k m) = k"
| "io_kind (IoWrap k e) = k"

text \<open>\<open>From<Error> for io::Error\<close>: an \<open>Io\<close> is unwrapped, any other error is \<open>io::Error::other\<close>.\<close>

definition io_from_error :: "error \<Rightarrow> io_error" where
  "io_from_error e = (case e of ErrIo m \<Rightarrow> IoMsg KindOther m | other \<Rightarrow> IoWrap KindOther other)"

type_synonym 'a result = "error + 'a"
type_synonym 'a io_result = "io_error + 'a"

text \<open>Protocol codecs are parsers whose only request for more bytes is \<open>Truncated\<close>.\<close>

type_synonym 'a codec = "(error, 'a) parser"

abbreviation incremental_codec :: "'a codec \<Rightarrow> bool" where
  "incremental_codec p \<equiv> incremental is_truncated p"

lemma is_truncated_simps [simp]:
  "is_truncated (Truncated a b)" "\<not> is_truncated Overflow" "\<not> is_truncated (BadAddressType t)"
  "\<not> is_truncated BadDomain" "\<not> is_truncated (Protocol m)" "\<not> is_truncated Auth"
  "\<not> is_truncated (Crypto m)" "\<not> is_truncated (Config m)" "\<not> is_truncated ServiceStack"
  by (simp_all add: is_truncated_def)

end
