(* ===== verification/Net.thy ===== *)
theory Net
  imports Errors
begin

text \<open>
  kernel/src/net.rs: networks, addresses, destinations and the SOCKS-style address codec all
  protocols share. The buffer \<open>&mut Bytes\<close> a decoder advances is the state of a \<open>codec\<close>; on an error
  the callers drop the buffer, so an error carries none. The lemmas show that the codec is
  incremental, what it accepts, and that decoding undoes encoding.
\<close>

section \<open>Value types\<close>

datatype network = Unknown | Tcp | Udp | Unix

definition network_as_str :: "network \<Rightarrow> string" where
  "network_as_str n = (case n of Tcp \<Rightarrow> ''tcp'' | Udp \<Rightarrow> ''udp'' | Unix \<Rightarrow> ''unix'' | Unknown \<Rightarrow> ''unknown'')"

datatype address = Ip ip_addr | Domain string

definition from_ip_bytes :: "bytes \<Rightarrow> address result" where
  "from_ip_bytes ip =
     (if length ip = 4 then Inr (Ip (V4 (word_of_be ip)))
      else if length ip = 16 then
        (case to_ipv4_mapped (word_of_be ip) of
           Some v4 \<Rightarrow> Inr (Ip (V4 v4))
         | None \<Rightarrow> Inr (Ip (V6 (word_of_be ip))))
      else Inl (Protocol ''invalid IP length''))"

definition address_parse :: "string \<Rightarrow> address" where
  "address_parse s =
     (case parse_ip s of
        Some ip \<Rightarrow> Ip ip
      | None \<Rightarrow>
        (case Option.bind (strip_prefix ''['' s) (strip_suffix '']'') of
           Some inner \<Rightarrow> (case parse_ip inner of Some ip \<Rightarrow> Ip ip | None \<Rightarrow> Domain s)
         | None \<Rightarrow> Domain s))"

definition is_ip :: "address \<Rightarrow> bool" where
  "is_ip a = (case a of Ip _ \<Rightarrow> True | Domain _ \<Rightarrow> False)"

record destination =
  network :: network
  address :: address
  port :: u16

definition dest_tcp :: "address \<Rightarrow> u16 \<Rightarrow> destination" where
  "dest_tcp a p = \<lparr>network = Tcp, address = a, port = p\<rparr>"

definition dest_udp :: "address \<Rightarrow> u16 \<Rightarrow> destination" where
  "dest_udp a p = \<lparr>network = Udp, address = a, port = p\<rparr>"

definition is_valid :: "destination \<Rightarrow> bool" where
  "is_valid d \<longleftrightarrow> network d \<noteq> Unknown"

section \<open>The address codec\<close>

datatype family = VlessVmess | Standard
datatype port_order = PortFirst | PortLast
datatype kind = KIpv4 | KIpv6 | KDomain

definition family_kind :: "family \<Rightarrow> byte \<Rightarrow> kind option" where
  "family_kind f b = (case f of
     VlessVmess \<Rightarrow> if b = 1 then Some KIpv4 else if b = 2 then Some KDomain
                    else if b = 3 then Some KIpv6 else None
   | Standard \<Rightarrow> if b = 1 then Some KIpv4 else if b = 3 then Some KDomain
                  else if b = 4 then Some KIpv6 else None)"

definition byte_for :: "family \<Rightarrow> address \<Rightarrow> byte" where
  "byte_for f a = (case f of
     VlessVmess \<Rightarrow> (case a of Ip (V4 _) \<Rightarrow> 1 | Domain _ \<Rightarrow> 2 | Ip (V6 _) \<Rightarrow> 3)
   | Standard \<Rightarrow> (case a of Ip (V4 _) \<Rightarrow> 1 | Domain _ \<Rightarrow> 3 | Ip (V6 _) \<Rightarrow> 4))"

record addr_codec =
  family :: family
  order :: port_order
  mask :: bool

definition VLESS :: addr_codec where
  "VLESS = \<lparr>family = VlessVmess, order = PortFirst, mask = False\<rparr>"

definition VMESS :: addr_codec where
  "VMESS = VLESS"

definition TROJAN :: addr_codec where
  "TROJAN = \<lparr>family = Standard, order = PortLast, mask = False\<rparr>"

definition SOCKS :: addr_codec where
  "SOCKS = TROJAN"

definition SHADOWSOCKS :: addr_codec where
  "SHADOWSOCKS = \<lparr>family = Standard, order = PortLast, mask = True\<rparr>"

definition read_port :: "u16 codec" where
  "read_port buf =
     (if length buf < 2 then Inl (Truncated 2 (length buf))
      else Inr (word_of_be (take 2 buf), drop 2 buf))"

definition take_u8 :: "byte codec" where
  "take_u8 buf = (case buf of [] \<Rightarrow> Inl (Truncated 1 0) | b # r \<Rightarrow> Inr (b, r))"

definition take_n :: "nat \<Rightarrow> bytes codec" where
  "take_n n buf =
     (if length buf < n then Inl (Truncated n (length buf)) else Inr (take n buf, drop n buf))"

definition is_valid_domain :: "string \<Rightarrow> bool" where
  "is_valid_domain d \<longleftrightarrow> d \<noteq> [] \<and>
     list_all (\<lambda>c. is_ascii_alphanumeric c \<or> c \<in> set ''-._'') d"

text \<open>The tail of the \<open>Kind::Domain\<close> branch: what the \<open>len\<close> bytes of a domain field mean.\<close>

definition decode_domain :: "bytes \<Rightarrow> address result" where
  "decode_domain b =
     (case from_utf8 b of
        None \<Rightarrow> Inl BadDomain
      | Some domain \<Rightarrow>
          (if (case domain of c # _ \<Rightarrow> c = CHR ''['' \<or> is_ascii_digit c | [] \<Rightarrow> False) \<and>
              is_ip (address_parse domain)
           then Inr (address_parse domain)
           else if \<not> is_valid_domain domain then Inl BadDomain
           else Inr (Domain domain)))"

definition read_address :: "addr_codec \<Rightarrow> address codec" where
  "read_address c =
     pbind take_u8 (\<lambda>t0.
       let t = (if mask c then t0 AND 0x0F else t0) in
       case family_kind (family c) t of
         None \<Rightarrow> pfail (BadAddressType t)
       | Some KIpv4 \<Rightarrow> pbind (take_n 4) (\<lambda>b. plift (from_ip_bytes b))
       | Some KIpv6 \<Rightarrow> pbind (take_n 16) (\<lambda>b. plift (from_ip_bytes b))
       | Some KDomain \<Rightarrow>
           pbind take_u8 (\<lambda>len.
             if len = 0 then pfail BadDomain
             else pbind (take_n (unat len)) (\<lambda>b. plift (decode_domain b))))"

definition codec_read :: "addr_codec \<Rightarrow> (address \<times> u16) codec" where
  "codec_read c = (case order c of
     PortFirst \<Rightarrow> pbind read_port (\<lambda>p. pbind (read_address c) (\<lambda>a. preturn (a, p)))
   | PortLast \<Rightarrow> pbind (read_address c) (\<lambda>a. pbind read_port (\<lambda>p. preturn (a, p))))"

definition write_address :: "addr_codec \<Rightarrow> bytes \<Rightarrow> address \<Rightarrow> bytes result" where
  "write_address c buf a =
     (let buf' = buf @ [byte_for (family c) a] in
      case a of
        Ip (V4 ip) \<Rightarrow> Inr (buf' @ v4_octets ip)
      | Ip (V6 ip) \<Rightarrow> Inr (buf' @ v6_octets ip)
      | Domain d \<Rightarrow>
          if 255 < length d then Inl BadDomain
          else Inr (buf' @ [word_of_nat (length d)] @ bytes_of_string d))"

definition codec_write :: "addr_codec \<Rightarrow> bytes \<Rightarrow> address \<Rightarrow> u16 \<Rightarrow> bytes result" where
  "codec_write c buf a p = (case order c of
     PortFirst \<Rightarrow> write_address c (buf @ be16 p) a
   | PortLast \<Rightarrow> rbind (write_address c buf a) (\<lambda>b. Inr (b @ be16 p)))"

text \<open>
  The addresses the codec transports unchanged: every IPv4 address, an IPv6 address that is not
  IPv4-mapped, and a valid domain of at most 255 bytes whose text is not an IP address.
\<close>

definition canonical_addr :: "address \<Rightarrow> bool" where
  "canonical_addr a = (case a of
     Ip (V4 _) \<Rightarrow> True
   | Ip (V6 ip) \<Rightarrow> to_ipv4_mapped ip = None
   | Domain d \<Rightarrow> is_valid_domain d \<and> length d \<le> 255 \<and> \<not> is_ip (address_parse d))"

section \<open>The codec is incremental\<close>

lemma incremental_take_u8 [inc_intros]: "incremental_codec take_u8"
  by (rule incremental_fixed [where n = 1 and g = hd])
     (auto simp: take_u8_def Suc_le_length_iff)

lemma incremental_take_n [inc_intros]: "incremental_codec (take_n n)"
  by (rule incremental_fixed [where n = n and g = id]) (auto simp: take_n_def)

lemma incremental_read_port [inc_intros]: "incremental_codec read_port"
  by (rule incremental_fixed [where n = 2 and g = word_of_be]) (auto simp: read_port_def)

lemma incremental_read_address [inc_intros]: "incremental_codec (read_address c)"
  unfolding read_address_def Let_def
  by (intro inc_intros) (auto split: option.splits kind.splits intro!: inc_intros)

lemma incremental_codec_read [inc_intros]: "incremental_codec (codec_read c)"
  unfolding codec_read_def by (cases "order c") (auto intro!: inc_intros)

section \<open>Decoding undoes encoding\<close>

lemma take_u8_Cons [simp]: "take_u8 (b # r) = Inr (b, r)"
  by (simp add: take_u8_def)

lemma take_n_append [simp]: "length w = n \<Longrightarrow> take_n n (w @ r) = Inr (w, r)"
  by (simp add: take_n_def)

lemma take_n_all [simp]: "length w = n \<Longrightarrow> take_n n w = Inr (w, [])"
  by (simp add: take_n_def)

lemma read_port_be16 [simp]: "read_port (be16 p @ r) = Inr (p, r)"
  by (simp add: read_port_def)

lemma byte_for_kind:
  "family_kind f (byte_for f a) = Some (case a of Ip (V4 _) \<Rightarrow> KIpv4 | Ip (V6 _) \<Rightarrow> KIpv6 | Domain _ \<Rightarrow> KDomain)"
  by (cases f; cases a) (auto simp: family_kind_def byte_for_def split: ip_addr.splits)

lemma byte_for_mask [simp]: "byte_for f a AND 0x0F = byte_for f a"
  by (cases f; cases a) (auto simp: byte_for_def split: ip_addr.splits)

lemma valid_domain_ascii:
  "is_valid_domain d \<Longrightarrow> c \<in> set d \<Longrightarrow> (of_char c :: nat) < 128"
  by (auto simp: is_valid_domain_def list_all_iff is_ascii_alphanumeric_def is_ascii_digit_def
      is_ascii_upper_def is_ascii_lower_def)

lemma from_utf8_valid_domain: "is_valid_domain d \<Longrightarrow> from_utf8 (bytes_of_string d) = Some d"
  by (simp add: from_utf8_def utf8_valid_ascii valid_domain_ascii)

lemma decode_domain_canonical:
  "canonical_addr (Domain d) \<Longrightarrow> decode_domain (bytes_of_string d) = Inr (Domain d)"
  by (auto simp: decode_domain_def canonical_addr_def from_utf8_valid_domain)

text \<open>The bytes the encoder appends for an address it accepts.\<close>

definition addr_wire :: "addr_codec \<Rightarrow> address \<Rightarrow> bytes" where
  "addr_wire c a = byte_for (family c) a # (case a of
     Ip (V4 ip) \<Rightarrow> v4_octets ip
   | Ip (V6 ip) \<Rightarrow> v6_octets ip
   | Domain d \<Rightarrow> word_of_nat (length d) # bytes_of_string d)"

lemma write_address_wire:
  "write_address c buf a = Inr out \<longleftrightarrow>
     out = buf @ addr_wire c a \<and> (\<forall>d. a = Domain d \<longrightarrow> length d \<le> 255)"
  by (auto simp: write_address_def addr_wire_def Let_def split: address.splits ip_addr.splits)

lemma codec_write_wire:
  "codec_write c buf a p = Inr out \<longleftrightarrow>
     out = buf @ (case order c of PortFirst \<Rightarrow> be16 p @ addr_wire c a | PortLast \<Rightarrow> addr_wire c a @ be16 p)
     \<and> (\<forall>d. a = Domain d \<longrightarrow> length d \<le> 255)"
  by (cases "order c") (auto simp: codec_write_def write_address_wire rbind_Inr_conv)

lemma canonical_writes: "canonical_addr a \<Longrightarrow> \<exists>out. codec_write c buf a p = Inr out"
  by (auto simp: codec_write_wire canonical_addr_def)

lemma from_ip_bytes_octets [simp]:
  "from_ip_bytes (v4_octets a) = Inr (Ip (V4 a))"
  "to_ipv4_mapped b = None \<Longrightarrow> from_ip_bytes (v6_octets b) = Inr (Ip (V6 b))"
  by (simp_all add: from_ip_bytes_def)

lemma read_address_wire:
  assumes "canonical_addr a"
  shows "read_address c (addr_wire c a @ rest) = Inr (a, rest)"
proof -
  note kind = byte_for_kind [of "family c" a]
  show ?thesis
  proof (cases a)
    case (Ip ip)
    then show ?thesis using assms kind
      by (cases ip) (simp_all add: read_address_def addr_wire_def pbind_def canonical_addr_def)
  next
    case (Domain d)
    then have d: "d \<noteq> []" "length d \<le> 255"
      using assms by (auto simp: canonical_addr_def is_valid_domain_def)
    then have len: "unat (word_of_nat (length d) :: byte) = length d"
      by (simp add: unat_of_nat)
    have "(word_of_nat (length d) :: byte) \<noteq> 0"
      using d len by (metis length_0_conv unat_0)
    then show ?thesis using Domain assms kind len
      by (simp add: read_address_def addr_wire_def pbind_def decode_domain_canonical)
  qed
qed

lemma codec_read_wire:
  assumes "canonical_addr a"
  shows "codec_read c ((case order c of PortFirst \<Rightarrow> be16 p @ addr_wire c a | PortLast \<Rightarrow> addr_wire c a @ be16 p) @ rest)
         = Inr ((a, p), rest)"
  using read_address_wire [OF assms]
  by (cases "order c") (simp_all add: codec_read_def pbind_def)

lemma codec_read_write:
  assumes "canonical_addr a" and "codec_write c buf a p = Inr out"
  shows "\<exists>w. out = buf @ w \<and> codec_read c (w @ rest) = Inr ((a, p), rest)"
  using assms by (auto simp: codec_write_wire codec_read_wire)

section \<open>What the decoder returns\<close>

lemma from_ip_bytes_canonical: "from_ip_bytes b = Inr a \<Longrightarrow> canonical_addr a \<and> is_ip a"
  by (auto simp: from_ip_bytes_def canonical_addr_def is_ip_def split: if_splits option.splits)

lemma address_parse_Domain: "address_parse s = Domain d \<Longrightarrow> d = s"
  by (auto simp: address_parse_def split: option.splits)

lemma decode_domain_result:
  assumes "decode_domain b = Inr a"
  shows "a = address_parse (string_of_bytes b) \<and> is_ip a \<or>
         a = Domain (string_of_bytes b) \<and> is_valid_domain (string_of_bytes b)"
  using assms
  by (auto simp: decode_domain_def from_utf8_Some from_utf8_def split: if_splits option.splits)

lemma take_n_Inr: "take_n n bs = Inr (x, r) \<longleftrightarrow> bs = x @ r \<and> length x = n"
  by (auto simp: take_n_def)

lemma take_u8_Inr: "take_u8 bs = Inr (x, r) \<longleftrightarrow> bs = x # r"
  by (cases bs) (auto simp: take_u8_def)

lemma read_port_Inr: "read_port bs = Inr (p, r) \<longleftrightarrow> bs = be16 p @ r"
  by (auto simp: read_port_def be16_word_of_be)

lemma plift_Inr: "plift m bs = Inr (x, r) \<longleftrightarrow> m = Inr x \<and> r = bs"
  by (cases m) auto

lemmas codec_inversion = take_n_Inr take_u8_Inr read_port_Inr plift_Inr pbind_Inr_conv

text \<open>What a decoded address can be, and how many bytes the field took.\<close>

lemma read_address_cases:
  assumes "read_address c bs = Inr (a, r)"
  obtains (ip) t b where "bs = t # b @ r" "length b = 4 \<or> length b = 16" "from_ip_bytes b = Inr a"
    | (domain) t len b where "bs = t # len # b @ r" "len \<noteq> 0" "length b = unat len"
        "decode_domain b = Inr a"
proof -
  obtain t s where t: "bs = t # s"
    using assms by (auto simp: read_address_def codec_inversion)
  let ?k = "family_kind (family c) (if mask c then t AND 0x0F else t)"
  note r = assms [unfolded read_address_def t, simplified pbind_def, simplified Let_def]
  show thesis
  proof (cases ?k)
    case None
    then show ?thesis using r by simp
  next
    case (Some k)
    then show ?thesis
    proof (cases k)
      case KIpv4
      then show ?thesis using r Some ip [of t "take 4 s"] t
        by (auto simp: take_n_def plift_Inr split: if_splits)
    next
      case KIpv6
      then show ?thesis using r Some ip [of t "take 16 s"] t
        by (auto simp: take_n_def plift_Inr split: if_splits)
    next
      case KDomain
      then obtain len s' where "s = len # s'" "len \<noteq> 0" "unat len \<le> length s'"
        "decode_domain (take (unat len) s') = Inr a" "r = drop (unat len) s'"
        using r Some by (auto simp: plift_Inr take_n_def take_u8_def split: if_splits list.splits)
      then show ?thesis using domain [of t len "take (unat len) s'"] t by simp
    qed
  qed
qed

lemma read_address_result:
  assumes "read_address c bs = Inr (a, r)"
  shows "\<exists>w. bs = w @ r \<and> 2 \<le> length w \<and> length w \<le> 257 \<and>
           (is_ip a \<or> (\<exists>d. a = Domain d \<and> is_valid_domain d \<and> length d \<le> 255))"
  using assms
proof (cases rule: read_address_cases)
  case (ip t b)
  then show ?thesis using from_ip_bytes_canonical [OF ip(3)]
    by (intro exI [of _ "t # b"]) auto
next
  case (domain t len b)
  have "unat len \<noteq> 0" using domain(2) by (simp add: unat_eq_0)
  moreover have "unat len \<le> 255" using unat_byte_bound [of len] by linarith
  ultimately show ?thesis using decode_domain_result [OF domain(4)] domain(1,3)
    by (intro exI [of _ "t # len # b"]) auto
qed

lemma codec_read_result:
  assumes "codec_read c bs = Inr ((a, p), r)"
  shows "\<exists>w. bs = w @ r \<and> 4 \<le> length w \<and> length w \<le> 259 \<and>
           (is_ip a \<or> (\<exists>d. a = Domain d \<and> is_valid_domain d \<and> length d \<le> 255))"
proof (cases "order c")
  case PortFirst
  then obtain s where "bs = be16 p @ s" "read_address c s = Inr (a, r)"
    using assms by (auto simp: codec_read_def codec_inversion)
  moreover from this(2) obtain w where
    "s = w @ r" "2 \<le> length w" "length w \<le> 257"
    "is_ip a \<or> (\<exists>d. a = Domain d \<and> is_valid_domain d \<and> length d \<le> 255)"
    using read_address_result by blast
  ultimately show ?thesis by (intro exI [of _ "be16 p @ w"]) auto
next
  case PortLast
  then obtain s where s: "read_address c bs = Inr (a, s)" "s = be16 p @ r"
    using assms by (auto simp: codec_read_def codec_inversion)
  from read_address_result [OF s(1)] obtain w where
    "bs = w @ s" "2 \<le> length w" "length w \<le> 257"
    "is_ip a \<or> (\<exists>d. a = Domain d \<and> is_valid_domain d \<and> length d \<le> 255)" by blast
  then show ?thesis using s(2) by (intro exI [of _ "w @ be16 p"]) auto
qed

end
