(* ===== verification/Translation.thy ===== *)
theory Translation
  imports Errors
begin

text \<open>
  kernel/src/pipe/translation.rs: reading a protocol header off a connection. The connection is the
  list of what its successive \<open>read\<close> calls return (\<open>ROk []\<close> is end of file); when the list runs out
  nothing more arrives before the deadline. The locale \<open>header_codec\<close> is the contract between this
  loop, which re-parses a growing snapshot, and the codecs it drives: an incremental codec gives
  the same header however the bytes are cut into reads.
\<close>

datatype read_event = ROk bytes | RErr io_error

fun read_header_inner ::
  "nat \<Rightarrow> 'a codec \<Rightarrow> bytes \<Rightarrow> read_event list \<Rightarrow> (('a \<times> bytes) io_result \<times> read_event list) option" where
  "read_header_inner mx parse acc evs =
     (case parse acc of
        Inr (t, view) \<Rightarrow> Some (Inr (t, drop (length acc - length view) acc), evs)
      | Inl e \<Rightarrow>
          if \<not> is_truncated e then Some (Inl (IoWrap InvalidData e), evs)
          else if mx \<le> length acc then Some (Inl (IoMsg InvalidData ''header too large''), evs)
          else (case evs of
              [] \<Rightarrow> None
            | RErr err # evs' \<Rightarrow> Some (Inl err, evs')
            | ROk d # evs' \<Rightarrow>
                if d = [] then Some (Inl (IoMsg UnexpectedEof ''eof during header''), evs')
                else read_header_inner mx parse (acc @ d) evs'))"

declare read_header_inner.simps [simp del]

definition read_header ::
  "nat \<Rightarrow> 'a codec \<Rightarrow> read_event list \<Rightarrow> ('a \<times> bytes) io_result \<times> read_event list" where
  "read_header mx parse evs =
     (case read_header_inner mx parse [] evs of
        Some r \<Rightarrow> r
      | None \<Rightarrow> (Inl (IoMsg TimedOut ''handshake timeout''), []))"

text \<open>What the kernel hands out per read: at most the 4096 bytes of its chunk buffer.\<close>

definition short_reads :: "read_event list \<Rightarrow> bool" where
  "short_reads evs \<longleftrightarrow> (\<forall>d. ROk d \<in> set evs \<longrightarrow> length d \<le> 4096)"

lemma short_reads_Cons [simp]:
  "short_reads (e # evs) \<longleftrightarrow> (\<forall>d. e = ROk d \<longrightarrow> length d \<le> 4096) \<and> short_reads evs"
  by (auto simp: short_reads_def)

section \<open>The contract and what it gives the loop\<close>

locale header_codec =
  fixes parse :: "'a codec"
  assumes inc: "incremental is_truncated parse"
begin

lemma parse_ok_prefix:
  assumes "parse (acc @ more) = Inr (x, r)" and "acc @ more = c @ r" and "length c \<le> length acc"
  shows "parse acc = Inr (x, drop (length c) acc)"
proof -
  from incrementalD_ok [OF inc assms(1)] obtain c'
    where c': "acc @ more = c' @ r" "\<And>ext. parse (c' @ ext) = Inr (x, ext)" by auto
  with assms(2) have "c' = c" by simp
  moreover have "acc = c @ drop (length c) acc"
    using assms(2,3) by (metis append_eq_append_conv_if append_take_drop_id)
  ultimately show ?thesis using c'(2) by metis
qed

lemma parse_suffix:
  assumes "parse acc = Inr (x, v)"
  shows "drop (length acc - length v) acc = v"
  using incrementalD_ok [OF inc assms] by auto

text \<open>However the bytes are cut, a complete header is found, and nothing of the payload is lost.\<close>

lemma header_inner_complete:
  assumes "parse (acc @ concat ds) = Inr (x, r)" and "acc @ concat ds = c @ r"
    and "length c \<le> mx" and "\<And>d. d \<in> set ds \<Longrightarrow> d \<noteq> []"
  shows "\<exists>k left. read_header_inner mx parse acc (map ROk ds @ evs)
            = Some (Inr (x, left), map ROk (drop k ds) @ evs) \<and> left @ concat (drop k ds) = r"
  using assms
proof (induction ds arbitrary: acc)
  case Nil
  then show ?case using parse_suffix [of acc x r]
    by (intro exI [of _ 0]) (simp add: read_header_inner.simps)
next
  case (Cons d ds)
  show ?case
  proof (cases "parse acc")
    case (Inr yv)
    obtain y v where yv: "yv = (y, v)" by (cases yv)
    from incremental_ok_append [OF inc Inr [unfolded yv], of "concat (d # ds)"] Cons.prems(1)
    have "y = x" "r = v @ concat (d # ds)" by auto
    then show ?thesis using Inr yv parse_suffix [of acc y v]
      by (intro exI [of _ 0]) (simp add: read_header_inner.simps [of mx parse acc])
  next
    case (Inl e)
    have t: "is_truncated e"
      using incrementalD_err [OF inc Inl, of "concat (d # ds)"] Cons.prems(1) by auto
    have "length acc < length c"
      using parse_ok_prefix [OF Cons.prems(1,2)] Inl by (auto intro: ccontr)
    then have short: "\<not> mx \<le> length acc" using Cons.prems(3) by simp
    have d: "d \<noteq> []" using Cons.prems(4) by simp
    have "\<exists>k left. read_header_inner mx parse (acc @ d) (map ROk ds @ evs)
            = Some (Inr (x, left), map ROk (drop k ds) @ evs) \<and> left @ concat (drop k ds) = r"
      using Cons.prems by (intro Cons.IH) auto
    then obtain k left where "read_header_inner mx parse (acc @ d) (map ROk ds @ evs)
            = Some (Inr (x, left), map ROk (drop k ds) @ evs)" "left @ concat (drop k ds) = r"
      by blast
    then show ?thesis using Inl t short d
      by (intro exI [of _ "Suc k"] exI [of _ left])
         (simp add: read_header_inner.simps [of mx parse acc])
  qed
qed

lemma header_complete:
  assumes "parse (concat ds) = Inr (x, r)" and "length (concat ds) \<le> mx + length r"
    and "\<And>d. d \<in> set ds \<Longrightarrow> d \<noteq> []"
  shows "\<exists>k left. read_header mx parse (map ROk ds @ evs)
            = (Inr (x, left), map ROk (drop k ds) @ evs) \<and> left @ concat (drop k ds) = r"
proof -
  from incrementalD_ok [OF inc assms(1)] obtain c where c: "concat ds = c @ r" by auto
  then have "length c \<le> mx" using assms(2) by simp
  with header_inner_complete [of "[]" ds x r c mx evs] assms c show ?thesis
    by (auto simp: read_header_def)
qed

text \<open>Bytes the codec refuses are refused however they are cut.\<close>

lemma header_inner_refused:
  assumes "parse (acc @ concat ds) = Inl e" and "\<not> is_truncated e"
    and "\<And>d. d \<in> set ds \<Longrightarrow> d \<noteq> []"
  shows "\<exists>err evs'. read_header_inner mx parse acc (map ROk ds @ evs) = Some (Inl err, evs') \<and>
           (err = IoWrap InvalidData e \<or> err = IoMsg InvalidData ''header too large'')"
  using assms
proof (induction ds arbitrary: acc)
  case Nil
  then show ?case by (simp add: read_header_inner.simps)
next
  case (Cons d ds)
  show ?case
  proof (cases "parse acc")
    case (Inr yv)
    then show ?thesis
      using incremental_ok_append [OF inc, of acc "fst yv" "snd yv" "concat (d # ds)"] Cons.prems(1)
      by simp
  next
    case (Inl e')
    show ?thesis
    proof (cases "is_truncated e'")
      case False
      then have "e' = e"
        using incrementalD_err [OF inc Inl, of "concat (d # ds)"] Cons.prems(1) by simp
      then show ?thesis using Inl False by (simp add: read_header_inner.simps [of mx parse acc])
    next
      case True
      have "\<exists>err evs'. read_header_inner mx parse (acc @ d) (map ROk ds @ evs) = Some (Inl err, evs') \<and>
           (err = IoWrap InvalidData e \<or> err = IoMsg InvalidData ''header too large'')"
        using Cons.prems by (intro Cons.IH) auto
      then show ?thesis using Inl True Cons.prems(3) [of d]
        by (auto simp: read_header_inner.simps [of mx parse acc])
    qed
  qed
qed

lemma header_refused:
  assumes "parse (concat ds) = Inl e" and "\<not> is_truncated e"
    and "\<And>d. d \<in> set ds \<Longrightarrow> d \<noteq> []"
  shows "\<exists>err evs'. read_header mx parse (map ROk ds @ evs) = (Inl err, evs') \<and>
           (err = IoWrap InvalidData e \<or> err = IoMsg InvalidData ''header too large'')"
  using header_inner_refused [of "[]" ds e mx evs] assms by (auto simp: read_header_def)

text \<open>
  Whatever the peer sends, a header that is accepted is one the codec accepts, and the loop has
  buffered less than \<open>mx\<close> bytes plus one read beyond it.
\<close>

lemma header_inner_sound:
  assumes "read_header_inner mx parse acc evs = Some (Inr (x, left), evs')"
    and "short_reads evs" and "length acc < mx + 4096"
  shows "\<exists>ds. evs = map ROk ds @ evs' \<and> parse (acc @ concat ds) = Inr (x, left) \<and>
           length (acc @ concat ds) < mx + 4096"
  using assms
proof (induction evs arbitrary: acc)
  case Nil
  then show ?case using parse_suffix [of acc]
    by (intro exI [of _ "[]"])
       (auto simp: read_header_inner.simps [of mx parse acc] split: sum.splits if_splits)
next
  case (Cons ev evs)
  show ?case
  proof (cases "parse acc")
    case (Inr yv)
    then show ?thesis using Cons.prems parse_suffix [of acc "fst yv" "snd yv"]
      by (intro exI [of _ "[]"])
         (auto simp: read_header_inner.simps [of mx parse acc] split: prod.splits)
  next
    case (Inl e)
    then obtain d where d: "\<not> mx \<le> length acc" "ev = ROk d"
      "read_header_inner mx parse (acc @ d) evs = Some (Inr (x, left), evs')"
      using Cons.prems(1)
      by (auto simp: read_header_inner.simps [of mx parse acc]
          split: if_splits list.splits read_event.splits)
    then have "\<exists>ds. evs = map ROk ds @ evs' \<and> parse ((acc @ d) @ concat ds) = Inr (x, left) \<and>
       length ((acc @ d) @ concat ds) < mx + 4096"
      using Cons.prems(2) by (intro Cons.IH) auto
    then obtain ds where "evs = map ROk ds @ evs'" "parse ((acc @ d) @ concat ds) = Inr (x, left)"
      "length ((acc @ d) @ concat ds) < mx + 4096" by blast
    then show ?thesis using d(2) by (intro exI [of _ "d # ds"]) simp
  qed
qed

lemma header_sound:
  assumes "read_header mx parse evs = (Inr (x, left), evs')" and "short_reads evs"
  shows "\<exists>ds. evs = map ROk ds @ evs' \<and> parse (concat ds) = Inr (x, left) \<and>
           length (concat ds) < mx + 4096"
proof -
  have "read_header_inner mx parse [] evs = Some (Inr (x, left), evs')"
    using assms(1) by (auto simp: read_header_def split: option.splits)
  then have "\<exists>ds. evs = map ROk ds @ evs' \<and> parse ([] @ concat ds) = Inr (x, left) \<and>
           length ([] @ concat ds) < mx + 4096"
    by (rule header_inner_sound [OF _ assms(2)]) simp
  then show ?thesis by simp
qed

end

end
