(* ===== verification/Sniff.thy ===== *)
theory Sniff
  imports Errors
begin

text \<open>
  kernel/src/route/sniff.rs: recovering the domain a client asks for from the first bytes of its
  stream, from the server\_name extension of a TLS ClientHello or the Host header of an HTTP/1.x
  request. Checked slicing (\<open>get(..)?\<close>) is the option monad. The lemmas relate the TLS walk to an
  encoder of ClientHello messages, and say what a sniffed domain can be.
\<close>

section \<open>Checked slicing\<close>

definition get_at :: "'a list \<Rightarrow> nat \<Rightarrow> 'a option" where
  "get_at s i = (if i < length s then Some (s ! i) else None)"

definition slice_from :: "'a list \<Rightarrow> nat \<Rightarrow> 'a list option" where
  "slice_from s n = (if n \<le> length s then Some (drop n s) else None)"

definition slice_to :: "'a list \<Rightarrow> nat \<Rightarrow> 'a list option" where
  "slice_to s n = (if n \<le> length s then Some (take n s) else None)"

section \<open>TLS\<close>

datatype sniffed_protocol = SniffTls | SniffHttp

definition sniffed_as_str :: "sniffed_protocol \<Rightarrow> string" where
  "sniffed_as_str p = (case p of SniffTls \<Rightarrow> ''tls'' | SniffHttp \<Rightarrow> ''http'')"

definition sniff_read_u16 :: "bytes \<Rightarrow> u16 option" where
  "sniff_read_u16 s = do { a \<leftarrow> get_at s 0; b \<leftarrow> get_at s 1; Some (word_of_be [a, b]) }"

text \<open>The host\_name checks: no control byte or space, no trailing dot, UTF-8.\<close>

definition host_name :: "bytes \<Rightarrow> string option" where
  "host_name name =
     (if list_ex (\<lambda>c. c \<le> 0x20) name then None
      else if (name \<noteq> [] \<and> last name = 0x2E) then None
      else from_utf8 name)"

function server_name_loop :: "bytes \<Rightarrow> string option" where
  "server_name_loop d =
     (if d = [] then None
      else do {
        name_type \<leftarrow> get_at d 0;
        d1 \<leftarrow> slice_from d 1;
        name_len \<leftarrow> sniff_read_u16 d1;
        d3 \<leftarrow> slice_from d 3;
        name \<leftarrow> slice_to d3 (unat name_len);
        if name_type = 0 then host_name name
        else if unat name_len \<le> length d3 then server_name_loop (drop (unat name_len) d3)
        else None })"
  by pat_completeness auto
termination
  by (relation "measure length") (auto simp: slice_from_def bind_eq_Some_conv split: if_splits)

definition read_server_name :: "bytes \<Rightarrow> string option" where
  "read_server_name body = do {
     names_len \<leftarrow> sniff_read_u16 body;
     d \<leftarrow> slice_from body 2;
     if length d \<noteq> unat names_len then None else server_name_loop d }"

function extension_loop :: "bytes \<Rightarrow> string option" where
  "extension_loop data =
     (if data = [] then None
      else do {
        extension \<leftarrow> sniff_read_u16 data;
        d2 \<leftarrow> slice_from data 2;
        len \<leftarrow> sniff_read_u16 d2;
        d4 \<leftarrow> slice_from data 4;
        body \<leftarrow> slice_to d4 (unat len);
        case (if extension = 0 then read_server_name body else None) of
          Some name \<Rightarrow> Some name
        | None \<Rightarrow> if unat len \<le> length d4 then extension_loop (drop (unat len) d4) else None })"
  by pat_completeness auto
termination
  by (relation "measure length") (auto simp: slice_from_def bind_eq_Some_conv split: if_splits)

declare server_name_loop.simps [simp del] extension_loop.simps [simp del]

definition read_client_hello :: "bytes \<Rightarrow> string option" where
  "read_client_hello data =
     (if length data < 42 then None
      else do {
        session_id_len \<leftarrow> get_at data 38;
        if 32 < session_id_len then None
        else do {
          data1 \<leftarrow> slice_from data (39 + unat session_id_len);
          cipher_suite_len \<leftarrow> sniff_read_u16 data1;
          if cipher_suite_len AND 1 = 1 then None
          else do {
            data2 \<leftarrow> slice_from data1 (2 + unat cipher_suite_len);
            compression_len \<leftarrow> get_at data2 0;
            data3 \<leftarrow> slice_from data2 (1 + unat compression_len);
            extensions_len \<leftarrow> sniff_read_u16 data3;
            data4 \<leftarrow> slice_from data3 2;
            if unat extensions_len \<noteq> length data4 then None else extension_loop data4 } } })"

definition sniff_tls :: "bytes \<Rightarrow> string option" where
  "sniff_tls payload =
     (if length payload < 5 then None
      else do {
        t \<leftarrow> get_at payload 0;
        if t \<noteq> 0x16 then None
        else do {
          major \<leftarrow> get_at payload 1;
          if major \<noteq> 3 then None
          else do {
            p3 \<leftarrow> slice_from payload 3;
            record_len \<leftarrow> sniff_read_u16 p3;
            let e = 5 + unat record_len in
            if length payload < e then None
            else read_client_hello (take (unat record_len) (drop 5 payload)) } } })"

section \<open>HTTP\<close>

definition HTTP_METHODS :: "string list" where
  "HTTP_METHODS = [''get'', ''post'', ''head'', ''put'', ''delete'', ''options'', ''connect'']"

fun method_loop :: "string list \<Rightarrow> string \<Rightarrow> bool" where
  "method_loop [] b = False"
| "method_loop (m # ms) b =
     (if length m \<le> length b \<and> eq_ignore_ascii_case (take (length m) b) m then True
      else if length b < length m then False
      else method_loop ms b)"

definition begins_with_http_method :: "bytes \<Rightarrow> bool" where
  "begins_with_http_method b = method_loop HTTP_METHODS (string_of_bytes b)"

definition strip_port :: "string \<Rightarrow> string option" where
  "strip_port host =
     (case strip_prefix ''['' host of
        Some rest \<Rightarrow>
          do { (addr, after) \<leftarrow> split_once CHR '']'' rest;
               if after = [] \<or> take 1 after = '':'' then Some addr else None }
      | None \<Rightarrow>
          (let n = length (filter (\<lambda>c. c = CHR '':'') host) in
           if n = 0 then Some host
           else if n = 1 then map_option fst (rsplit_once CHR '':'' host)
           else None))"

text \<open>
  The header loop. The outer option is the early return of \<open>?\<close>, the inner one the value of \<open>host\<close>.
\<close>

fun header_loop :: "bytes list \<Rightarrow> string option \<Rightarrow> string option option" where
  "header_loop [] host = Some host"
| "header_loop (line # ls) host =
     (if line = [] then Some host
      else case position (\<lambda>c. c = 0x3A) line of
        None \<Rightarrow> header_loop ls host
      | Some colon \<Rightarrow>
          let key = take colon line; val = drop (colon + 1) line in
          if eq_ignore_ascii_case (string_of_bytes key) ''host'' then
            (case from_utf8 (trim_ascii val) of
               None \<Rightarrow> None
             | Some raw \<Rightarrow> header_loop ls (strip_port (to_ascii_lowercase raw)))
          else header_loop ls host)"

definition sniff_http :: "bytes \<Rightarrow> string option" where
  "sniff_http payload =
     (if \<not> begins_with_http_method payload then None
      else case header_loop (tl (split_on (\<lambda>c. c = 0x0A) payload)) None of
        Some (Some h) \<Rightarrow> if h = [] then None else Some h
      | _ \<Rightarrow> None)"

definition sniff :: "bytes \<Rightarrow> (sniffed_protocol \<times> string) option" where
  "sniff payload =
     (case sniff_tls payload of
        Some domain \<Rightarrow> Some (SniffTls, domain)
      | None \<Rightarrow> map_option (\<lambda>d. (SniffHttp, d)) (sniff_http payload))"

section \<open>ClientHello messages\<close>

text \<open>
  An encoder of TLS handshake records, after RFC 8446 and RFC 6066, as the specification the walk is
  checked against: an extension, the server\_name extension of one host name, a ClientHello of 38
  header bytes (type, length, version, random), session id, cipher suites, compression methods and
  extensions, and the record around it.
\<close>

definition tls_ext :: "u16 \<times> bytes \<Rightarrow> bytes" where
  "tls_ext e = be16 (fst e) @ be16 (word_of_nat (length (snd e))) @ snd e"

definition sni_ext :: "bytes \<Rightarrow> bytes" where
  "sni_ext name = be16 (word_of_nat (3 + length name)) @ [0] @ be16 (word_of_nat (length name)) @ name"

definition client_hello :: "bytes \<Rightarrow> bytes \<Rightarrow> bytes \<Rightarrow> bytes \<Rightarrow> bytes \<Rightarrow> bytes" where
  "client_hello hs sid suites compr exts =
     hs @ [word_of_nat (length sid)] @ sid @ be16 (word_of_nat (length suites)) @ suites
     @ [word_of_nat (length compr)] @ compr @ be16 (word_of_nat (length exts)) @ exts"

definition tls_record :: "byte \<Rightarrow> bytes \<Rightarrow> bytes" where
  "tls_record minor body = [0x16, 3, minor] @ be16 (word_of_nat (length body)) @ body"

definition wf_hello :: "bytes \<Rightarrow> bytes \<Rightarrow> bytes \<Rightarrow> bytes \<Rightarrow> bool" where
  "wf_hello hs sid suites compr \<longleftrightarrow>
     length hs = 38 \<and> length sid \<le> 32 \<and> even (length suites) \<and> length compr < 256"

lemma get_at_simps [simp]:
  "get_at (x # xs) 0 = Some x"
  "get_at (x # xs) (Suc i) = get_at xs i"
  "get_at [] i = None"
  by (simp_all add: get_at_def)

lemma get_at_append [simp]: "length a = i \<Longrightarrow> get_at (a @ x # xs) i = Some x"
  by (simp add: get_at_def nth_append)

lemma slice_from_append [simp]: "length a = n \<Longrightarrow> slice_from (a @ r) n = Some r"
  by (simp add: slice_from_def)

lemma slice_to_append [simp]: "length a = n \<Longrightarrow> slice_to (a @ r) n = Some a"
  by (simp add: slice_to_def)

lemma sniff_read_u16_be16 [simp]: "sniff_read_u16 (be16 w @ r) = Some w"
proof -
  obtain h l where "be16 w = [h, l]" using be16_split by blast
  moreover have "word_of_be (be16 w) = w" by simp
  ultimately show ?thesis by (simp add: sniff_read_u16_def del: word_of_be_be16)
qed

lemma unat_of_nat_u16 [simp]: "n < 65536 \<Longrightarrow> unat (word_of_nat n :: u16) = n"
  by (simp add: unat_of_nat)

lemma unat_of_nat_byte [simp]: "n < 256 \<Longrightarrow> unat (word_of_nat n :: byte) = n"
  by (simp add: unat_of_nat)

lemma slice_from_4 [simp]:
  "slice_from (be16 a @ be16 b @ r) 4 = Some r" "slice_from (be16 a @ r) 2 = Some r"
  using slice_from_append [of "be16 a @ be16 b" 4 r] by simp_all

lemma extension_loop_ext:
  assumes "length body < 65536"
  shows "extension_loop (tls_ext (t, body) @ r) =
     (case (if t = 0 then read_server_name body else None) of
        Some name \<Rightarrow> Some name | None \<Rightarrow> extension_loop r)"
proof -
  have "be16 t \<noteq> []" by (metis length_be16 list.size(3) zero_neq_numeral)
  then show ?thesis using assms
    by (simp add: tls_ext_def extension_loop.simps [of "be16 t @ _"] split: option.split)
qed

lemma read_server_name_sni:
  assumes "length name < 65533"
  shows "read_server_name (sni_ext name) = host_name name"
proof -
  have 1: "unat (word_of_nat (length name) :: u16) = length name"
    "unat (word_of_nat (3 + length name) :: u16) = 3 + length name"
    using assms unat_of_nat_u16 [of "length name"] unat_of_nat_u16 [of "3 + length name"]
    by (simp_all only:)
  let ?d = "0 # be16 (word_of_nat (length name)) @ name"
  have "slice_from ?d 1 = Some (be16 (word_of_nat (length name)) @ name)"
    "slice_from ?d 3 = Some name" "slice_to name (length name) = Some name"
    using slice_from_append [of "0 # be16 (word_of_nat (length name))" 3 name]
    by (simp_all add: slice_from_def slice_to_def)
  then have "server_name_loop ?d = host_name name"
    using 1(1) by (simp add: server_name_loop.simps [of "0 # _"])
  then show ?thesis using 1(2) by (simp add: read_server_name_def sni_ext_def)
qed

lemma extension_loop_skip:
  assumes "\<And>t b. (t, b) \<in> set pre \<Longrightarrow> t \<noteq> 0 \<and> length b < 65536"
  shows "extension_loop (concat (map tls_ext pre) @ r) = extension_loop r"
  using assms
proof (induction pre)
  case Nil
  then show ?case by simp
next
  case (Cons e pre)
  obtain t b where e: "e = (t, b)" by (cases e)
  have "t \<noteq> 0" "length b < 65536" using Cons.prems [of t b] e by simp_all
  moreover have "extension_loop (concat (map tls_ext pre) @ r) = extension_loop r"
    by (rule Cons.IH) (meson Cons.prems list.set_intros(2))
  ultimately show ?case using e by (simp add: extension_loop_ext)
qed

lemma even_u16_and_1:
  assumes "even n"
  shows "(word_of_nat n :: u16) AND 1 \<noteq> 1"
proof -
  from assms(1) obtain k where "n = 2 * k" by (auto elim: evenE)
  then have "even (word_of_nat n :: u16)" by simp
  then have "(word_of_nat n :: u16) AND 1 = 0"
    by (simp add: and_one_eq even_iff_mod_2_eq_zero)
  then show ?thesis by simp
qed

lemma read_client_hello_encoded:
  assumes wf: "wf_hello hs sid suites compr"
    and len: "length suites < 65536" "length exts < 65536"
  shows "read_client_hello (client_hello hs sid suites compr exts) = extension_loop exts"
proof -
  let ?d1 = "be16 (word_of_nat (length suites)) @ suites @ [word_of_nat (length compr)] @ compr
     @ be16 (word_of_nat (length exts)) @ exts"
  let ?d2 = "[word_of_nat (length compr)] @ compr @ be16 (word_of_nat (length exts)) @ exts"
  have sid: "unat (word_of_nat (length sid) :: byte) = length sid"
    using wf by (simp add: wf_hello_def)
  have le: "\<not> 32 < (word_of_nat (length sid) :: byte)"
    using wf sid by (simp add: wf_hello_def word_less_nat_alt)
  have 0: "get_at (client_hello hs sid suites compr exts) 38 = Some (word_of_nat (length sid))"
    using wf by (simp add: client_hello_def wf_hello_def)
  have 1: "slice_from (client_hello hs sid suites compr exts) (39 + length sid) = Some ?d1"
    using slice_from_append [of "hs @ word_of_nat (length sid) # sid" "39 + length sid" ?d1] wf
    by (simp add: client_hello_def wf_hello_def)
  have 2: "slice_from ?d1 (2 + length suites) = Some ?d2"
    using slice_from_append [of "be16 (word_of_nat (length suites)) @ suites" _ ?d2] by simp
  have 3: "slice_from ?d2 (1 + length compr) = Some (be16 (word_of_nat (length exts)) @ exts)"
    using slice_from_append [of "word_of_nat (length compr) # compr"
        "1 + length compr" "be16 (word_of_nat (length exts)) @ exts"] by simp
  have 4: "\<not> length (client_hello hs sid suites compr exts) < 42"
    using wf by (simp add: client_hello_def wf_hello_def)
  have 5: "(word_of_nat (length suites) :: u16) AND 1 \<noteq> 1"
    using wf by (intro even_u16_and_1) (simp add: wf_hello_def)
  show ?thesis
    using wf len 0 1 2 3 4 5 sid le
    by (simp add: read_client_hello_def wf_hello_def)
qed

lemma sniff_tls_record:
  assumes "length body < 65536"
  shows "sniff_tls (tls_record minor body @ rest) = read_client_hello body"
proof -
  have "slice_from (tls_record minor body @ rest) 3
      = Some (be16 (word_of_nat (length body)) @ body @ rest)"
    by (simp add: tls_record_def slice_from_def)
  moreover have "drop 5 (tls_record minor body @ rest) = body @ rest"
    using drop_append_exact [of "[0x16, 3, minor] @ be16 (word_of_nat (length body))" 5 "body @ rest"]
    by (simp add: tls_record_def)
  moreover have "get_at (tls_record minor body @ rest) 0 = Some 0x16"
    "get_at (tls_record minor body @ rest) 1 = Some 3"
    by (simp_all add: tls_record_def)
  moreover have "length (tls_record minor body @ rest) = 5 + length body + length rest"
    by (simp add: tls_record_def)
  ultimately show ?thesis using assms by (simp add: sniff_tls_def)
qed

section \<open>What a sniffed domain can be\<close>

lemma host_name_Some:
  assumes "host_name name = Some d"
  shows "d = string_of_bytes name \<and> (\<forall>c \<in> set d. 0x20 < (of_char c :: nat)) \<and>
    (d \<noteq> [] \<longrightarrow> last d \<noteq> CHR ''.'')"
proof -
  from assms have d: "d = string_of_bytes name" and u: "\<forall>b \<in> set name. \<not> b \<le> 0x20"
    and l: "name = [] \<or> last name \<noteq> 0x2E"
    by (auto simp: host_name_def from_utf8_Some list_ex_iff split: if_splits)
  have "0x20 < (of_char c :: nat)" if "c \<in> set d" for c
    using that u d by (auto simp: string_of_bytes_def word_le_nat_alt)
  moreover have "last d \<noteq> CHR ''.''" if "d \<noteq> []"
  proof
    assume dot: "last d = CHR ''.''"
    have ne: "name \<noteq> []" using that d by auto
    then have "char_of (unat (last name)) = CHR ''.''"
      using dot d by (simp add: string_of_bytes_def last_map)
    then have "(of_char (char_of (unat (last name))) :: nat) = 0x2E" by simp
    then have "unat (last name) = 0x2E" by simp
    then have "last name = 0x2E" by (simp add: word_unat_eq_iff)
    with l ne show False by simp
  qed
  ultimately show ?thesis using d by blast
qed

lemma server_name_loop_Some: "server_name_loop d = Some n \<Longrightarrow> \<exists>name. host_name name = Some n"
proof (induction d rule: length_induct)
  case (1 d)
  from "1.prems" obtain name_len d3 name where d3: "d \<noteq> []" "slice_from d 3 = Some d3"
    and alt: "host_name name = Some n \<or> server_name_loop (drop (unat (name_len :: u16)) d3) = Some n"
    by (subst (asm) server_name_loop.simps) (auto simp: bind_eq_Some_conv split: if_splits)
  from d3 have "length (drop (unat name_len) d3) < length d"
    by (auto simp: slice_from_def split: if_splits)
  with alt "1.IH" show ?case by blast
qed

lemma extension_loop_Some: "extension_loop d = Some n \<Longrightarrow> \<exists>name. host_name name = Some n"
proof (induction d rule: length_induct)
  case (1 d)
  from "1.prems" obtain len d4 body where d4: "d \<noteq> []" "slice_from d 4 = Some d4"
    and alt: "read_server_name body = Some n \<or> extension_loop (drop (unat (len :: u16)) d4) = Some n"
    by (subst (asm) extension_loop.simps)
       (auto simp: bind_eq_Some_conv split: if_splits option.splits)
  from d4 have "length (drop (unat len) d4) < length d"
    by (auto simp: slice_from_def split: if_splits)
  moreover have "read_server_name body = Some n \<Longrightarrow> \<exists>name. host_name name = Some n"
    by (auto simp: read_server_name_def bind_eq_Some_conv dest: server_name_loop_Some split: if_splits)
  ultimately show ?case using alt "1.IH" by blast
qed

lemma sniff_tls_Some: "sniff_tls p = Some n \<Longrightarrow> \<exists>name. host_name name = Some n"
  by (auto simp: sniff_tls_def read_client_hello_def bind_eq_Some_conv Let_def
      dest!: extension_loop_Some split: if_splits)

section \<open>HTTP requests\<close>

text \<open>Lines with their line feeds, as they are on the wire.\<close>

definition lf_lines :: "bytes list \<Rightarrow> bytes" where
  "lf_lines ls = concat (map (\<lambda>l. l @ [0x0A]) ls)"

lemma split_on_lf_lines:
  "(\<And>x. x \<in> set ls \<Longrightarrow> 0x0A \<notin> set x) \<Longrightarrow>
   split_on (\<lambda>c. c = 0x0A) (lf_lines ls @ rest) = ls @ split_on (\<lambda>c. c = 0x0A) rest"
proof (induction ls)
  case Nil
  then show ?case by (simp add: lf_lines_def)
next
  case (Cons l ls)
  have "split_on (\<lambda>c. c = 0x0A) (l @ 0x0A # lf_lines ls @ rest)
      = l # split_on (\<lambda>c. c = 0x0A) (lf_lines ls @ rest)"
    using Cons.prems [of l] by (intro split_on_append) auto
  then show ?case using Cons by (simp add: lf_lines_def)
qed

lemma header_loop_cr: "header_loop (ls @ [0x0D] # t) host = header_loop (ls @ t) host"
  by (induction ls arbitrary: host) (simp_all split: option.splits)

lemma method_loop_append:
  "\<forall>m \<in> set ms. length m \<le> length b \<Longrightarrow> method_loop ms (b @ xs) = method_loop ms b"
  by (induction ms) auto

lemma sniff_http_nonempty: "sniff_http p = Some d \<Longrightarrow> d \<noteq> []"
  by (auto simp: sniff_http_def split: if_splits option.splits)

section \<open>Properties\<close>

text \<open>
  C1: A TLS record that holds a ClientHello whose first server\_name extension carries one legal host
  name sniffs to exactly that name, whatever the session id, cipher suites, compression methods and
  other extensions around it, and whatever follows the record.
\<close>

theorem sniff_client_hello:
  assumes "wf_hello hs sid suites compr" and "host_name name = Some d"
    and "\<And>t b. (t, b) \<in> set pre \<Longrightarrow> t \<noteq> 0"
    and "hello = client_hello hs sid suites compr
           (concat (map tls_ext pre) @ tls_ext (0, sni_ext name) @ concat (map tls_ext post))"
    and "length hello < 65536"
  shows "sniff (tls_record minor hello @ rest) = Some (SniffTls, d)"
proof -
  let ?sni = "tls_ext (0, sni_ext name) @ concat (map tls_ext post)"
  let ?exts = "concat (map tls_ext pre) @ ?sni"
  have l: "length suites < 65536" "length ?exts < 65536" "length (sni_ext name) < 65536"
    using assms(4,5) by (simp_all add: client_hello_def tls_ext_def)
  have "length b < 65536" if "(t, b) \<in> set pre" for t b
  proof -
    have "length (tls_ext (t, b)) \<le> length (concat (map tls_ext pre))"
      using that by (auto simp: length_concat intro!: member_le_sum_list)
    then show ?thesis using l(2) by (simp add: tls_ext_def)
  qed
  then have "extension_loop ?exts = extension_loop ?sni"
    using assms(3) by (intro extension_loop_skip) blast
  moreover have "length name < 65533" using l(3) by (simp add: sni_ext_def)
  then have "extension_loop ?sni = Some d"
    using l(3) assms(2) by (simp add: extension_loop_ext read_server_name_sni)
  ultimately have "read_client_hello hello = Some d"
    using read_client_hello_encoded [OF assms(1) l(1,2)] assms(4) by simp
  then show ?thesis using sniff_tls_record [OF assms(5)] by (simp add: sniff_def)
qed

theorem sniff_client_hello_witness:
  "sniff (tls_record 1 (client_hello (replicate 38 0) [] [0x13, 1] [0]
      (concat (map tls_ext [(10, [])]) @ tls_ext (0, sni_ext [0x61, 0x2E, 0x62]) @ concat (map tls_ext [(0, [])])))
      @ [7]) = Some (SniffTls, ''a.b'')"
proof -
  have "host_name [0x61, 0x2E, 0x62] = Some ''a.b''" by code_simp
  then show ?thesis
    by (intro sniff_client_hello [OF _ _ _ refl])
       (auto simp: wf_hello_def client_hello_def tls_ext_def sni_ext_def)
qed

text \<open>
  A domain the sniffer returns is clean. From TLS it has no control character or space and no
  trailing dot; from HTTP it is not empty.
\<close>

lemma sniff_domain_clean:
  assumes "sniff payload = Some (p, d)"
  shows "case p of
      SniffTls \<Rightarrow> (\<forall>c \<in> set d. 0x20 < (of_char c :: nat)) \<and> (d \<noteq> [] \<longrightarrow> last d \<noteq> CHR ''.'')
    | SniffHttp \<Rightarrow> d \<noteq> []"
proof (cases "sniff_tls payload")
  case None
  with assms show ?thesis using sniff_http_nonempty by (auto simp: sniff_def)
next
  case (Some n)
  with assms have "p = SniffTls" "n = d" by (auto simp: sniff_def)
  with Some show ?thesis using sniff_tls_Some host_name_Some by fastforce
qed

theorem sniff_domain_clean_witness:
  "sniff (bytes_of_string (''GET / HTTP/1.1'' @ [CHR 0x0A] @ ''Host: a.b:80'')) = Some (SniffHttp, ''a.b'')
   \<and> ''a.b'' \<noteq> []"
proof -
  have "sniff (bytes_of_string (''GET / HTTP/1.1'' @ [CHR 0x0A] @ ''Host: a.b:80'')) = Some (SniffHttp, ''a.b'')"
    by code_simp
  from this sniff_domain_clean [OF this] show ?thesis by simp
qed

text \<open>
  The blank line that ends the header block of a request with CRLF line ends does not stop the
  sniffer: it is a lone carriage return, which is not an empty line, so the result is the one for the
  request with that line taken out, and a Host line of the body counts like a header.
\<close>

lemma sniff_http_crlf_blank_line:
  assumes "7 \<le> length l" and "\<And>x. x \<in> set (l # ls) \<Longrightarrow> 0x0A \<notin> set x"
  shows "sniff_http (lf_lines (l # ls) @ [0x0D, 0x0A] @ body) = sniff_http (lf_lines (l # ls) @ body)"
proof -
  have "split_on (\<lambda>c. c = 0x0A) ([0x0D] @ 0x0A # body) = [0x0D] # split_on (\<lambda>c. c = 0x0A) body"
    by (rule split_on_append) auto
  then have 1: "split_on (\<lambda>c. c = 0x0A) (lf_lines (l # ls) @ [0x0D, 0x0A] @ body)
      = (l # ls) @ [0x0D] # split_on (\<lambda>c. c = 0x0A) body"
    using split_on_lf_lines [of "l # ls" "[0x0D, 0x0A] @ body"] assms(2) by auto
  have 2: "split_on (\<lambda>c. c = 0x0A) (lf_lines (l # ls) @ body) = (l # ls) @ split_on (\<lambda>c. c = 0x0A) body"
    by (rule split_on_lf_lines [OF assms(2)])
  have "begins_with_http_method (lf_lines (l # ls) @ xs) = method_loop HTTP_METHODS (string_of_bytes l)"
    for xs
    using method_loop_append [of HTTP_METHODS "string_of_bytes l"] assms(1)
    by (auto simp: begins_with_http_method_def lf_lines_def HTTP_METHODS_def)
  then show ?thesis using 1 2 by (simp add: sniff_http_def header_loop_cr)
qed

theorem sniff_http_crlf_blank_line_witness:
  "sniff_http (lf_lines [bytes_of_string (''POST / HTTP/1.1'' @ [CHR 0x0D]),
      bytes_of_string (''Host: real.example'' @ [CHR 0x0D])] @ [0x0D, 0x0A]
      @ bytes_of_string ''Host: body.example'') = Some ''body.example''"
proof -
  have "sniff_http (lf_lines [bytes_of_string (''POST / HTTP/1.1'' @ [CHR 0x0D]),
      bytes_of_string (''Host: real.example'' @ [CHR 0x0D])]
      @ bytes_of_string ''Host: body.example'') = Some ''body.example''"
    by code_simp
  then show ?thesis by (subst sniff_http_crlf_blank_line) auto
qed

end
