(* ===== verification/Balance.thy ===== *)
theory Balance
  imports Errors
begin

text \<open>
  kernel/src/route/balance.rs: spreading flows over the outbound tags of a rule. The cursor of the
  balancer is a \<open>usize\<close> (64 bits) that wraps around; the random number a pick draws is an argument.
  The lemmas give the index of every pick and the fairness of the rotation.
\<close>

datatype balance_mode = Random | RoundRobin | UserAuthHash

definition balance_parse :: "string \<Rightarrow> balance_mode option" where
  "balance_parse s =
     (let t = map (\<lambda>c. if c = CHR ''-'' \<or> c = CHR '' '' then CHR ''_'' else c)
                (to_ascii_lowercase (trim s))
      in if t \<in> set [''random'', ''rand''] then Some Random
         else if t \<in> set [''round_robin'', ''roundrobin'', ''rr''] then Some RoundRobin
         else if t \<in> set [''user_auth_hash'', ''userauthhash'', ''auth_hash'', ''hash'']
           then Some UserAuthHash
         else None)"

record load_balancer =
  mode :: balance_mode
  cursor :: u64

definition balancer_new :: "balance_mode \<Rightarrow> load_balancer" where
  "balancer_new m = \<lparr>mode = m, cursor = 0\<rparr>"

definition pick :: "u64 \<Rightarrow> load_balancer \<Rightarrow> nat \<Rightarrow> u64 option \<Rightarrow> nat option \<times> load_balancer" where
  "pick r lb count auth_hash =
     (if count = 0 then (None, lb)
      else case mode lb of
        Random \<Rightarrow> (Some (unat r mod count), lb)
      | RoundRobin \<Rightarrow> (Some (unat (cursor lb) mod count), lb\<lparr>cursor := cursor lb + 1\<rparr>)
      | UserAuthHash \<Rightarrow>
          (Some (unat (case auth_hash of None \<Rightarrow> 0 | Some h \<Rightarrow> h) mod count), lb))"

text \<open>A run of picks: one per element of the list of (random number, hash) pairs.\<close>

fun picks :: "load_balancer \<Rightarrow> nat \<Rightarrow> (u64 \<times> u64 option) list \<Rightarrow> nat option list" where
  "picks lb count [] = []"
| "picks lb count ((r, h) # qs) = (case pick r lb count h of (i, lb') \<Rightarrow> i # picks lb' count qs)"

section \<open>Lemmas\<close>

lemma pick_in_range:
  "fst (pick r lb count h) = Some i \<Longrightarrow> i < count"
  by (auto simp: pick_def split: if_splits balance_mode.splits)

lemma pick_total: "0 < count \<Longrightarrow> \<exists>i. fst (pick r lb count h) = Some i \<and> i < count"
  by (simp add: pick_def split: balance_mode.splits)

lemma pick_mode: "mode (snd (pick r lb count h)) = mode lb"
  by (simp add: pick_def split: balance_mode.splits)

lemma pick_affinity:
  "mode lb = UserAuthHash \<Longrightarrow> pick r lb count h = (fst (pick r' lb count h), lb)"
  by (simp add: pick_def)

lemma picks_round_robin:
  assumes "mode lb = RoundRobin" and "0 < count"
  shows "picks lb count qs = map (\<lambda>i. Some (unat (cursor lb + of_nat i) mod count)) [0..<length qs]"
  using assms
proof (induction qs arbitrary: lb)
  case Nil
  then show ?case by simp
next
  case (Cons q qs)
  obtain r h where q: "q = (r, h)" by (cases q)
  let ?lb = "lb\<lparr>cursor := cursor lb + 1\<rparr>"
  have "picks ?lb count qs
      = map (\<lambda>i. Some (unat (cursor lb + 1 + of_nat i) mod count)) [0..<length qs]"
    using Cons.IH [of ?lb] Cons.prems by simp
  moreover have "[0..<length (q # qs)] = 0 # map Suc [0..<length qs]"
    by (simp add: upt_conv_Cons map_Suc_upt del: upt_Suc)
  ultimately show ?case using Cons.prems q
    by (simp add: pick_def add.assoc comp_def del: upt_Suc)
qed

lemma count_mod_block:
  fixes c :: nat
  assumes "0 < c" and "j < c"
  shows "length (filter (\<lambda>i. i mod c = j) [0..<k * c]) = k"
proof (induction k)
  case 0
  then show ?case by simp
next
  case (Suc k)
  have "filter (\<lambda>i. i mod c = j) [k * c..<k * c + c] = [k * c + j]"
  proof -
    have "filter (\<lambda>i. i mod c = j) (map ((+) (k * c)) [0..<c])
        = map ((+) (k * c)) (filter (\<lambda>i. i = j) [0..<c])"
      by (auto simp: filter_map comp_def intro!: arg_cong [of _ _ "map _"] filter_cong)
    moreover have "filter (\<lambda>i. i = j) [0..<c] = [j]"
    proof -
      have "[0..<c] = [0..<j] @ j # [Suc j..<c]"
        using upt_add_eq_append [of 0 j "c - j"] assms(2) by (simp add: upt_conv_Cons)
      moreover have "filter (\<lambda>i. i = j) [0..<j] = []" "filter (\<lambda>i. i = j) [Suc j..<c] = []"
        by (auto simp: filter_empty_conv)
      ultimately show ?thesis by simp
    qed
    moreover have "map ((+) (k * c)) [0..<c] = [k * c..<k * c + c]"
      by (rule nth_equalityI) auto
    ultimately show ?thesis by simp
  qed
  moreover have "[0..<Suc k * c] = [0..<k * c] @ [k * c..<k * c + c]"
    using upt_add_eq_append [of 0 "k * c" c] by (simp add: add.commute)
  ultimately show ?case using Suc by simp
qed

section \<open>Properties\<close>

text \<open>
  The rotation is fair. A fresh round-robin balancer that makes \<open>k\<close> times as many picks as there
  are tags (fewer than \<open>2\<^sup>6\<^sup>4\<close> in all) never fails, takes the tags in order, and gives every tag
  exactly \<open>k\<close> flows, whatever random numbers and user hashes come with the flows.
\<close>

lemma round_robin_fair:
  assumes "0 < count" and "length qs = k * count" and "k * count < 2 ^ 64" and "j < count"
  shows "picks (balancer_new RoundRobin) count qs = map (\<lambda>i. Some (i mod count)) [0..<k * count]
    \<and> length (filter (\<lambda>p. p = Some j) (picks (balancer_new RoundRobin) count qs)) = k"
proof -
  have eq: "picks (balancer_new RoundRobin) count qs = map (\<lambda>i. Some (i mod count)) [0..<k * count]"
    using picks_round_robin [of "balancer_new RoundRobin" count qs] assms
    by (auto simp: balancer_new_def unat_of_nat intro!: arg_cong [of _ _ "\<lambda>x. x mod count"])
  have "length (filter (\<lambda>p. p = Some j) (map (\<lambda>i. Some (i mod count)) [0..<k * count])) = k"
    using count_mod_block [OF assms(1,4), of k] by (simp add: filter_map comp_def)
  with eq show ?thesis by simp
qed

theorem round_robin_fair_witness:
  "picks (balancer_new RoundRobin) 2 [(7, None), (7, Some 3), (8, None), (0, None)]
     = map (\<lambda>i. Some (i mod 2)) [0..<2 * 2]
   \<and> length (filter (\<lambda>p. p = Some 1)
       (picks (balancer_new RoundRobin) 2 [(7, None), (7, Some 3), (8, None), (0, None)])) = 2"
  by (rule round_robin_fair) simp_all

end
