(* ===== verification/Rule.thy ===== *)
theory Rule
  imports Net Balance
begin

text \<open>
  kernel/src/route/rule.rs: the routing engine. Rules hold OR-combined conditions, the outbound tags
  and their own balancer; a table is an ordered list of rules with a default. The geo oracle (a trait
  of the source) is a record of its two functions, passed to every function that consults it; the
  random number a pick may draw is an argument. Routing returns the decision and the table with the
  advanced cursor.
\<close>

section \<open>CIDR blocks\<close>

record geo_matcher =
  site_contains :: "string \<Rightarrow> string \<Rightarrow> bool"
  ip_contains :: "string \<Rightarrow> ip_addr \<Rightarrow> bool"

definition NoGeo :: geo_matcher where
  "NoGeo = \<lparr>site_contains = (\<lambda>_ _. False), ip_contains = (\<lambda>_ _. False)\<rparr>"

record cidr =
  addr :: ip_addr
  prefix :: byte

definition is_ipv4 :: "ip_addr \<Rightarrow> bool" where
  "is_ipv4 ip = (case ip of V4 _ \<Rightarrow> True | V6 _ \<Rightarrow> False)"

definition cidr_parse :: "string \<Rightarrow> cidr option" where
  "cidr_parse s =
     (let (ip_str, pfx_str) = (case split_once CHR ''/'' s of Some (a, b) \<Rightarrow> (a, Some b) | None \<Rightarrow> (s, None))
      in do {
        a \<leftarrow> parse_ip (trim ip_str);
        let mx = (if is_ipv4 a then 32 else 128);
        p \<leftarrow> (case pfx_str of
               Some p \<Rightarrow> Option.bind (parse_u8 (trim p)) (\<lambda>n. if n \<le> mx then Some n else None)
             | None \<Rightarrow> Some mx);
        Some \<lparr>addr = a, prefix = p\<rparr> })"

text \<open>The loop of \<open>prefix_match\<close>: octet pairs and the prefix bits left.\<close>

fun prefix_match_loop :: "(byte \<times> byte) list \<Rightarrow> nat \<Rightarrow> bool" where
  "prefix_match_loop [] bits = True"
| "prefix_match_loop ((a, b) # ps) bits =
     (if bits = 0 then True
      else if 8 \<le> bits then (if a \<noteq> b then False else prefix_match_loop ps (bits - 8))
      else (let shift = 8 - bits; msk = push_bit shift (0xFF :: byte) in
            if a AND msk \<noteq> b AND msk then False else prefix_match_loop ps 0))"

definition prefix_match :: "bytes \<Rightarrow> bytes \<Rightarrow> byte \<Rightarrow> bool" where
  "prefix_match net ip pfx = prefix_match_loop (zip net ip) (unat pfx)"

definition cidr_contains :: "cidr \<Rightarrow> ip_addr \<Rightarrow> bool" where
  "cidr_contains c ip = (case (addr c, ip) of
     (V4 n, V4 i) \<Rightarrow> prefix_match (v4_octets n) (v4_octets i) (prefix c)
   | (V6 n, V6 i) \<Rightarrow> prefix_match (v6_octets n) (v6_octets i) (prefix c)
   | _ \<Rightarrow> False)"

section \<open>Conditions\<close>

datatype condition =
    GeoSite string
  | DomainSuffix string
  | GeoIp string
  | CondIp cidr
  | Port u16 u16
  | Any

definition parse_port_range :: "string \<Rightarrow> (u16 \<times> u16) option" where
  "parse_port_range s =
     (case split_once CHR ''-'' s of
        Some (lo, hi) \<Rightarrow> do {
          lo \<leftarrow> parse_u16 (trim lo);
          hi \<leftarrow> parse_u16 (trim hi);
          if lo \<le> hi then Some (lo, hi) else None }
      | None \<Rightarrow> do { p \<leftarrow> parse_u16 (trim s); Some (p, p) })"

definition condition_parse :: "string \<Rightarrow> condition option" where
  "condition_parse token =
     (let token = trim token in
      if token = ''*'' then Some Any
      else do {
        (kind, v) \<leftarrow> split_once CHR '':'' token;
        let v = trim v;
        let k = to_ascii_lowercase (trim kind);
        if k = ''geosite'' then (if v \<noteq> [] then Some (GeoSite v) else None)
        else if k = ''domain'' then (if v \<noteq> [] then Some (DomainSuffix (to_ascii_lowercase v)) else None)
        else if k = ''geoip'' then (if v \<noteq> [] then Some (GeoIp v) else None)
        else if k = ''ip'' then map_option CondIp (cidr_parse v)
        else if k = ''port'' then map_option (\<lambda>(lo, hi). Port lo hi) (parse_port_range v)
        else None })"

definition domain_suffix_match :: "string \<Rightarrow> string \<Rightarrow> bool" where
  "domain_suffix_match d suffix =
     (if eq_ignore_ascii_case d suffix then True
      else if length suffix \<le> length d \<and> 1 \<le> length d - length suffix then
        (let i = length d - length suffix in
         d ! (i - 1) = CHR ''.'' \<and> eq_ignore_ascii_case (drop i d) suffix)
      else False)"

record route_query =
  target :: destination
  q_network :: network
  q_source :: "ip_addr option"
  sniffed_domain :: "string option"
  auth_hash :: "u64 option"

definition query_domain :: "route_query \<Rightarrow> string option" where
  "query_domain q = (case address (target q) of
     Domain d \<Rightarrow> Some (to_ascii_lowercase d)
   | Ip _ \<Rightarrow> map_option to_ascii_lowercase (sniffed_domain q))"

definition condition_matches :: "geo_matcher \<Rightarrow> condition \<Rightarrow> route_query \<Rightarrow> bool" where
  "condition_matches geo c q = (case c of
     Any \<Rightarrow> True
   | Port lo hi \<Rightarrow> lo \<le> port (target q) \<and> port (target q) \<le> hi
   | DomainSuffix suffix \<Rightarrow>
       (case query_domain q of Some d \<Rightarrow> domain_suffix_match d suffix | None \<Rightarrow> False)
   | GeoSite tag \<Rightarrow> (case query_domain q of Some d \<Rightarrow> site_contains geo tag d | None \<Rightarrow> False)
   | CondIp cidr \<Rightarrow> (case address (target q) of Ip ip \<Rightarrow> cidr_contains cidr ip | Domain _ \<Rightarrow> False)
   | GeoIp tag \<Rightarrow> (case address (target q) of Ip ip \<Rightarrow> ip_contains geo tag ip | Domain _ \<Rightarrow> False))"

section \<open>Rules and tables\<close>

datatype route_decision = Outbound string | Freedom | Blackhole

record match_rule =
  conditions :: "condition list"
  outs :: "string list"
  balancer :: load_balancer

definition rule_new :: "condition list \<Rightarrow> string list \<Rightarrow> balance_mode \<Rightarrow> match_rule" where
  "rule_new cs os m = \<lparr>conditions = cs, outs = os, balancer = balancer_new m\<rparr>"

definition rule_matches :: "geo_matcher \<Rightarrow> match_rule \<Rightarrow> route_query \<Rightarrow> bool" where
  "rule_matches geo rl q = list_ex (\<lambda>c. condition_matches geo c q) (conditions rl)"

definition decide :: "u64 \<Rightarrow> match_rule \<Rightarrow> route_query \<Rightarrow> route_decision \<times> match_rule" where
  "decide rnd rl q =
     (case outs rl of
        [] \<Rightarrow> (Blackhole, rl)
      | [t] \<Rightarrow> (Outbound t, rl)
      | ts \<Rightarrow>
          (case pick rnd (balancer rl) (length ts) (auth_hash q) of
             (i, lb) \<Rightarrow>
               ((case i of
                   Some i \<Rightarrow> if i < length ts then Outbound (ts ! i) else Blackhole
                 | None \<Rightarrow> Blackhole),
                rl\<lparr>balancer := lb\<rparr>)))"

record route_table =
  rules :: "match_rule list"
  default_branch :: route_decision

definition table_new :: "match_rule list \<Rightarrow> route_decision option \<Rightarrow> route_table" where
  "table_new rs d = \<lparr>rules = rs, default_branch = (case d of Some d \<Rightarrow> d | None \<Rightarrow> Freedom)\<rparr>"

fun route_rules ::
  "geo_matcher \<Rightarrow> u64 \<Rightarrow> match_rule list \<Rightarrow> route_query \<Rightarrow> (route_decision \<times> match_rule list) option" where
  "route_rules geo rnd [] q = None"
| "route_rules geo rnd (rl # rs) q =
     (if rule_matches geo rl q then (case decide rnd rl q of (d, rl') \<Rightarrow> Some (d, rl' # rs))
      else map_option (\<lambda>(d, rs'). (d, rl # rs')) (route_rules geo rnd rs q))"

definition route :: "geo_matcher \<Rightarrow> u64 \<Rightarrow> route_table \<Rightarrow> route_query \<Rightarrow> route_decision \<times> route_table" where
  "route geo rnd tbl q = (case route_rules geo rnd (rules tbl) q of
     Some (d, rs) \<Rightarrow> (d, tbl\<lparr>rules := rs\<rparr>)
   | None \<Rightarrow> (default_branch tbl, tbl))"

section \<open>Octet prefixes are bit prefixes\<close>

lemma be_nat_Cons: "be_nat (x # xs) = unat x * 256 ^ length xs + be_nat xs"
proof (induction xs rule: rev_induct)
  case Nil
  then show ?case by (simp add: be_nat_def)
next
  case (snoc y xs)
  then show ?case
    using be_nat_snoc [of "x # xs" y] be_nat_snoc [of xs y] by (simp add: algebra_simps)
qed

lemma masked_octets_eq:
  "(x AND push_bit s 0xFF = y AND push_bit s (0xFF :: byte)) \<longleftrightarrow> unat x div 2 ^ s = unat y div 2 ^ s"
proof -
  have ff: "(0xFF :: byte) = -1" by simp
  have masked: "z AND push_bit s (-1) = push_bit s (drop_bit s z)" for z :: byte
    by (rule bit_word_eqI) (auto simp: bit_simps)
  have dropped: "drop_bit s (push_bit s (drop_bit s z)) = drop_bit s z" for z :: byte
    by (rule bit_word_eqI) (auto simp: bit_simps dest: bit_imp_le_length)
  have "(x AND push_bit s 0xFF = y AND push_bit s (0xFF :: byte)) \<longleftrightarrow> drop_bit s x = drop_bit s y"
    unfolding ff masked using dropped by metis
  also have "\<dots> \<longleftrightarrow> unat (drop_bit s x) = unat (drop_bit s y)"
    by (simp add: word_unat_eq_iff)
  also have "\<dots> \<longleftrightarrow> unat x div 2 ^ s = unat y div 2 ^ s"
    unfolding unat_drop_bit_eq by (simp add: drop_bit_eq_div)
  finally show ?thesis .
qed

lemma mult_add_eq_iff:
  fixes a b q x y :: nat
  assumes "a < q" "b < q"
  shows "x * q + a = y * q + b \<longleftrightarrow> x = y \<and> a = b"
proof
  assume e: "x * q + a = y * q + b"
  then have "(x * q + a) div q = (y * q + b) div q" by simp
  then have "x = y" using assms by simp
  with e show "x = y \<and> a = b" by simp
qed simp

text \<open>One octet of a comparison: the leading octet decides the leading eight bits.\<close>

lemma div_octet_split:
  fixes x y A B m :: nat
  assumes "A < 256 ^ m" "B < 256 ^ m" "8 \<le> p" "p \<le> 8 * (m + 1)"
  shows "(x * 256 ^ m + A) div 2 ^ (8 * (m + 1) - p) = (y * 256 ^ m + B) div 2 ^ (8 * (m + 1) - p)
     \<longleftrightarrow> x = y \<and> A div 2 ^ (8 * m - (p - 8)) = B div 2 ^ (8 * m - (p - 8))"
proof -
  let ?k = "8 * m - (p - 8)"
  let ?q = "p - 8"
  have k: "8 * (m + 1) - p = ?k" using assms by simp
  have pw: "(256::nat) ^ m = 2 ^ ?q * 2 ^ ?k"
  proof -
    have "(256::nat) ^ m = (2 ^ 8) ^ m" by simp
    also have "\<dots> = 2 ^ (8 * m)" by (simp only: power_mult)
    also have "8 * m = ?q + ?k" using assms by simp
    finally show ?thesis by (simp only: power_add)
  qed
  have d: "(z * 256 ^ m + C) div 2 ^ ?k = z * 2 ^ ?q + C div 2 ^ ?k" for z C :: nat
    by (simp add: pw mult.assoc [symmetric])
  have "A div 2 ^ ?k < 2 ^ ?q" "B div 2 ^ ?k < 2 ^ ?q"
    using assms(1,2) by (simp_all add: pw less_mult_imp_div_less)
  then have "x * 2 ^ ?q + A div 2 ^ ?k = y * 2 ^ ?q + B div 2 ^ ?k \<longleftrightarrow>
     x = y \<and> A div 2 ^ ?k = B div 2 ^ ?k"
    by (rule mult_add_eq_iff)
  then show ?thesis unfolding k d .
qed

lemma prefix_match_loop_be_nat:
  "length xs = length ys \<Longrightarrow> p \<le> 8 * length xs \<Longrightarrow>
   prefix_match_loop (zip xs ys) p \<longleftrightarrow>
     be_nat xs div 2 ^ (8 * length xs - p) = be_nat ys div 2 ^ (8 * length xs - p)"
proof (induction xs ys arbitrary: p rule: list_induct2')
  case (4 x xs y ys)
  have len: "length xs = length ys" using "4.prems" by simp
  have A: "be_nat xs < 256 ^ length xs" "be_nat ys < 256 ^ length xs"
    using be_nat_bound [of xs] be_nat_bound [of ys] len by simp_all
  have pw: "(256::nat) ^ length xs = 2 ^ (8 * length xs)"
    by (simp add: power_mult)
  show ?case
  proof (cases "p = 0")
    case True
    have "be_nat (x # xs) < 2 ^ (8 * length (x # xs))" "be_nat (y # ys) < 2 ^ (8 * length (x # xs))"
      using be_nat_bound [of "x # xs"] be_nat_bound [of "y # ys"] len pw
      by (simp_all add: power_add)
    then show ?thesis using True by simp
  next
    case False
    show ?thesis
    proof (cases "8 \<le> p")
      case True
      then have "p - 8 \<le> 8 * length xs" using "4.prems" by simp
      then show ?thesis
        using div_octet_split [OF A True, of "unat x" "unat y"] "4.IH" [of "p - 8"] "4.prems" True len
        by (simp add: be_nat_Cons word_unat_eq_iff)
    next
      case small: False
      have e: "8 * length (x # xs) - p = 8 * length xs + (8 - p)" using small by simp
      have lead: "(z * 256 ^ length xs + C) div 2 ^ (8 * length xs + (8 - p)) = z div 2 ^ (8 - p)"
        if "C < 256 ^ length xs" for z C :: nat
        using that by (simp add: power_add div_mult2_eq pw)
      have "prefix_match_loop ps 0" for ps by (cases ps) auto
      then have "prefix_match_loop (zip (x # xs) (y # ys)) p \<longleftrightarrow>
          unat x div 2 ^ (8 - p) = unat y div 2 ^ (8 - p)"
        using False small masked_octets_eq [of x "8 - p" y] by (simp add: Let_def)
      then show ?thesis using lead A len unfolding e be_nat_Cons by simp
    qed
  qed
qed auto

definition wf_cidr :: "cidr \<Rightarrow> bool" where
  "wf_cidr c \<longleftrightarrow> prefix c \<le> (if is_ipv4 (addr c) then 32 else 128)"

lemma cidr_parse_wf: "cidr_parse s = Some c \<Longrightarrow> wf_cidr c"
  by (auto simp: cidr_parse_def wf_cidr_def Let_def bind_eq_Some_conv
      split: option.splits prod.splits if_splits)

lemma unat_div_eq_drop_bit:
  "unat x div 2 ^ k = unat y div 2 ^ k \<longleftrightarrow> drop_bit k x = drop_bit k (y :: 'a::len word)"
  unfolding word_unat_eq_iff unat_drop_bit_eq by (simp add: drop_bit_eq_div)

lemma be_nat_octets [simp]: "be_nat (v4_octets a) = unat a" "be_nat (v6_octets b) = unat b"
proof -
  have "unat a < 256 ^ 4" "unat b < 256 ^ 16"
    using unsigned_less [of a, where ?'a = nat] unsigned_less [of b, where ?'a = nat] by simp_all
  then show "be_nat (v4_octets a) = unat a" "be_nat (v6_octets b) = unat b"
    by (simp_all add: v4_octets_def v6_octets_def be_nat_be_bytes)
qed

lemma prefix_match_v4:
  "p \<le> 32 \<Longrightarrow> prefix_match (v4_octets n) (v4_octets i) p \<longleftrightarrow>
     drop_bit (32 - unat p) n = drop_bit (32 - unat p) i"
  by (simp add: prefix_match_def prefix_match_loop_be_nat unat_div_eq_drop_bit word_le_nat_alt)

lemma prefix_match_v6:
  "p \<le> 128 \<Longrightarrow> prefix_match (v6_octets n) (v6_octets i) p \<longleftrightarrow>
     drop_bit (128 - unat p) n = drop_bit (128 - unat p) i"
  by (simp add: prefix_match_def prefix_match_loop_be_nat unat_div_eq_drop_bit word_le_nat_alt)

section \<open>Domain suffixes\<close>

lemma ascii_lower_dot: "ascii_lower c = CHR ''.'' \<longleftrightarrow> c = CHR ''.''"
proof -
  have "char_of (code_of c + 32) \<noteq> CHR ''.''" if "is_ascii_upper c"
  proof
    assume "char_of (code_of c + 32) = CHR ''.''"
    then have "code_of (char_of (code_of c + 32)) = code_of (CHR ''.'')" by simp
    then show False using that by (simp add: is_ascii_upper_def)
  qed
  then show ?thesis by (auto simp: ascii_lower_def is_ascii_upper_def)
qed

lemma domain_suffix_match_iff:
  "domain_suffix_match d s \<longleftrightarrow>
     to_ascii_lowercase d = to_ascii_lowercase s \<or>
     (\<exists>sub. to_ascii_lowercase d = sub @ ''.'' @ to_ascii_lowercase s)"
  (is "?m \<longleftrightarrow> ?e \<or> ?s")
proof
  assume ?m
  show "?e \<or> ?s"
  proof (cases ?e)
    case False
    let ?i = "length d - length s"
    from \<open>?m\<close> False have i: "length s \<le> length d" "1 \<le> ?i" "d ! (?i - 1) = CHR ''.''"
      "to_ascii_lowercase (drop ?i d) = to_ascii_lowercase s"
      by (auto simp: domain_suffix_match_def eq_ignore_ascii_case_def Let_def split: if_splits)
    have "d = take (?i - 1) d @ d ! (?i - 1) # drop ?i d"
      using i(1,2) id_take_nth_drop [of "?i - 1" d] by (simp add: Suc_diff_Suc)
    then have "to_ascii_lowercase d = to_ascii_lowercase (take (?i - 1) d) @ ''.'' @ to_ascii_lowercase s"
      using i(3,4) ascii_lower_dot
      by (metis append_Cons append_Nil list.simps(9) map_append to_ascii_lowercase_def)
    then show ?thesis by blast
  qed simp
next
  assume "?e \<or> ?s"
  then show ?m
  proof
    assume ?s
    then obtain sub where sub: "map ascii_lower d = sub @ CHR ''.'' # map ascii_lower s"
      by (auto simp: to_ascii_lowercase_def)
    then obtain a c b where "d = a @ c # b" "ascii_lower c = CHR ''.''"
      and b: "map ascii_lower b = map ascii_lower s"
      by (auto simp: map_eq_append_conv map_eq_Cons_conv)
    then have ab: "d = a @ CHR ''.'' # b" "map ascii_lower b = map ascii_lower s"
      by (simp_all add: ascii_lower_dot)
    have "length b = length s" using ab(2) by (metis length_map)
    then show ?m using ab
      by (auto simp: domain_suffix_match_def eq_ignore_ascii_case_def to_ascii_lowercase_def Let_def nth_append)
  qed (simp add: domain_suffix_match_def eq_ignore_ascii_case_def)
qed

section \<open>Routing\<close>

lemma decide_outs:
  assumes "decide rnd rl q = (d, rl')"
  shows "(d = Blackhole \<and> outs rl = []) \<or> (\<exists>t \<in> set (outs rl). d = Outbound t)"
proof (cases "outs rl")
  case (Cons t ts)
  show ?thesis
  proof (cases ts)
    case Nil
    then show ?thesis using Cons assms by (simp add: decide_def)
  next
    case (Cons t' ts')
    with \<open>outs rl = t # ts\<close> have o: "outs rl = t # t' # ts'" by simp
    from pick_total [of "length (outs rl)" rnd "balancer rl" "auth_hash q"] o
    obtain i where i: "fst (pick rnd (balancer rl) (length (outs rl)) (auth_hash q)) = Some i"
      "i < length (outs rl)" by auto
    then have "d = Outbound (outs rl ! i)"
      using assms o by (auto simp: decide_def split: prod.splits)
    then show ?thesis using i(2) nth_mem by blast
  qed
qed (use assms in \<open>simp add: decide_def\<close>)

lemma decide_frame:
  "conditions (snd (decide rnd rl q)) = conditions rl \<and> outs (snd (decide rnd rl q)) = outs rl \<and>
   mode (balancer (snd (decide rnd rl q))) = mode (balancer rl)"
  using pick_mode [of rnd "balancer rl" "length (outs rl)" "auth_hash q"]
  by (auto simp: decide_def split: list.splits prod.splits)

lemma route_rules_None:
  "route_rules geo rnd rs q = None \<longleftrightarrow> (\<forall>rl \<in> set rs. \<not> rule_matches geo rl q)"
  by (induction rs) (auto split: prod.splits)

lemma route_rules_Some:
  assumes "route_rules geo rnd rs q = Some (d, rs')"
  shows "\<exists>pre rl post rl'. rs = pre @ rl # post \<and> (\<forall>x \<in> set pre. \<not> rule_matches geo x q) \<and>
      rule_matches geo rl q \<and> decide rnd rl q = (d, rl') \<and> rs' = pre @ rl' # post"
  using assms
proof (induction rs arbitrary: rs')
  case Nil
  then show ?case by simp
next
  case (Cons r rs)
  show ?case
  proof (cases "rule_matches geo r q")
    case True
    obtain d' r' where "decide rnd r q = (d', r')" by fastforce
    then show ?thesis using Cons.prems True by (intro exI [of _ "[]"]) auto
  next
    case False
    with Cons.prems obtain rs1 where rs1: "route_rules geo rnd rs q = Some (d, rs1)" "rs' = r # rs1"
      by auto
    from Cons.IH [OF rs1(1)] obtain pre rl post rl' where
      "rs = pre @ rl # post" "\<forall>x \<in> set pre. \<not> rule_matches geo x q"
      "rule_matches geo rl q" "decide rnd rl q = (d, rl')" "rs1 = pre @ rl' # post" by blast
    then show ?thesis using False rs1(2)
      by (intro exI [of _ "r # pre"] exI [of _ rl] exI [of _ post] exI [of _ rl']) auto
  qed
qed

section \<open>Properties\<close>

text \<open>
  C2: A CIDR block a rule accepts contains exactly the addresses of its family that agree with it on
  the leading prefix bits: the octet loop with its shifted mask is the comparison of the addresses as
  32-bit or 128-bit numbers, shifted right past the host bits.
\<close>

theorem cidr_contains_bits:
  assumes "cidr_parse s = Some c"
  shows "cidr_contains c ip \<longleftrightarrow> (case (addr c, ip) of
      (V4 n, V4 i) \<Rightarrow> drop_bit (32 - unat (prefix c)) n = drop_bit (32 - unat (prefix c)) i
    | (V6 n, V6 i) \<Rightarrow> drop_bit (128 - unat (prefix c)) n = drop_bit (128 - unat (prefix c)) i
    | _ \<Rightarrow> False)"
  using cidr_parse_wf [OF assms]
  by (auto simp: cidr_contains_def wf_cidr_def is_ipv4_def prefix_match_v4 prefix_match_v6
      split: ip_addr.splits)

theorem cidr_contains_bits_witness:
  "cidr_parse ''10.1.2.3/20'' = Some \<lparr>addr = V4 0x0A010203, prefix = 20\<rparr> \<and>
   cidr_contains \<lparr>addr = V4 0x0A010203, prefix = 20\<rparr> (V4 0x0A010FFF)"
proof -
  have p: "cidr_parse ''10.1.2.3/20'' = Some \<lparr>addr = V4 0x0A010203, prefix = 20\<rparr>" by code_simp
  have "drop_bit 12 (0x0A010203 :: 32 word) = drop_bit 12 0x0A010FFF" by code_simp
  then show ?thesis using p cidr_contains_bits [OF p, of "V4 0x0A010FFF"] by simp
qed

text \<open>
  A \<open>domain:\<close> condition matches exactly the domain itself and its subdomains, ignoring ASCII
  case: never a name that merely ends in the same letters.
\<close>

lemma domain_condition_spec:
  "condition_matches geo (DomainSuffix s) q \<longleftrightarrow>
     (\<exists>d. query_domain q = Some d \<and>
        (d = to_ascii_lowercase s \<or> (\<exists>sub. d = sub @ ''.'' @ to_ascii_lowercase s)))"
proof -
  have "to_ascii_lowercase d = d" if "query_domain q = Some d" for d
    using that by (auto simp: query_domain_def split: address.splits)
  then show ?thesis
    by (auto simp: condition_matches_def domain_suffix_match_iff split: option.splits)
qed

text \<open>
  C3: Routing is first match. When no rule matches, the default decides and nothing changes. Otherwise
  the first matching rule decides; a rule without tags drops the flow, any other sends it to one of
  its own tags; and only that rule's balancer moves, so every rule keeps its conditions and tags.
\<close>

theorem route_first_match:
  assumes "route geo rnd tbl q = (d, tbl')"
  shows "((\<forall>rl \<in> set (rules tbl). \<not> rule_matches geo rl q) \<and> d = default_branch tbl \<and> tbl' = tbl) \<or>
    (\<exists>pre rl post rl'. rules tbl = pre @ rl # post \<and> (\<forall>x \<in> set pre. \<not> rule_matches geo x q) \<and>
       rule_matches geo rl q \<and>
       (if outs rl = [] then d = Blackhole else \<exists>t \<in> set (outs rl). d = Outbound t) \<and>
       tbl' = tbl\<lparr>rules := pre @ rl' # post\<rparr> \<and>
       conditions rl' = conditions rl \<and> outs rl' = outs rl)"
proof (cases "route_rules geo rnd (rules tbl) q")
  case None
  then have "\<forall>rl \<in> set (rules tbl). \<not> rule_matches geo rl q" by (simp only: route_rules_None)
  moreover have "d = default_branch tbl \<and> tbl' = tbl" using None assms by (auto simp: route_def)
  ultimately show ?thesis by blast
next
  case (Some dr)
  obtain d' rs' where dr: "dr = (d', rs')" by fastforce
  with Some assms have tbl': "d' = d" "tbl' = tbl\<lparr>rules := rs'\<rparr>" by (auto simp: route_def)
  from route_rules_Some [OF Some [unfolded dr]] tbl' obtain pre rl post rl' where
    r: "rules tbl = pre @ rl # post" "\<forall>x \<in> set pre. \<not> rule_matches geo x q"
    "rule_matches geo rl q" "decide rnd rl q = (d, rl')" "rs' = pre @ rl' # post" by blast
  have "conditions rl' = conditions rl \<and> outs rl' = outs rl"
    using decide_frame [of rnd rl q] r(4) by simp
  with r decide_outs [OF r(4)] tbl' show ?thesis
    by (intro disjI2 exI [of _ pre] exI [of _ rl] exI [of _ post] exI [of _ rl']) auto
qed

theorem route_first_match_witness:
  "\<exists>tbl'. route NoGeo 5 (table_new [rule_new [Port 80 80] [''a''] Random, rule_new [Any] [] Random] None)
      \<lparr>target = dest_tcp (Domain ''x.y'') 443, q_network = Tcp, q_source = None, sniffed_domain = None,
       auth_hash = None\<rparr> = (Blackhole, tbl')"
proof -
  let ?t = "table_new [rule_new [Port 80 80] [''a''] Random, rule_new [Any] [] Random] None"
  let ?q = "\<lparr>target = dest_tcp (Domain ''x.y'') 443, q_network = Tcp, q_source = None,
    sniffed_domain = None, auth_hash = None\<rparr>"
  obtain d tbl' where r: "route NoGeo 5 ?t ?q = (d, tbl')" by fastforce
  from route_first_match [OF r] have "d = Blackhole"
    by (auto simp: table_new_def rule_new_def rule_matches_def condition_matches_def dest_tcp_def
        Cons_eq_append_conv)
  with r show ?thesis by blast
qed

text \<open>
  User affinity. A rule that balances by user hash sends every flow of a user that it matches to
  the same outbound, whatever random numbers are drawn and however often it has decided before: the
  rule itself does not change.
\<close>

lemma decide_affinity:
  assumes "mode (balancer rl) = UserAuthHash" and "auth_hash q = auth_hash q'"
  shows "decide rnd rl q = (fst (decide rnd' rl q'), rl)"
  using assms pick_affinity [OF assms(1), of rnd "length (outs rl)" "auth_hash q" rnd']
  by (auto simp: decide_def split: list.splits prod.splits)

theorem decide_affinity_witness:
  "decide 1 (rule_new [Any] [''a'', ''b''] UserAuthHash)
     \<lparr>target = dest_tcp (Domain ''x'') 1, q_network = Tcp, q_source = None, sniffed_domain = None, auth_hash = Some 7\<rparr>
   = (fst (decide 2 (rule_new [Any] [''a'', ''b''] UserAuthHash)
     \<lparr>target = dest_tcp (Domain ''y'') 2, q_network = Tcp, q_source = None, sniffed_domain = None, auth_hash = Some 7\<rparr>),
     rule_new [Any] [''a'', ''b''] UserAuthHash)"
  by (rule decide_affinity) (simp_all add: rule_new_def balancer_new_def)

end
