(* ===== verification/Uuid.thy ===== *)
theory Uuid
  imports Errors
begin

text \<open>
  kernel/src/uuid.rs: 16-byte identities and their text form. SHA-1 is a library function and a
  parameter of the parser. The output array is filled front to back, so the model builds it as a list;
  its length, 16, is a lemma.
\<close>

type_synonym uuid = bytes

definition GROUPS :: "nat list" where
  "GROUPS = [8, 4, 4, 4, 12]"

definition uuid_from_bytes :: "bytes \<Rightarrow> uuid result" where
  "uuid_from_bytes b = (if length b = 16 then Inr b else Inl (Protocol ''invalid UUID length''))"

definition hex_val :: "byte \<Rightarrow> byte result" where
  "hex_val c =
     (if 0x30 \<le> c \<and> c \<le> 0x39 then Inr (c - 0x30)
      else if 0x61 \<le> c \<and> c \<le> 0x66 then Inr (c - 0x61 + 10)
      else if 0x41 \<le> c \<and> c \<le> 0x46 then Inr (c - 0x41 + 10)
      else Inl (Protocol ''invalid UUID hex''))"

text \<open>\<open>decode_hex\<close> fills \<open>n\<close> bytes from the leading pairs of digits.\<close>

fun decode_hex :: "nat \<Rightarrow> bytes \<Rightarrow> bytes result" where
  "decode_hex 0 hex = Inr []"
| "decode_hex (Suc n) (hi # lo # hex) =
     rbind (hex_val hi) (\<lambda>h. rbind (hex_val lo) (\<lambda>l.
       rbind (decode_hex n hex) (\<lambda>bs. Inr ((push_bit 4 h OR l) # bs))))"
| "decode_hex (Suc n) hex = Inl (Protocol ''invalid UUID'')"

fun parse_groups :: "nat list \<Rightarrow> bytes \<Rightarrow> bytes \<Rightarrow> uuid result" where
  "parse_groups [] tx out = Inr out"
| "parse_groups (g # gs) tx out =
     (let tx1 = (case tx of c # r \<Rightarrow> if c = 0x2D then r else tx | [] \<Rightarrow> []) in
      if length tx1 < g then Inl (Protocol ''invalid UUID'')
      else if 16 < length out + g div 2 then Inl (Protocol ''invalid UUID'')
      else rbind (decode_hex (g div 2) (take g tx1)) (\<lambda>bs. parse_groups gs (drop g tx1) (out @ bs)))"

definition uuid_parse_str :: "(bytes \<Rightarrow> bytes) \<Rightarrow> string \<Rightarrow> uuid result" where
  "uuid_parse_str sha1 s =
     (let tx = bytes_of_string s; l = length tx in
      if \<not> (32 \<le> l \<and> l \<le> 36) then
        (if l = 0 \<or> 30 < l then Inl (Protocol ''invalid UUID'')
         else
          (let digest = sha1 (replicate 16 0 @ tx) in
           if length digest < 16 then Inl (Crypto ''sha1 short'')
           else
             (let u = take 16 digest;
                  u = u[6 := (u ! 6 AND 0x0f) OR push_bit 4 5];
                  u = u[8 := (u ! 8 AND 0x3f) OR 0x80]
              in Inr u)))
      else parse_groups GROUPS tx [])"

definition hex_char :: "byte \<Rightarrow> byte" where
  "hex_char d = (if d < 10 then 0x30 + d else 0x61 + (d - 10))"

definition hex2 :: "byte \<Rightarrow> bytes" where
  "hex2 b = [hex_char (drop_bit 4 b), hex_char (b AND 0x0F)]"

definition hex_of :: "bytes \<Rightarrow> bytes" where
  "hex_of bs = concat (map hex2 bs)"

text \<open>\<open>Display for Uuid\<close>.\<close>

definition uuid_show :: "uuid \<Rightarrow> string" where
  "uuid_show b = string_of_bytes
     (hex_of (take 4 b) @ [0x2D] @ hex_of (take 2 (drop 4 b)) @ [0x2D] @ hex_of (take 2 (drop 6 b))
      @ [0x2D] @ hex_of (take 2 (drop 8 b)) @ [0x2D] @ hex_of (drop 10 b))"

section \<open>Hex digits\<close>

lemma hex_val_hex_char:
  assumes "d < 16"
  shows "hex_val (hex_char d) = Inr d"
proof -
  have d: "unat d < 16" using assms by (simp add: word_less_nat_alt)
  show ?thesis
  proof (cases "d < 10")
    case True
    then have "unat (0x30 + d) = 48 + unat d" using d by (simp add: unat_word_ariths)
    then show ?thesis using True
      by (auto simp: hex_val_def hex_char_def word_le_nat_alt word_less_nat_alt)
  next
    case False
    have e: "0x61 + (d - 10) = 0x57 + d" by simp
    have "unat (0x57 + d) = 87 + unat d" using d by (simp add: unat_word_ariths)
    then show ?thesis using False d
      by (auto simp: hex_val_def hex_char_def word_le_nat_alt word_less_nat_alt)
  qed
qed

lemma low_nibble: "b AND 0x0F = take_bit 4 (b :: byte)"
proof -
  have "mask 4 = (0x0F :: byte)" by (simp add: mask_eq_exp_minus_1)
  then show ?thesis by (simp add: take_bit_eq_mask)
qed

lemma nibbles: "push_bit 4 (drop_bit 4 b) OR (b AND 0x0F) = (b :: byte)"
  unfolding low_nibble by (rule bit_word_eqI) (auto simp: bit_simps)

lemma nibble_bounds: "drop_bit 4 b < (16 :: byte)" "b AND 0x0F < (16 :: byte)"
proof -
  have "unat b div 16 < 16" using unat_byte_bound [of b] by linarith
  then show "drop_bit 4 b < (16 :: byte)"
    unfolding word_less_nat_alt unat_drop_bit_eq by (simp add: drop_bit_eq_div)
  have "unat (take_bit 4 b) < 16"
    by (simp add: take_bit_eq_mod unat_mod_distrib)
  then show "b AND 0x0F < (16 :: byte)"
    unfolding low_nibble by (simp add: word_less_nat_alt)
qed

lemma decode_hex_hex_of: "decode_hex (length bs) (hex_of bs @ r) = Inr bs"
  by (induction bs)
     (simp_all add: hex_of_def hex2_def hex_val_hex_char nibble_bounds nibbles)

lemma length_hex_of [simp]: "length (hex_of bs) = 2 * length bs"
  by (induction bs) (simp_all add: hex_of_def hex2_def)

lemma hex_of_append: "hex_of (a @ b) = hex_of a @ hex_of b"
  by (simp add: hex_of_def)

lemma hex_char_not_dash: "d < 16 \<Longrightarrow> hex_char d \<noteq> 0x2D"
  using hex_val_hex_char [of d] by (auto simp: hex_val_def)

text \<open>A group of digits, with or without a dash before it.\<close>

lemma parse_groups_step:
  assumes "length bs = g div 2" "even g" "bs \<noteq> []" "length out + g div 2 \<le> 16"
  shows "parse_groups (g # gs) (hex_of bs @ r) out = parse_groups gs r (out @ bs)"
    and "parse_groups (g # gs) (0x2D # hex_of bs @ r) out = parse_groups gs r (out @ bs)"
proof -
  have l: "length (hex_of bs) = g" using assms by simp
  obtain b bs' where "bs = b # bs'" using assms(3) by (cases bs) auto
  then obtain c cs where c: "hex_of bs = c # cs" "c \<noteq> 0x2D"
    using nibble_bounds hex_char_not_dash by (simp add: hex_of_def hex2_def)
  have tx: "(case hex_of bs @ r of c # r' \<Rightarrow> if c = 0x2D then r' else hex_of bs @ r | [] \<Rightarrow> [])
      = hex_of bs @ r" using c by simp
  have dec: "decode_hex (g div 2) (take g (hex_of bs @ r)) = Inr bs"
    using decode_hex_hex_of [of bs "[]"] l assms(1) by simp
  show "parse_groups (g # gs) (hex_of bs @ r) out = parse_groups gs r (out @ bs)"
    unfolding parse_groups.simps Let_def tx using l dec assms(4) by simp
  show "parse_groups (g # gs) (0x2D # hex_of bs @ r) out = parse_groups gs r (out @ bs)"
    using l dec assms(4) by simp
qed

lemma length_decode_hex: "decode_hex n hex = Inr bs \<Longrightarrow> length bs = n"
  by (induction n hex arbitrary: bs rule: decode_hex.induct) (auto simp: rbind_Inr_conv)

lemma length_parse_groups:
  "parse_groups gs tx out = Inr u \<Longrightarrow> length u = length out + sum_list (map (\<lambda>g. g div 2) gs)"
proof (induction gs tx out rule: parse_groups.induct)
  case (1 tx out)
  then show ?case by simp
next
  case (2 g gs tx out)
  then show ?case
    by (auto simp: Let_def rbind_Inr_conv dest!: length_decode_hex split: if_splits)
qed

section \<open>Properties\<close>

lemma split_uuid:
  assumes "length u = 16"
  obtains a b c d e where "u = a @ b @ c @ d @ e" "length a = 4" "length b = 2" "length c = 2"
    "length d = 2" "length e = 6" "a = take 4 u" "b = take 2 (drop 4 u)" "c = take 2 (drop 6 u)"
    "d = take 2 (drop 8 u)" "e = drop 10 u"
proof -
  have d: "drop 6 u = drop 2 (drop 4 u)" "drop 8 u = drop 2 (drop 6 u)" "drop 10 u = drop 2 (drop 8 u)"
    by simp_all
  have "u = take 4 u @ take 2 (drop 4 u) @ take 2 (drop 6 u) @ take 2 (drop 8 u) @ drop 10 u"
    unfolding d(3) append_take_drop_id d(2) append_take_drop_id d(1) append_take_drop_id ..
  then show thesis using assms that by force
qed

text \<open>
  Parsing the display of a UUID gives the UUID back.
\<close>

lemma uuid_parse_show:
  assumes "length u = 16"
  shows "uuid_parse_str sha1 (uuid_show u) = Inr u"
proof -
  obtain a b c d e where u: "u = a @ b @ c @ d @ e" and l: "length a = 4" "length b = 2" "length c = 2"
    "length d = 2" "length e = 6"
    and parts: "a = take 4 u" "b = take 2 (drop 4 u)" "c = take 2 (drop 6 u)" "d = take 2 (drop 8 u)"
    "e = drop 10 u"
    by (rule split_uuid [OF assms])
  have ne: "a \<noteq> []" "b \<noteq> []" "c \<noteq> []" "d \<noteq> []" "e \<noteq> []" using l by auto
  have "parse_groups GROUPS (hex_of a @ 0x2D # hex_of b @ 0x2D # hex_of c @ 0x2D # hex_of d
      @ 0x2D # hex_of e @ []) [] = Inr u"
    using l ne by (simp only: GROUPS_def) (simp add: parse_groups_step u del: parse_groups.simps(2) append_Nil2)
  moreover have "bytes_of_string (uuid_show u) = hex_of a @ 0x2D # hex_of b @ 0x2D # hex_of c @ 0x2D
      # hex_of d @ 0x2D # hex_of e"
    by (simp add: uuid_show_def parts)
  moreover from this have "length (bytes_of_string (uuid_show u)) = 36" using l by simp
  ultimately show ?thesis by (simp add: uuid_parse_str_def Let_def)
qed

theorem uuid_parse_show_witness:
  "uuid_parse_str (\<lambda>_. []) (uuid_show (map word_of_nat [0..<16])) = Inr (map word_of_nat [0..<16])"
  by (rule uuid_parse_show) simp

text \<open>
  Every UUID the parser returns has 16 bytes, and one derived from a short name by SHA-1 carries
  version 5 and the RFC 4122 variant.
\<close>

lemma uuid_parse_shape:
  assumes "uuid_parse_str sha1 s = Inr u"
  shows "length u = 16 \<and>
    (length s < 32 \<longrightarrow> length s \<le> 30 \<and> drop_bit 4 (u ! 6) = 5 \<and> drop_bit 6 (u ! 8) = 2)"
proof (cases "32 \<le> length s")
  case True
  then have "parse_groups GROUPS (bytes_of_string s) [] = Inr u"
    using assms by (auto simp: uuid_parse_str_def Let_def split: if_splits)
  from length_parse_groups [OF this] show ?thesis using True by (simp add: GROUPS_def)
next
  case False
  let ?g = "take 16 (sha1 (replicate 16 0 @ bytes_of_string s))"
  from False assms have u: "u = ?g[6 := (?g ! 6 AND 0x0f) OR push_bit 4 5,
      8 := (?g[6 := (?g ! 6 AND 0x0f) OR push_bit 4 5] ! 8 AND 0x3f) OR 0x80]" and l: "length ?g = 16"
    and s: "length s \<le> 30"
    by (auto simp: uuid_parse_str_def Let_def split: if_splits)
  have "drop_bit 4 ((x AND 0x0f) OR push_bit 4 5) = (5 :: byte)" for x :: byte
    by (simp add: drop_bit_or low_nibble drop_bit_take_bit)
  moreover have "drop_bit 6 ((x AND 0x3f) OR 0x80) = (2 :: byte)" for x :: byte
  proof -
    have "mask 6 = (0x3f :: byte)" by (simp add: mask_eq_exp_minus_1)
    then have "x AND 0x3f = take_bit 6 x" by (simp add: take_bit_eq_mask)
    then show ?thesis by (simp add: drop_bit_or drop_bit_take_bit)
  qed
  ultimately show ?thesis using l s unfolding u by (simp add: nth_list_update)
qed

theorem uuid_parse_shape_witness:
  "\<exists>u. uuid_parse_str (\<lambda>b. replicate 20 0xFF) ''user'' = Inr u \<and> length u = 16 \<and> drop_bit 4 (u ! 6) = 5"
proof -
  obtain u where u: "uuid_parse_str (\<lambda>b. replicate 20 0xFF) ''user'' = Inr u"
    by (simp add: uuid_parse_str_def Let_def)
  from uuid_parse_shape [OF u] u show ?thesis by simp
qed

text \<open>
  The parser does not look past the 32 digits: up to four trailing bytes of any kind are accepted
  after the undashed form and ignored.
\<close>

lemma uuid_parse_ignores_tail:
  assumes "length u = 16" and "length junk \<le> 4"
  shows "uuid_parse_str sha1 (string_of_bytes (hex_of u) @ junk) = Inr u"
proof -
  obtain a b c d e where u: "u = a @ b @ c @ d @ e" and l: "length a = 4" "length b = 2" "length c = 2"
    "length d = 2" "length e = 6"
    by (rule split_uuid [OF assms(1)])
  have ne: "a \<noteq> []" "b \<noteq> []" "c \<noteq> []" "d \<noteq> []" "e \<noteq> []" using l by auto
  have "parse_groups GROUPS (hex_of a @ hex_of b @ hex_of c @ hex_of d @ hex_of e @ bytes_of_string junk) []
      = Inr u"
    using l ne by (simp only: GROUPS_def) (simp add: parse_groups_step u del: parse_groups.simps(2))
  then show ?thesis using assms by (simp add: uuid_parse_str_def Let_def u hex_of_append)
qed

theorem uuid_parse_ignores_tail_witness:
  "uuid_parse_str (\<lambda>_. []) (string_of_bytes (hex_of (replicate 16 0xAB)) @ ''!?'') = Inr (replicate 16 0xAB)"
  by (rule uuid_parse_ignores_tail) simp_all

end
