(* ===== verification/Users.thy ===== *)
theory Users
  imports Uuid
begin

text \<open>
  kernel/src/rcu.rs, kernel/src/runtime/user.rs and kernel/src/runtime/session.rs: the cell a table is
  published in, the user table with its index, the stable hash of an identity, and the context of a
  session. A cell holds an immutable value: \<open>load\<close> hands out the value, so a snapshot is not changed
  by a later \<open>swap\<close>; the lock makes each operation one step. A \<open>HashMap\<close> collected from pairs is
  built by successive insertion, so the last pair of a key wins.
\<close>

section \<open>The published cell\<close>

type_synonym 'a rcu_cell = 'a

definition rcu_load :: "'a rcu_cell \<Rightarrow> 'a" where
  "rcu_load c = c"

definition rcu_swap :: "'a rcu_cell \<Rightarrow> 'a \<Rightarrow> 'a \<times> 'a rcu_cell" where
  "rcu_swap c new = (c, new)"

definition rcu_store :: "'a rcu_cell \<Rightarrow> 'a \<Rightarrow> 'a rcu_cell" where
  "rcu_store c new = snd (rcu_swap c new)"

section \<open>Identities and their hash\<close>

datatype user_authorization = AuthUuid bytes | Account string string

record 'p user =
  authentication :: 'p
  authorization :: user_authorization

definition FNV_OFFSET :: u64 where
  "FNV_OFFSET = 0xcbf29ce484222325"

definition FNV_PRIME :: u64 where
  "FNV_PRIME = 0x100000001b3"

definition fnv_mix :: "u64 \<Rightarrow> bytes \<Rightarrow> u64" where
  "fnv_mix h bs = foldl (\<lambda>h b. (h XOR ucast b) * FNV_PRIME) h bs"

definition stable_hash :: "user_authorization \<Rightarrow> u64" where
  "stable_hash a = (case a of
     AuthUuid u \<Rightarrow> fnv_mix (fnv_mix FNV_OFFSET [0]) u
   | Account username password \<Rightarrow>
       fnv_mix (fnv_mix (fnv_mix (fnv_mix FNV_OFFSET [1]) (bytes_of_string username)) [0])
         (bytes_of_string password))"

text \<open>\<open>user_hash\<close> of proxy/src/io.rs.\<close>

definition user_hash :: "bytes \<Rightarrow> u64" where
  "user_hash bs = fnv_mix FNV_OFFSET bs"

section \<open>The user table\<close>

record byte_counter =
  bc_up :: u64
  bc_down :: u64

definition bc_default :: byte_counter where
  "bc_default = \<lparr>bc_up = 0, bc_down = 0\<rparr>"

definition bc_add_up :: "byte_counter \<Rightarrow> u64 \<Rightarrow> byte_counter" where
  "bc_add_up c n = c\<lparr>bc_up := bc_up c + n\<rparr>"

definition bc_add_down :: "byte_counter \<Rightarrow> u64 \<Rightarrow> byte_counter" where
  "bc_add_down c n = c\<lparr>bc_down := bc_down c + n\<rparr>"

record 'p user_list_inner =
  ul_users :: "('p user \<times> byte_counter) list"
  authorization_index :: "user_authorization \<rightharpoonup> nat"

definition list_find :: "'p user_list_inner \<Rightarrow> user_authorization \<Rightarrow> nat option" where
  "list_find l a = authorization_index l a"

definition build_inner :: "'p user list \<Rightarrow> 'p user_list_inner" where
  "build_inner us =
     (let us' = map (\<lambda>u. (u, bc_default)) us
      in \<lparr>ul_users = us',
          authorization_index =
            foldl (\<lambda>m (i, u, _). m(authorization u \<mapsto> i)) Map.empty (enumerate 0 us')\<rparr>)"

definition list_new :: "'p user list \<Rightarrow> 'p user_list_inner rcu_cell" where
  "list_new us = build_inner us"

definition list_load :: "'p user_list_inner rcu_cell \<Rightarrow> 'p user_list_inner" where
  "list_load c = rcu_load c"

definition list_replace :: "'p user_list_inner rcu_cell \<Rightarrow> 'p user list \<Rightarrow> 'p user_list_inner rcu_cell" where
  "list_replace c us = rcu_store c (build_inner us)"

record 'p user_context =
  uc_list :: "'p user_list_inner"
  uc_index :: nat

definition context_user :: "'p user_context \<Rightarrow> 'p user option" where
  "context_user c =
     (if uc_index c < length (ul_users (uc_list c)) then Some (fst (ul_users (uc_list c) ! uc_index c))
      else None)"

section \<open>The session context\<close>

type_synonym socket_addr = "ip_addr \<times> u16"

record ctx =
  ctx_id :: u64
  inbound_tag :: string
  ctx_source :: "socket_addr option"
  ctx_local :: "socket_addr option"
  user_email :: "string option"
  user_auth_hash :: "u64 option"

text \<open>\<open>NEXT_ID.fetch_add(1)\<close>: the first argument is the counter, returned incremented.\<close>

definition ctx_new :: "u64 \<Rightarrow> string \<Rightarrow> socket_addr option \<Rightarrow> ctx \<times> u64" where
  "ctx_new next_id tag source =
     (\<lparr>ctx_id = next_id, inbound_tag = tag, ctx_source = source, ctx_local = None,
       user_email = None, user_auth_hash = None\<rparr>, next_id + 1)"

definition with_user :: "ctx \<Rightarrow> string \<Rightarrow> u64 \<Rightarrow> ctx" where
  "with_user c email h = c\<lparr>user_email := Some email, user_auth_hash := Some h\<rparr>"

section \<open>Lemmas on the hash\<close>

lemma fnv_mix_Nil [simp]: "fnv_mix h [] = h"
  by (simp add: fnv_mix_def)

lemma fnv_mix_Cons: "fnv_mix h (b # bs) = fnv_mix ((h XOR ucast b) * FNV_PRIME) bs"
  by (simp add: fnv_mix_def)

lemma fnv_mix_append: "fnv_mix h (xs @ ys) = fnv_mix (fnv_mix h xs) ys"
  by (simp add: fnv_mix_def)

text \<open>The prime is odd, so multiplying by it can be undone; hence every byte is a permutation.\<close>

lemma fnv_prime_inverse: "FNV_PRIME * 0xce965057aff6957b = 1"
  by (simp add: FNV_PRIME_def)

lemma fnv_prime_cancel: "a * FNV_PRIME = b * FNV_PRIME \<longleftrightarrow> a = b"
proof
  assume "a * FNV_PRIME = b * FNV_PRIME"
  then have "a * FNV_PRIME * 0xce965057aff6957b = b * FNV_PRIME * 0xce965057aff6957b"
    by (rule arg_cong)
  then show "a = b" by (simp only: mult.assoc fnv_prime_inverse mult_1_right)
qed simp

lemma xor_cancel_right: "(a :: u64) XOR x = b XOR x \<longleftrightarrow> a = b"
proof
  assume "a XOR x = b XOR x"
  then have "(a XOR x) XOR x = (b XOR x) XOR x" by (rule arg_cong)
  then show "a = b" by (simp only: xor.assoc xor_self_eq xor.right_neutral)
qed simp

lemma xor_cancel_left: "x XOR (a :: u64) = x XOR b \<longleftrightarrow> a = b"
  using xor_cancel_right [of a x b] by (simp only: xor.commute)

lemma fnv_mix_inj_seed: "fnv_mix h bs = fnv_mix h' bs \<longleftrightarrow> h = h'"
  by (induction bs arbitrary: h h') (simp_all add: fnv_mix_Cons fnv_prime_cancel xor_cancel_right)

lemma ucast_byte_inj: "(ucast (a :: byte) :: u64) = ucast b \<longleftrightarrow> a = b"
  by transfer (simp add: take_bit_eq_mod)

lemma fnv_mix_last_differs: "a \<noteq> b \<Longrightarrow> fnv_mix h (xs @ a # ys) \<noteq> fnv_mix h (xs @ b # ys)"
  by (simp only: fnv_mix_append fnv_mix_Cons fnv_mix_inj_seed fnv_prime_cancel xor_cancel_left
      ucast_byte_inj simp_thms)

lemma stable_hash_encoding:
  "stable_hash (AuthUuid u) = user_hash (0 # u)"
  "stable_hash (Account n p) = user_hash (1 # bytes_of_string n @ 0 # bytes_of_string p)"
  by (simp_all add: stable_hash_def user_hash_def fnv_mix_Cons fnv_mix_append)

section \<open>Lemmas on the table\<close>

lemma index_fold:
  "foldl (\<lambda>m (i, u, _). m(authorization u \<mapsto> i)) m0 (enumerate k us) a =
     (case position (\<lambda>(u, _). authorization u = a) (rev us) of
        None \<Rightarrow> m0 a
      | Some j \<Rightarrow> Some (k + length us - 1 - j))"
proof (induction us rule: rev_induct)
  case Nil
  then show ?case by simp
next
  case (snoc u us)
  then show ?case
    by (cases u) (auto simp: enumerate_append_eq split: option.splits)
qed

lemma build_inner_users [simp]: "ul_users (build_inner us) = map (\<lambda>u. (u, bc_default)) us"
  by (simp add: build_inner_def Let_def)

lemma list_find_position:
  "list_find (build_inner us) a =
     map_option (\<lambda>j. length us - 1 - j) (position (\<lambda>u. authorization u = a) (rev us))"
proof -
  have "position (\<lambda>(u, _). authorization u = a) (rev (map (\<lambda>u. (u, bc_default)) us))
      = position (\<lambda>u. authorization u = a) (rev us)" for us :: "'a user list"
  proof -
    have "position (\<lambda>(u, _). authorization u = a) (map (\<lambda>u. (u, bc_default)) vs)
        = position (\<lambda>u. authorization u = a) vs" for vs :: "'a user list"
      by (induction vs) auto
    then show ?thesis by (simp add: rev_map)
  qed
  then show ?thesis
    by (simp add: list_find_def build_inner_def Let_def index_fold split: option.splits)
qed

lemma list_find_Some:
  "list_find (build_inner us) a = Some i \<longleftrightarrow>
     i < length us \<and> authorization (us ! i) = a \<and>
     (\<forall>j < length us. i < j \<longrightarrow> authorization (us ! j) \<noteq> a)"
proof -
  have "list_find (build_inner us) a = Some i \<longleftrightarrow>
      (\<exists>k < length us. i = length us - 1 - k \<and> authorization (rev us ! k) = a \<and>
         (\<forall>j < k. authorization (rev us ! j) \<noteq> a))"
    by (auto simp: list_find_position position_Some)
  also have "\<dots> \<longleftrightarrow> i < length us \<and> authorization (us ! i) = a \<and>
     (\<forall>j < length us. i < j \<longrightarrow> authorization (us ! j) \<noteq> a)" (is "?L \<longleftrightarrow> ?R")
  proof
    assume ?L
    then obtain k where k: "k < length us" "i = length us - 1 - k" "authorization (rev us ! k) = a"
      "\<And>j. j < k \<Longrightarrow> authorization (rev us ! j) \<noteq> a" by auto
    have "authorization (us ! j) \<noteq> a" if "j < length us" "i < j" for j
      using k(4) [of "length us - 1 - j"] that k(1,2) by (simp add: rev_nth)
    then show ?R using k by (simp add: rev_nth)
  next
    assume R: ?R
    have "authorization (rev us ! j) \<noteq> a" if "j < length us - 1 - i" for j
    proof -
      have "i < length us - 1 - j" "length us - 1 - j < length us" using R that by linarith+
      then show ?thesis using R that by (simp add: rev_nth)
    qed
    then show ?L using R by (intro exI [of _ "length us - 1 - i"]) (auto simp: rev_nth)
  qed
  finally show ?thesis .
qed

lemma list_find_None:
  "list_find (build_inner us) a = None \<longleftrightarrow> (\<forall>u \<in> set us. authorization u \<noteq> a)"
  by (simp add: list_find_position position_None)

text \<open>Dropping what follows the last hit, the filtered list ends there.\<close>

lemma last_filter_nth:
  assumes "i < length us" and "P (us ! i)" and "\<And>j. j < length us \<Longrightarrow> i < j \<Longrightarrow> \<not> P (us ! j)"
  shows "last (filter P us) = us ! i"
proof -
  have "filter P (drop (Suc i) us) = []"
    using assms(3) by (auto simp: filter_empty_conv in_set_conv_nth)
  then have "filter P us = filter P (take i us) @ [us ! i]"
    using assms(1,2) by (subst id_take_nth_drop [OF assms(1)]) simp
  then show ?thesis by simp
qed

text \<open>
  After a user table is replaced, looking an identity up in it fails exactly when no user of the
  new set has the identity; otherwise the slot found is valid in that snapshot and resolves to the
  last user of the set with the identity. The hash of the identity the balancer uses changes
  whenever a single byte of the UUID does.
\<close>

lemma user_table_lookup:
  "(list_find (list_load (list_replace c us)) a = None \<longleftrightarrow> a \<notin> authorization ` set us) \<and>
   (list_find (list_load (list_replace c us)) a = Some i \<longrightarrow>
      context_user \<lparr>uc_list = list_load (list_replace c us), uc_index = i\<rparr>
        = Some (last (filter (\<lambda>u. authorization u = a) us)) \<and>
      authorization (last (filter (\<lambda>u. authorization u = a) us)) = a) \<and>
   (x \<noteq> y \<longrightarrow> stable_hash (AuthUuid (p @ x # q)) \<noteq> stable_hash (AuthUuid (p @ y # q)))"
proof (intro conjI impI)
  have l: "list_load (list_replace c us) = build_inner us"
    by (simp add: list_load_def list_replace_def rcu_load_def rcu_store_def rcu_swap_def)
  show "list_find (list_load (list_replace c us)) a = None \<longleftrightarrow> a \<notin> authorization ` set us"
    by (auto simp: l list_find_None)
  assume "list_find (list_load (list_replace c us)) a = Some i"
  then have i: "i < length us" "authorization (us ! i) = a"
    "\<And>j. j < length us \<Longrightarrow> i < j \<Longrightarrow> authorization (us ! j) \<noteq> a"
    by (auto simp: l list_find_Some)
  note last = last_filter_nth [of i us "\<lambda>u. authorization u = a", OF i]
  show "context_user \<lparr>uc_list = list_load (list_replace c us), uc_index = i\<rparr>
        = Some (last (filter (\<lambda>u. authorization u = a) us))"
    using i last by (simp add: context_user_def l)
  show "authorization (last (filter (\<lambda>u. authorization u = a) us)) = a"
    using i last by simp
next
  assume "x \<noteq> y"
  then show "stable_hash (AuthUuid (p @ x # q)) \<noteq> stable_hash (AuthUuid (p @ y # q))"
    using fnv_mix_last_differs [of x y FNV_OFFSET "0 # p" q]
    by (simp add: stable_hash_encoding user_hash_def)
qed

definition sample_user :: "nat \<Rightarrow> user_authorization \<Rightarrow> nat user" where
  "sample_user n a = \<lparr>authentication = n, authorization = a\<rparr>"

lemma user_table_lookup_witness:
  "context_user \<lparr>uc_list = list_load (list_replace (list_new [])
       [sample_user 1 (AuthUuid [7]), sample_user 2 (Account ''u'' ''p''), sample_user 3 (AuthUuid [7])]),
      uc_index = 2\<rparr> = Some (sample_user 3 (AuthUuid [7])) \<and>
   stable_hash (AuthUuid ([] @ 7 # [])) \<noteq> stable_hash (AuthUuid ([] @ 8 # []))"
proof -
  let ?us = "[sample_user 1 (AuthUuid [7]), sample_user 2 (Account ''u'' ''p''), sample_user 3 (AuthUuid [7])]"
  have find: "list_find (list_load (list_replace (list_new []) ?us)) (AuthUuid [7]) = Some 2"
    by code_simp
  have last: "last (filter (\<lambda>u. authorization u = AuthUuid [7]) ?us) = sample_user 3 (AuthUuid [7])"
    by code_simp
  show ?thesis
    using user_table_lookup [of "list_new []" ?us "AuthUuid [7]" 2 7 8 "[]" "[]"]
    unfolding find last by simp
qed

end
