(* ===== verification/Stats.thy ===== *)
theory Stats
  imports Users
begin

text \<open>
  kernel/src/stats.rs: per-user traffic counters and their registry. A shared \<open>Arc<Counter>\<close> is an
  index into a store of counters, so a counter a session still holds stays what it is after the
  registry dropped it. The set of active tags is a list without duplicates: a \<open>HashSet\<close> has no order
  a caller could rely on, and no statement here does. The second half models the same operations as
  interleaved atomic steps of any number of sessions and reporters.
\<close>

section \<open>Counters and the registry\<close>

record counter =
  up :: u64
  down :: u64
  dirty :: u64
  tag :: string

record stats =
  stat_users :: "string \<rightharpoonup> nat"
  cells :: "counter list"
  active :: "string list"

definition counter_new :: "string \<Rightarrow> counter" where
  "counter_new t = \<lparr>up = 0, down = 0, dirty = 0, tag = t\<rparr>"

definition stats_new :: stats where
  "stats_new = \<lparr>stat_users = Map.empty, cells = [], active = []\<rparr>"

definition upd_cell :: "(counter \<Rightarrow> counter) \<Rightarrow> nat \<Rightarrow> stats \<Rightarrow> stats" where
  "upd_cell f a s = s\<lparr>cells := (cells s)[a := f (cells s ! a)]\<rparr>"

definition mark_active :: "nat \<Rightarrow> stats \<Rightarrow> stats" where
  "mark_active a s =
     (if dirty (cells s ! a) = 0
      then (upd_cell (\<lambda>c. c\<lparr>dirty := 1\<rparr>) a s)\<lparr>active := List.insert (tag (cells s ! a)) (active s)\<rparr>
      else s)"

definition add_up :: "nat \<Rightarrow> u64 \<Rightarrow> stats \<Rightarrow> stats" where
  "add_up a n s = upd_cell (\<lambda>c. c\<lparr>up := up c + n\<rparr>) a (if 0 < n then mark_active a s else s)"

definition add_down :: "nat \<Rightarrow> u64 \<Rightarrow> stats \<Rightarrow> stats" where
  "add_down a n s = upd_cell (\<lambda>c. c\<lparr>down := down c + n\<rparr>) a (if 0 < n then mark_active a s else s)"

definition counter_up :: "nat \<Rightarrow> stats \<Rightarrow> u64" where
  "counter_up a s = up (cells s ! a)"

definition counter_down :: "nat \<Rightarrow> stats \<Rightarrow> u64" where
  "counter_down a s = down (cells s ! a)"

definition counter_take :: "nat \<Rightarrow> stats \<Rightarrow> (u64 \<times> u64) \<times> stats" where
  "counter_take a s =
     (let s = upd_cell (\<lambda>c. c\<lparr>dirty := 0\<rparr>) a s
      in ((counter_up a s, counter_down a s), upd_cell (\<lambda>c. c\<lparr>up := 0, down := 0\<rparr>) a s))"

definition counter_restore :: "nat \<Rightarrow> u64 \<Rightarrow> u64 \<Rightarrow> stats \<Rightarrow> stats" where
  "counter_restore a u d s =
     upd_cell (\<lambda>c. c\<lparr>up := up c + u, down := down c + d\<rparr>) a
       (if 0 < u \<or> 0 < d then mark_active a s else s)"

definition stats_counter :: "string \<Rightarrow> stats \<Rightarrow> nat \<times> stats" where
  "stats_counter t s = (case stat_users s t of
     Some a \<Rightarrow> (a, s)
   | None \<Rightarrow> (length (cells s),
        s\<lparr>stat_users := (stat_users s)(t \<mapsto> length (cells s)), cells := cells s @ [counter_new t]\<rparr>))"

definition stats_get :: "string \<Rightarrow> stats \<Rightarrow> nat option" where
  "stats_get t s = stat_users s t"

definition stats_remove :: "string \<Rightarrow> stats \<Rightarrow> stats" where
  "stats_remove t s =
     s\<lparr>stat_users := (stat_users s)(t := None), active := removeAll t (active s)\<rparr>"

definition active_counters :: "stats \<Rightarrow> (string \<times> nat) list \<times> stats" where
  "active_counters s =
     (List.map_filter (\<lambda>t. map_option (Pair t) (stat_users s t)) (active s), s\<lparr>active := []\<rparr>)"

text \<open>
  The invariant: the index points at counters that carry their tag, the active list has no
  duplicates, a counter with traffic is dirty, and a dirty registered counter is active.
\<close>

definition stats_ok :: "stats \<Rightarrow> bool" where
  "stats_ok s \<longleftrightarrow>
     (\<forall>t a. stat_users s t = Some a \<longrightarrow> a < length (cells s) \<and> tag (cells s ! a) = t) \<and>
     distinct (active s) \<and>
     (\<forall>a < length (cells s). up (cells s ! a) \<noteq> 0 \<or> down (cells s ! a) \<noteq> 0 \<longrightarrow> dirty (cells s ! a) \<noteq> 0) \<and>
     (\<forall>t a. stat_users s t = Some a \<longrightarrow> dirty (cells s ! a) \<noteq> 0 \<longrightarrow> t \<in> set (active s))"

section \<open>The registry keeps its invariant\<close>

lemma stats_new_ok: "stats_ok stats_new"
  by (simp add: stats_ok_def stats_new_def)

lemma upd_cell_simps [simp]:
  "stat_users (upd_cell f a s) = stat_users s"
  "active (upd_cell f a s) = active s"
  "length (cells (upd_cell f a s)) = length (cells s)"
  by (simp_all add: upd_cell_def)

lemma upd_cell_nth:
  "a < length (cells s) \<Longrightarrow> cells (upd_cell f a s) ! b = (if b = a then f (cells s ! a) else cells s ! b)"
  by (simp add: upd_cell_def)

lemma mark_active_simps [simp]:
  "stat_users (mark_active a s) = stat_users s"
  "length (cells (mark_active a s)) = length (cells s)"
  by (simp_all add: mark_active_def)

lemma mark_active_nth:
  assumes "a < length (cells s)"
  shows "cells (mark_active a s) ! b =
     (if b = a \<and> dirty (cells s ! a) = 0 then (cells s ! a)\<lparr>dirty := 1\<rparr> else cells s ! b)"
  using assms by (auto simp: mark_active_def upd_cell_nth)

lemma mark_active_active:
  "set (active (mark_active a s)) =
     set (active s) \<union> (if dirty (cells s ! a) = 0 then {tag (cells s ! a)} else {})"
  by (auto simp: mark_active_def)

lemma mark_active_distinct: "distinct (active s) \<Longrightarrow> distinct (active (mark_active a s))"
  by (simp add: mark_active_def)

lemmas cell_simps = upd_cell_nth mark_active_nth mark_active_active mark_active_distinct

lemma mark_active_ok:
  assumes "stats_ok s" and "a < length (cells s)"
  shows "stats_ok (mark_active a s)"
  using assms unfolding stats_ok_def
  by (auto simp: cell_simps)

lemma mark_active_dirty: "a < length (cells s) \<Longrightarrow> dirty (cells (mark_active a s) ! a) \<noteq> 0"
  by (simp add: mark_active_nth)

lemma upd_traffic_ok:
  assumes "stats_ok s" and "a < length (cells s)"
    and "\<And>c. tag (f c) = tag c" and "\<And>c. dirty (f c) = dirty c"
    and "dirty (cells s ! a) \<noteq> 0 \<or> up (f (cells s ! a)) = 0 \<and> down (f (cells s ! a)) = 0"
  shows "stats_ok (upd_cell f a s)"
  using assms unfolding stats_ok_def
  by (auto simp: upd_cell_nth)

lemma no_traffic: "stats_ok s \<Longrightarrow> a < length (cells s) \<Longrightarrow> dirty (cells s ! a) = 0 \<Longrightarrow>
    up (cells s ! a) = 0 \<and> down (cells s ! a) = 0"
  by (auto simp: stats_ok_def)

lemma add_up_ok:
  assumes "stats_ok s" and "a < length (cells s)"
  shows "stats_ok (add_up a n s)"
  unfolding add_up_def
  using assms mark_active_ok [OF assms] mark_active_dirty [OF assms(2)] no_traffic [OF assms]
  by (intro upd_traffic_ok) (auto simp: word_gt_0)

lemma add_down_ok:
  assumes "stats_ok s" and "a < length (cells s)"
  shows "stats_ok (add_down a n s)"
  unfolding add_down_def
  using assms mark_active_ok [OF assms] mark_active_dirty [OF assms(2)] no_traffic [OF assms]
  by (intro upd_traffic_ok) (auto simp: word_gt_0)

lemma counter_restore_ok:
  assumes "stats_ok s" and "a < length (cells s)"
  shows "stats_ok (counter_restore a u d s)"
  unfolding counter_restore_def
  using assms mark_active_ok [OF assms] mark_active_dirty [OF assms(2)] no_traffic [OF assms]
  by (intro upd_traffic_ok) (auto simp: word_gt_0)

lemma counter_take_nth:
  "a < length (cells s) \<Longrightarrow> cells (snd (counter_take a s)) ! b =
     (if b = a then (cells s ! a)\<lparr>dirty := 0, up := 0, down := 0\<rparr> else cells s ! b)"
  by (simp add: counter_take_def Let_def upd_cell_nth)

lemma counter_take_simps [simp]:
  "stat_users (snd (counter_take a s)) = stat_users s"
  "active (snd (counter_take a s)) = active s"
  "length (cells (snd (counter_take a s))) = length (cells s)"
  by (simp_all add: counter_take_def Let_def)

lemma counter_take_fst:
  "a < length (cells s) \<Longrightarrow> fst (counter_take a s) = (up (cells s ! a), down (cells s ! a))"
  by (simp add: counter_take_def Let_def counter_up_def counter_down_def upd_cell_nth)

lemma counter_take_ok:
  "stats_ok s \<Longrightarrow> a < length (cells s) \<Longrightarrow> stats_ok (snd (counter_take a s))"
  unfolding stats_ok_def by (auto simp: counter_take_nth)

lemma stats_counter_ok:
  assumes "stats_ok s"
  shows "stats_ok (snd (stats_counter t s)) \<and> fst (stats_counter t s) < length (cells (snd (stats_counter t s)))"
  using assms unfolding stats_ok_def stats_counter_def
  by (auto simp: nth_append counter_new_def less_Suc_eq split: option.splits)

lemma stats_remove_ok: "stats_ok s \<Longrightarrow> stats_ok (stats_remove t s)"
  unfolding stats_ok_def stats_remove_def by (auto simp: distinct_removeAll)

section \<open>Interleaved sessions and reporters\<close>

text \<open>
  One counter, from its creation on, at the granularity of the atomic operations: any number of sessions that
  add to one of its directions, any number of reporters (the controllers of a process share one registry and
  each drains every tag), and the removal of the user. \<open>c_registered\<close> says that the registry leads from the
  tag to this counter, and \<open>c_active\<close> that the tag is in the active set.

  A session is at \<open>SMark\<close> before the compare-exchange, at \<open>SInsert\<close> between it and the insertion of the tag,
  and at \<open>SAdd\<close> before the \<open>fetch_add\<close> of its direction. A reporter drains the active set (\<open>RDrained\<close>), looks
  the tag up (\<open>RFound\<close>), and runs \<open>take\<close>: it clears the flag (\<open>RZeroed\<close>), swaps the upload cell (\<open>RTookUp\<close>) and
  the download cell (\<open>RTook\<close>). Then the bytes are reported, or dropped when uploads are disabled, or put
  back by \<open>restore\<close>, because the tag belongs to another node or the report failed. The ghost fields count
  the bytes whose addition, report or deliberate drop completed.
\<close>

datatype leg = LegUp | LegDown
datatype session_pc = SMark leg u64 | SInsert leg u64 | SAdd leg u64
datatype reporter_pc =
    RIdle | RDrained | RFound | RZeroed | RTookUp u64 | RTook u64 u64
  | RMark u64 u64 | RInsert u64 u64 | RAddUp u64 u64 | RAddDown u64

record shared =
  c_up :: u64
  c_down :: u64
  c_dirty :: u64
  c_registered :: bool
  c_active :: bool
  g_sessions :: "session_pc list"
  g_reporters :: "reporter_pc list"
  g_up_added :: u64
  g_down_added :: u64
  g_up_reported :: u64
  g_down_reported :: u64
  g_up_dropped :: u64
  g_down_dropped :: u64

definition shared_init :: "nat \<Rightarrow> shared" where
  "shared_init k = \<lparr>c_up = 0, c_down = 0, c_dirty = 0, c_registered = True, c_active = False, g_sessions = [],
     g_reporters = replicate k RIdle, g_up_added = 0, g_down_added = 0, g_up_reported = 0, g_down_reported = 0,
     g_up_dropped = 0, g_down_dropped = 0\<rparr>"

definition session_at :: "shared \<Rightarrow> nat \<Rightarrow> session_pc \<Rightarrow> bool" where
  "session_at s i pc \<longleftrightarrow> i < length (g_sessions s) \<and> g_sessions s ! i = pc"

definition reporter_at :: "shared \<Rightarrow> nat \<Rightarrow> reporter_pc \<Rightarrow> bool" where
  "reporter_at s k pc \<longleftrightarrow> k < length (g_reporters s) \<and> g_reporters s ! k = pc"

definition goto :: "nat \<Rightarrow> reporter_pc \<Rightarrow> shared \<Rightarrow> shared" where
  "goto k pc s = s\<lparr>g_reporters := (g_reporters s)[k := pc]\<rparr>"

text \<open>\<open>add_up\<close> and \<open>add_down\<close>, with \<open>mark_active\<close>.\<close>

inductive session_step :: "shared \<Rightarrow> shared \<Rightarrow> bool" where
  start: "session_step s (s\<lparr>g_sessions := (if 0 < n then SMark l n else SAdd l n) # g_sessions s\<rparr>)"
| mark_set: "session_at s i (SMark l n) \<Longrightarrow> c_dirty s = 0 \<Longrightarrow>
    session_step s (s\<lparr>c_dirty := 1, g_sessions := (g_sessions s)[i := SInsert l n]\<rparr>)"
| mark_skip: "session_at s i (SMark l n) \<Longrightarrow> c_dirty s \<noteq> 0 \<Longrightarrow>
    session_step s (s\<lparr>g_sessions := (g_sessions s)[i := SAdd l n]\<rparr>)"
| insert_tag: "session_at s i (SInsert l n) \<Longrightarrow>
    session_step s (s\<lparr>c_active := True, g_sessions := (g_sessions s)[i := SAdd l n]\<rparr>)"
| add_up: "session_at s i (SAdd LegUp n) \<Longrightarrow>
    session_step s (s\<lparr>c_up := c_up s + n, g_up_added := g_up_added s + n,
      g_sessions := take i (g_sessions s) @ drop (Suc i) (g_sessions s)\<rparr>)"
| add_down: "session_at s i (SAdd LegDown n) \<Longrightarrow>
    session_step s (s\<lparr>c_down := c_down s + n, g_down_added := g_down_added s + n,
      g_sessions := take i (g_sessions s) @ drop (Suc i) (g_sessions s)\<rparr>)"

text \<open>\<open>take\<close>, and \<open>restore\<close> with \<open>mark_active\<close>; a reporter restores only what is not zero.\<close>

inductive counter_step :: "shared \<Rightarrow> shared \<Rightarrow> bool" where
  store_zero: "reporter_at s k RFound \<Longrightarrow> counter_step s (goto k RZeroed (s\<lparr>c_dirty := 0\<rparr>))"
| swap_up: "reporter_at s k RZeroed \<Longrightarrow> counter_step s (goto k (RTookUp (c_up s)) (s\<lparr>c_up := 0\<rparr>))"
| swap_down: "reporter_at s k (RTookUp u) \<Longrightarrow> counter_step s (goto k (RTook u (c_down s)) (s\<lparr>c_down := 0\<rparr>))"
| restore_set: "reporter_at s k (RMark u d) \<Longrightarrow> c_dirty s = 0 \<Longrightarrow>
    counter_step s (goto k (RInsert u d) (s\<lparr>c_dirty := 1\<rparr>))"
| restore_skip: "reporter_at s k (RMark u d) \<Longrightarrow> c_dirty s \<noteq> 0 \<Longrightarrow> counter_step s (goto k (RAddUp u d) s)"
| restore_insert: "reporter_at s k (RInsert u d) \<Longrightarrow> counter_step s (goto k (RAddUp u d) (s\<lparr>c_active := True\<rparr>))"
| restore_up: "reporter_at s k (RAddUp u d) \<Longrightarrow> counter_step s (goto k (RAddDown d) (s\<lparr>c_up := c_up s + u\<rparr>))"
| restore_down: "reporter_at s k (RAddDown d) \<Longrightarrow> counter_step s (goto k RIdle (s\<lparr>c_down := c_down s + d\<rparr>))"

text \<open>
  \<open>active_counters\<close> drains the set and then looks the tag up, \<open>remove\<close> takes the tag out of the registry and
  then out of the active set. A counter that is no longer registered may share its tag with a newer one, whose
  insertions and drains \<open>other_insert\<close> and \<open>other_drain\<close> are.
\<close>

inductive registry_step :: "shared \<Rightarrow> shared \<Rightarrow> bool" where
  drain: "reporter_at s k RIdle \<Longrightarrow> c_active s \<Longrightarrow> registry_step s (goto k RDrained (s\<lparr>c_active := False\<rparr>))"
| found: "reporter_at s k RDrained \<Longrightarrow> c_registered s \<Longrightarrow> registry_step s (goto k RFound s)"
| gone: "reporter_at s k RDrained \<Longrightarrow> \<not> c_registered s \<Longrightarrow> registry_step s (goto k RIdle s)"
| remove_user: "registry_step s (s\<lparr>c_registered := False\<rparr>)"
| remove_active: "\<not> c_registered s \<Longrightarrow> registry_step s (s\<lparr>c_active := False\<rparr>)"
| other_insert: "registry_step s (s\<lparr>c_active := True\<rparr>)"
| other_drain: "\<not> c_registered s \<Longrightarrow> registry_step s (s\<lparr>c_active := False\<rparr>)"

text \<open>What the controller does with the counts it took.\<close>

inductive report_step :: "shared \<Rightarrow> shared \<Rightarrow> bool" where
  nothing: "reporter_at s k (RTook 0 0) \<Longrightarrow> report_step s (goto k RIdle s)"
| reported: "reporter_at s k (RTook u d) \<Longrightarrow> report_step s (goto k RIdle
    (s\<lparr>g_up_reported := g_up_reported s + u, g_down_reported := g_down_reported s + d\<rparr>))"
| disabled: "reporter_at s k (RTook u d) \<Longrightarrow> report_step s (goto k RIdle
    (s\<lparr>g_up_dropped := g_up_dropped s + u, g_down_dropped := g_down_dropped s + d\<rparr>))"
| put_back: "reporter_at s k (RTook u d) \<Longrightarrow> 0 < u \<or> 0 < d \<Longrightarrow> report_step s (goto k (RMark u d) s)"

definition traffic_step :: "shared \<Rightarrow> shared \<Rightarrow> bool" where
  "traffic_step s s' \<longleftrightarrow> session_step s s' \<or> counter_step s s' \<or> registry_step s s' \<or> report_step s s'"

inductive traffic_reachable :: "nat \<Rightarrow> shared \<Rightarrow> bool" for k where
  init: "traffic_reachable k (shared_init k)"
| step: "traffic_reachable k s \<Longrightarrow> traffic_step s s' \<Longrightarrow> traffic_reachable k s'"



definition held :: "(reporter_pc \<Rightarrow> u64) \<Rightarrow> shared \<Rightarrow> u64" where
  "held f s = sum_list (map f (g_reporters s))"


text \<open>A set dirty flag is always backed by the active set or by somebody who is about to act on it.\<close>

definition acting :: "reporter_pc \<Rightarrow> bool" where
  "acting r \<longleftrightarrow> r = RDrained \<or> r = RFound \<or> (\<exists>u d. r = RInsert u d)"

definition about_to_act :: "shared \<Rightarrow> bool" where
  "about_to_act s \<longleftrightarrow> (\<exists>l n. SInsert l n \<in> set (g_sessions s)) \<or>
     (\<exists>r \<in> set (g_reporters s). acting r)"




lemma goto_simps [simp]:
  "c_up (goto k pc s) = c_up s" "c_down (goto k pc s) = c_down s" "c_dirty (goto k pc s) = c_dirty s"
  "c_registered (goto k pc s) = c_registered s" "c_active (goto k pc s) = c_active s" "g_sessions (goto k pc s) = g_sessions s"
  "g_up_added (goto k pc s) = g_up_added s" "g_down_added (goto k pc s) = g_down_added s"
  "g_up_reported (goto k pc s) = g_up_reported s" "g_down_reported (goto k pc s) = g_down_reported s"
  "g_up_dropped (goto k pc s) = g_up_dropped s" "g_down_dropped (goto k pc s) = g_down_dropped s"
  by (simp_all add: goto_def)

lemma held_frame [simp]:
  "held f (s\<lparr>c_up := u\<rparr>) = held f s" "held f (s\<lparr>c_down := u\<rparr>) = held f s" "held f (s\<lparr>c_dirty := u\<rparr>) = held f s"
  "held f (s\<lparr>c_active := b\<rparr>) = held f s" "held f (s\<lparr>c_registered := b\<rparr>) = held f s"
  "held f (s\<lparr>g_sessions := ss\<rparr>) = held f s" "held f (s\<lparr>g_up_added := u\<rparr>) = held f s" "held f (s\<lparr>g_down_added := u\<rparr>) = held f s"
  "held f (s\<lparr>g_up_reported := u\<rparr>) = held f s" "held f (s\<lparr>g_down_reported := u\<rparr>) = held f s"
  "held f (s\<lparr>g_up_dropped := u\<rparr>) = held f s" "held f (s\<lparr>g_down_dropped := u\<rparr>) = held f s"
  by (simp_all add: held_def)









lemma act_frame [simp]:
  "about_to_act (goto k pc (s\<lparr>c_up := u\<rparr>)) = about_to_act (goto k pc s)"
  "about_to_act (goto k pc (s\<lparr>c_down := u\<rparr>)) = about_to_act (goto k pc s)"
  "about_to_act (goto k pc (s\<lparr>c_dirty := u\<rparr>)) = about_to_act (goto k pc s)"
  "about_to_act (goto k pc (s\<lparr>c_active := b\<rparr>)) = about_to_act (goto k pc s)"
  "about_to_act (goto k pc (s\<lparr>g_up_reported := u, g_down_reported := v\<rparr>)) = about_to_act (goto k pc s)"
  "about_to_act (goto k pc (s\<lparr>g_up_dropped := u, g_down_dropped := v\<rparr>)) = about_to_act (goto k pc s)"
  "about_to_act (s\<lparr>c_active := b\<rparr>) = about_to_act s" "about_to_act (s\<lparr>c_registered := b\<rparr>) = about_to_act s"
  by (simp_all add: about_to_act_def goto_def)



lemma acting_simps [simp]:
  "acting RDrained" "acting RFound" "acting (RInsert u d)" "\<not> acting RIdle" "\<not> acting RZeroed" "\<not> acting (RTookUp u)"
  "\<not> acting (RTook u d)" "\<not> acting (RMark u d)" "\<not> acting (RAddUp u d)" "\<not> acting (RAddDown d)"
  by (simp_all add: acting_def)







text \<open>
  The other direction fails: a session that found the flag set adds its bytes after \<open>take\<close> cleared
  it. Then bytes are pending although the flag is clear, the tag is not active and nobody is acting.
\<close>

definition upload_state :: "nat \<Rightarrow> u64 \<Rightarrow> u64 \<Rightarrow> bool \<Rightarrow> session_pc list \<Rightarrow> reporter_pc \<Rightarrow> u64 \<Rightarrow> u64 \<Rightarrow> shared" where
  "upload_state k u dr act ss r added reported = \<lparr>c_up = u, c_down = 0, c_dirty = dr, c_registered = True, c_active = act,
     g_sessions = ss, g_reporters = r # replicate k RIdle, g_up_added = added, g_down_added = 0,
     g_up_reported = reported, g_down_reported = 0, g_up_dropped = 0, g_down_dropped = 0\<rparr>"

definition stranded :: "nat \<Rightarrow> u64 \<Rightarrow> shared" where
  "stranded k n = upload_state k n 0 False [] RIdle (1 + n) 1"

lemma run_session: "traffic_reachable k s \<Longrightarrow> session_step s s' \<Longrightarrow> traffic_reachable k s'"
  and run_counter: "traffic_reachable k s \<Longrightarrow> counter_step s s' \<Longrightarrow> traffic_reachable k s'"
  and run_registry: "traffic_reachable k s \<Longrightarrow> registry_step s s' \<Longrightarrow> traffic_reachable k s'"
  and run_report: "traffic_reachable k s \<Longrightarrow> report_step s s' \<Longrightarrow> traffic_reachable k s'"
  by (auto simp: traffic_step_def intro: traffic_reachable.step)

lemmas run_simps = upload_state_def session_at_def reporter_at_def goto_def

lemma stranded_prefix:
  assumes "0 < n"
  shows "traffic_reachable (Suc k) (upload_state k 1 1 True [SMark LegUp n] RIdle 1 0)"
proof -
  have "traffic_reachable (Suc k) (upload_state k 0 0 False [] RIdle 0 0)"
    using traffic_reachable.init [of "Suc k"] by (simp add: shared_init_def upload_state_def)
  from run_session [OF this session_step.start [of _ 1 LegUp]]
  have "traffic_reachable (Suc k) (upload_state k 0 0 False [SMark LegUp 1] RIdle 0 0)" by (simp add: run_simps)
  from run_session [OF this session_step.mark_set [of _ 0 LegUp 1]]
  have "traffic_reachable (Suc k) (upload_state k 0 1 False [SInsert LegUp 1] RIdle 0 0)" by (simp add: run_simps)
  from run_session [OF this session_step.insert_tag [of _ 0 LegUp 1]]
  have "traffic_reachable (Suc k) (upload_state k 0 1 True [SAdd LegUp 1] RIdle 0 0)" by (simp add: run_simps)
  from run_session [OF this session_step.add_up [of _ 0 1]]
  have "traffic_reachable (Suc k) (upload_state k 1 1 True [] RIdle 1 0)" by (simp add: run_simps)
  from run_session [OF this session_step.start [of _ n LegUp]] show ?thesis using assms by (simp add: run_simps)
qed

lemma stranded_reachable:
  assumes "0 < n"
  shows "traffic_reachable (Suc k) (stranded k n)"
proof -
  from run_session [OF stranded_prefix [OF assms] session_step.mark_skip [of _ 0 LegUp n]]
  have "traffic_reachable (Suc k) (upload_state k 1 1 True [SAdd LegUp n] RIdle 1 0)" by (simp add: run_simps)
  from run_registry [OF this registry_step.drain [of _ 0]]
  have "traffic_reachable (Suc k) (upload_state k 1 1 False [SAdd LegUp n] RDrained 1 0)" by (simp add: run_simps)
  from run_registry [OF this registry_step.found [of _ 0]]
  have "traffic_reachable (Suc k) (upload_state k 1 1 False [SAdd LegUp n] RFound 1 0)" by (simp add: run_simps)
  from run_counter [OF this counter_step.store_zero [of _ 0]]
  have "traffic_reachable (Suc k) (upload_state k 1 0 False [SAdd LegUp n] RZeroed 1 0)" by (simp add: run_simps)
  from run_counter [OF this counter_step.swap_up [of _ 0]]
  have "traffic_reachable (Suc k) (upload_state k 0 0 False [SAdd LegUp n] (RTookUp 1) 1 0)" by (simp add: run_simps)
  from run_counter [OF this counter_step.swap_down [of _ 0 1]]
  have "traffic_reachable (Suc k) (upload_state k 0 0 False [SAdd LegUp n] (RTook 1 0) 1 0)" by (simp add: run_simps)
  from run_report [OF this report_step.reported [of _ 0 1 0]]
  have "traffic_reachable (Suc k) (upload_state k 0 0 False [SAdd LegUp n] RIdle 1 1)" by (simp add: run_simps)
  from run_session [OF this session_step.add_up [of _ 0 n]]
  show ?thesis by (simp add: run_simps stranded_def)
qed

text \<open>
  C5: The dirty flag is not a reliable sign of pending traffic: there is an interleaving after which
  any number of bytes of a finished upload sit in the counter while the flag is clear, the tag is
  not in the active set, no session is in progress and every reporter is idle; no report takes them
  unless the same user sends again.
\<close>

theorem traffic_stranded:
  assumes "0 < n"
  shows "traffic_reachable (Suc k) (stranded k n) \<and> c_up (stranded k n) = n \<and> c_dirty (stranded k n) = 0 \<and>
     c_registered (stranded k n) \<and> \<not> c_active (stranded k n) \<and> g_sessions (stranded k n) = [] \<and>
     g_reporters (stranded k n) = replicate (Suc k) RIdle"
  using stranded_reachable [OF assms] by (simp add: stranded_def upload_state_def)


lemma traffic_stranded_witness: "traffic_reachable 3 (stranded 2 5) \<and> c_up (stranded 2 5) = 5"
  using traffic_stranded [of 5 2] by (simp add: numeral_3_eq_3)

end
