(* ===== verification/Controller.thy ===== *)
theory Controller
  imports Stats
begin

text \<open>
  saas/src/controller.rs: the traffic half of the node controller, which takes the active counters,
  reports them to the panel and puts them back when the report fails, and the pruning of counters of
  removed users. The outcome of the panel call is an argument (\<open>None\<close> is success). User tags are
  \<open>{node}|{email}|{uid}\<close>, as \<open>build_user_tag\<close> of saas/src/builder.rs writes them.
\<close>

section \<open>User tags\<close>

type_synonym i32 = "32 word"

definition show_i32 :: "i32 \<Rightarrow> string" where
  "show_i32 w = (if sint w < 0 then CHR ''-'' # show_nat (nat (- sint w)) else show_nat (nat (sint w)))"

text \<open>\<open>str::parse::<i32>\<close>: an optional sign, at least one digit, and the range of the type.\<close>

definition parse_i32 :: "string \<Rightarrow> i32 option" where
  "parse_i32 s = (case s of
     CHR ''-'' # d \<Rightarrow>
       if d = [] \<or> \<not> list_all is_ascii_digit d \<or> 2 ^ 31 < dec_value d then None
       else Some (- word_of_nat (dec_value d))
   | _ \<Rightarrow> map_option word_of_nat (parse_uint (2 ^ 31 - 1) s))"

record user_info =
  ui_uid :: i32
  ui_email :: string
  ui_uuid :: string
  ui_passwd :: string
  ui_port :: u32
  ui_alter_id :: u16
  ui_method :: string
  ui_speed_limit :: u64
  ui_device_limit :: i32

definition build_user_tag :: "string \<Rightarrow> user_info \<Rightarrow> string" where
  "build_user_tag node_tag u = node_tag @ ''|'' @ ui_email u @ ''|'' @ show_i32 (ui_uid u)"

definition parse_user_tag :: "string \<Rightarrow> string \<Rightarrow> (i32 \<times> string) option" where
  "parse_user_tag node_tag t =
     Option.bind (strip_prefix (node_tag @ ''|'') t) (\<lambda>rest.
     Option.bind (rsplit_once (CHR ''|'') rest) (\<lambda>(email, uid).
     Option.bind (parse_i32 uid) (\<lambda>uid. Some (uid, email))))"

definition users_differ :: "user_info list \<Rightarrow> user_info list \<Rightarrow> bool" where
  "users_differ old new =
     (if length old \<noteq> length new then True
      else list_ex (\<lambda>u. u \<notin> set old) new)"

section \<open>Pruning\<close>

definition prune_removed_stats ::
  "string \<Rightarrow> user_info list \<Rightarrow> user_info list \<Rightarrow> stats \<Rightarrow> stats" where
  "prune_removed_stats node_tag user_list new_users s =
     (let keep = map (build_user_tag node_tag) new_users
      in foldl (\<lambda>s u. let t = build_user_tag node_tag u
                       in if t \<in> set keep then s else stats_remove t s) s user_list)"

definition prune_all_stats :: "string \<Rightarrow> user_info list \<Rightarrow> stats \<Rightarrow> stats" where
  "prune_all_stats t user_list s = foldl (\<lambda>s u. stats_remove (build_user_tag t u) s) s user_list"

section \<open>Reporting\<close>

record user_traffic =
  ut_uid :: i32
  ut_email :: string
  upload :: int
  download :: int

text \<open>\<open>i64::try_from(n).unwrap_or(i64::MAX)\<close>.\<close>

definition to_i64 :: "u64 \<Rightarrow> int" where
  "to_i64 n = min (uint n) (2 ^ 63 - 1)"

fun take_loop ::
  "string \<Rightarrow> (string \<times> nat) list \<Rightarrow> stats \<Rightarrow> user_traffic list \<times> (nat \<times> u64 \<times> u64) list \<times> stats" where
  "take_loop node_tag [] s = ([], [], s)"
| "take_loop node_tag ((t, a) # rest) s =
     (case counter_take a s of ((u, d), s1) \<Rightarrow>
        if u = 0 \<and> d = 0 then take_loop node_tag rest s1
        else case parse_user_tag node_tag t of
          None \<Rightarrow> take_loop node_tag rest (counter_restore a u d s1)
        | Some (uid, email) \<Rightarrow>
            (case take_loop node_tag rest s1 of (traffic, taken, s2) \<Rightarrow>
               (\<lparr>ut_uid = uid, ut_email = email, upload = to_i64 u, download = to_i64 d\<rparr> # traffic,
                (a, u, d) # taken, s2)))"

definition restore_all :: "(nat \<times> u64 \<times> u64) list \<Rightarrow> stats \<Rightarrow> stats" where
  "restore_all taken s = foldl (\<lambda>s (a, u, d). counter_restore a u d s) s taken"

text \<open>The result is the report sent to the panel, if any, and the statistics afterwards.\<close>

definition user_info_monitor ::
  "bool \<Rightarrow> string \<Rightarrow> (user_traffic list \<Rightarrow> bool) \<Rightarrow> stats \<Rightarrow> user_traffic list option \<times> stats" where
  "user_info_monitor disable_upload_traffic node_tag report_user_traffic s =
     (case active_counters s of (act, s1) \<Rightarrow>
      case take_loop node_tag act s1 of (traffic, taken, s2) \<Rightarrow>
        if traffic = [] then (None, s2)
        else if disable_upload_traffic then (None, s2)
        else if report_user_traffic traffic then (Some traffic, s2)
        else (Some traffic, restore_all taken s2))"

section \<open>Lemmas on tags\<close>

lemma show_i32_no_bar: "CHR ''|'' \<notin> set (show_i32 w)"
proof -
  have "CHR ''|'' \<notin> set (show_nat n)" for n
    using show_nat_digits [of n] by (auto simp: list_all_iff is_ascii_digit_def)
  then show ?thesis by (simp add: show_i32_def)
qed

lemma show_nat_head: "show_nat n = c # cs \<Longrightarrow> is_ascii_digit c"
  using show_nat_digits [of n] by simp

lemma parse_i32_nonneg:
  assumes "n < 2 ^ 31"
  shows "parse_i32 (show_nat n) = Some (word_of_nat n)"
proof -
  obtain c cs where s: "show_nat n = c # cs" by (cases "show_nat n") auto
  then have "c \<noteq> CHR ''-''" using show_nat_head by (force simp: is_ascii_digit_def)
  then have "parse_i32 (show_nat n) = map_option word_of_nat (parse_uint (2 ^ 31 - 1) (show_nat n))"
    unfolding s parse_i32_def by (auto split: list.splits char.splits bool.splits)
  then show ?thesis using assms by (simp add: parse_uint_show_nat)
qed

lemma sint_i32_range: "- (2 ^ 31) \<le> sint (w :: i32)" "sint (w :: i32) < 2 ^ 31"
  using sint_greater_eq [of w] sint_less [of w] by simp_all

lemma parse_show_i32: "parse_i32 (show_i32 w) = Some w"
proof (cases "sint w < 0")
  case True
  have "nat (- sint w) \<le> 2 ^ 31" using sint_i32_range [of w] by simp
  moreover have "- (word_of_nat (nat (- sint w)) :: i32) = w"
    using True by (simp add: of_nat_nat)
  ultimately show ?thesis using True show_nat_digits by (simp add: show_i32_def parse_i32_def)
next
  case False
  have "nat (sint w) < 2 ^ 31" using sint_i32_range [of w] by simp
  moreover have "(word_of_nat (nat (sint w)) :: i32) = w" using False by (simp add: of_nat_nat)
  ultimately show ?thesis using False by (simp add: show_i32_def parse_i32_nonneg)
qed

lemma parse_build_user_tag:
  "parse_user_tag node_tag (build_user_tag node_tag u) = Some (ui_uid u, ui_email u)"
proof -
  have "strip_prefix (node_tag @ ''|'') (build_user_tag node_tag u)
      = Some (ui_email u @ CHR ''|'' # show_i32 (ui_uid u))"
    by (simp add: strip_prefix_Some build_user_tag_def)
  moreover have "rsplit_once (CHR ''|'') (ui_email u @ CHR ''|'' # show_i32 (ui_uid u))
      = Some (ui_email u, show_i32 (ui_uid u))"
    by (simp add: rsplit_once_Some show_i32_no_bar)
  ultimately show ?thesis by (simp add: parse_user_tag_def parse_show_i32)
qed

section \<open>Lemmas on the report\<close>

text \<open>
  While the counters drained from the registry are worked off, a dirty counter may be missing from
  the active set as long as it is still in the list \<open>L\<close> of work.
\<close>

definition draining_ok :: "(string \<times> nat) list \<Rightarrow> stats \<Rightarrow> bool" where
  "draining_ok L s \<longleftrightarrow>
     (\<forall>t a. stat_users s t = Some a \<longrightarrow> a < length (cells s) \<and> tag (cells s ! a) = t) \<and>
     distinct (active s) \<and>
     (\<forall>a < length (cells s). up (cells s ! a) \<noteq> 0 \<or> down (cells s ! a) \<noteq> 0 \<longrightarrow> dirty (cells s ! a) \<noteq> 0) \<and>
     (\<forall>t a. stat_users s t = Some a \<longrightarrow> dirty (cells s ! a) \<noteq> 0 \<longrightarrow> t \<in> set (active s) \<or> (t, a) \<in> set L) \<and>
     distinct (map fst L) \<and> (\<forall>(t, a) \<in> set L. stat_users s t = Some a)"

lemma draining_ok_Nil: "draining_ok [] s \<longleftrightarrow> stats_ok s"
  by (simp add: draining_ok_def stats_ok_def)

lemma map_filter_fst:
  "map fst (List.map_filter (\<lambda>t. map_option (Pair t) (m t)) ts) = filter (\<lambda>t. m t \<noteq> None) ts"
  by (induction ts) (auto simp: List.map_filter_simps split: option.splits)

lemma map_filter_set:
  "set (List.map_filter (\<lambda>t. map_option (Pair t) (m t)) ts) = {(t, a). t \<in> set ts \<and> m t = Some a}"
  by (induction ts) (auto simp: List.map_filter_simps split: option.splits)

lemma active_counters_draining:
  assumes "stats_ok s"
  shows "draining_ok (fst (active_counters s)) (snd (active_counters s))"
  using assms unfolding draining_ok_def stats_ok_def
  by (auto simp: active_counters_def map_filter_fst map_filter_set)

lemma draining_cell:
  "draining_ok ((t, a) # L) s \<Longrightarrow> a < length (cells s) \<and> tag (cells s ! a) = t \<and> stat_users s t = Some a"
  by (auto simp: draining_ok_def)

lemma draining_inj:
  assumes "draining_ok ((t, a) # L) s" and "(t', a') \<in> set L"
  shows "a' \<noteq> a"
proof
  assume "a' = a"
  moreover have "stat_users s t' = Some a'" using assms by (auto simp: draining_ok_def)
  ultimately have "tag (cells s ! a) = t'" using assms(1) by (auto simp: draining_ok_def)
  then have "t' = t" using draining_cell [OF assms(1)] by simp
  moreover have "t \<notin> fst ` set L" using assms(1) by (simp add: draining_ok_def)
  ultimately show False using assms(2) by force
qed

text \<open>A counter that is clean after \<open>take\<close> may leave the list of work.\<close>

lemma draining_take:
  assumes "draining_ok ((t, a) # L) s"
  shows "draining_ok L (snd (counter_take a s))"
proof -
  note c = draining_cell [OF assms]
  have "t' \<in> set (active s) \<or> (t', b) \<in> set L"
    if "stat_users s t' = Some b" "dirty (cells s ! b) \<noteq> 0" "b \<noteq> a" for t' b
    using assms that by (auto simp: draining_ok_def)
  moreover have "t = t'" if "stat_users s t' = Some a" for t'
    using assms c that by (auto simp: draining_ok_def)
  ultimately show ?thesis using assms c
    unfolding draining_ok_def by (simp add: counter_take_nth)
qed

lemma draining_restore:
  assumes "draining_ok L s" and "a < length (cells s)"
  shows "draining_ok L (counter_restore a u d s)"
proof -
  have m: "draining_ok L (mark_active a s)"
    using assms unfolding draining_ok_def by (auto simp: cell_simps)
  have *: "draining_ok L (upd_cell f a s')"
    if "draining_ok L s'" "a < length (cells s')" "dirty (cells s' ! a) \<noteq> 0"
       "\<And>c. tag (f c) = tag c" "\<And>c. dirty (f c) = dirty c" for s' f
    using that unfolding draining_ok_def by (auto simp: upd_cell_nth)
  show ?thesis
  proof (cases "0 < u \<or> 0 < d")
    case True
    then show ?thesis using *[OF m _ mark_active_dirty] assms by (simp add: counter_restore_def)
  next
    case False
    then have "counter_restore a u d s = s"
      by (simp add: counter_restore_def upd_cell_def word_gt_0)
    then show ?thesis using assms by simp
  qed
qed

lemma counter_restore_nth:
  "a < length (cells s) \<Longrightarrow> b < length (cells s) \<Longrightarrow>
     up (cells (counter_restore a u d s) ! b) = (if b = a then up (cells s ! a) + u else up (cells s ! b)) \<and>
     down (cells (counter_restore a u d s) ! b) = (if b = a then down (cells s ! a) + d else down (cells s ! b))"
  by (auto simp: counter_restore_def cell_simps word_gt_0)

lemma counter_restore_simps [simp]:
  "stat_users (counter_restore a u d s) = stat_users s"
  "length (cells (counter_restore a u d s)) = length (cells s)"
  by (simp_all add: counter_restore_def)

definition traffic_at :: "stats \<Rightarrow> nat \<Rightarrow> u64 \<times> u64" where
  "traffic_at s a = (up (cells s ! a), down (cells s ! a))"

lemma traffic_at_restore:
  "a < length (cells s) \<Longrightarrow> b < length (cells s) \<Longrightarrow>
     traffic_at (counter_restore a u d s) b =
       (if b = a then (fst (traffic_at s a) + u, snd (traffic_at s a) + d) else traffic_at s b)"
  by (simp add: traffic_at_def counter_restore_nth)

lemma traffic_at_take:
  "a < length (cells s) \<Longrightarrow> traffic_at (snd (counter_take a s)) b = (if b = a then (0, 0) else traffic_at s b)"
  by (simp add: traffic_at_def counter_take_nth)

text \<open>What the loop reports of one counter, and what it remembers.\<close>

definition report_of :: "string \<Rightarrow> stats \<Rightarrow> string \<times> nat \<Rightarrow> user_traffic option" where
  "report_of node_tag s = (\<lambda>(t, a). if traffic_at s a = (0, 0) then None else
     map_option (\<lambda>(uid, email). \<lparr>ut_uid = uid, ut_email = email,
         upload = to_i64 (fst (traffic_at s a)), download = to_i64 (snd (traffic_at s a))\<rparr>)
       (parse_user_tag node_tag t))"

definition reported :: "string \<Rightarrow> (string \<times> nat) list \<Rightarrow> nat \<Rightarrow> bool" where
  "reported node_tag L b \<longleftrightarrow> (\<exists>t. (t, b) \<in> set L \<and> parse_user_tag node_tag t \<noteq> None)"

lemma reported_Cons:
  "reported node_tag ((t, a) # L) b \<longleftrightarrow> b = a \<and> parse_user_tag node_tag t \<noteq> None \<or> reported node_tag L b"
  by (auto simp: reported_def)

lemma map_filter_cong: "(\<And>x. x \<in> set xs \<Longrightarrow> f x = g x) \<Longrightarrow> List.map_filter f xs = List.map_filter g xs"
  by (induction xs) (auto simp: List.map_filter_simps split: option.splits)

text \<open>What the loop over the drained counters \<open>L\<close> achieves from the state \<open>s\<close>.\<close>

definition loop_post ::
  "string \<Rightarrow> (string \<times> nat) list \<Rightarrow> stats \<Rightarrow> user_traffic list \<times> (nat \<times> u64 \<times> u64) list \<times> stats \<Rightarrow> bool" where
  "loop_post node_tag L s = (\<lambda>(traffic, taken, s').
     stats_ok s' \<and> stat_users s' = stat_users s \<and> length (cells s') = length (cells s) \<and>
     (\<forall>b < length (cells s). traffic_at s' b = (if reported node_tag L b then (0, 0) else traffic_at s b)) \<and>
     traffic = List.map_filter (report_of node_tag s) L \<and>
     distinct (map fst taken) \<and>
     (\<forall>(a, u, d) \<in> set taken. a < length (cells s) \<and> reported node_tag L a \<and> (u, d) = traffic_at s a) \<and>
     (\<forall>b < length (cells s). reported node_tag L b \<longrightarrow> traffic_at s b \<noteq> (0, 0) \<longrightarrow> b \<in> fst ` set taken))"

lemma counter_take_pair:
  "a < length (cells s) \<Longrightarrow> counter_take a s = (traffic_at s a, snd (counter_take a s))"
  by (simp add: counter_take_fst traffic_at_def prod_eq_iff)

lemma draining_not_reported: "draining_ok ((t, a) # L) s \<Longrightarrow> \<not> reported node_tag L a"
  using draining_inj [of t a L s] by (auto simp: reported_def)

lemma draining_report_take:
  assumes "draining_ok ((t, a) # L) s"
  shows "List.map_filter (report_of node_tag (snd (counter_take a s))) L
       = List.map_filter (report_of node_tag s) L"
  using draining_cell [OF assms] draining_inj [OF assms]
  by (intro map_filter_cong) (auto simp: report_of_def traffic_at_take)

lemma loop_post_taken:
  assumes "draining_ok ((t, a) # L) s" and "loop_post node_tag L (snd (counter_take a s)) (tr, tk, s')"
  shows "b < length (cells s) \<Longrightarrow>
      traffic_at s' b = (if b = a \<or> reported node_tag L b then (0, 0) else traffic_at s b)"
    and "(c, u, d) \<in> set tk \<Longrightarrow> c < length (cells s) \<and> c \<noteq> a \<and> reported node_tag L c \<and> (u, d) = traffic_at s c"
    and "b < length (cells s) \<Longrightarrow> reported node_tag L b \<Longrightarrow> traffic_at s b \<noteq> (0, 0) \<Longrightarrow> b \<in> fst ` set tk"
    and "tr = List.map_filter (report_of node_tag s) L"
    and "stats_ok s'" and "stat_users s' = stat_users s" and "length (cells s') = length (cells s)"
    and "distinct (map fst tk)"
proof -
  have a: "a < length (cells s)" using draining_cell [OF assms(1)] by simp
  note post = assms(2) [unfolded loop_post_def split_conv, simplified]
  note nr = draining_not_reported [OF assms(1), of node_tag]
  show "traffic_at s' b = (if b = a \<or> reported node_tag L b then (0, 0) else traffic_at s b)"
    if "b < length (cells s)" using post that a by (simp add: traffic_at_take)
  show "c < length (cells s) \<and> c \<noteq> a \<and> reported node_tag L c \<and> (u, d) = traffic_at s c"
    if "(c, u, d) \<in> set tk" using post that a nr by (auto simp: traffic_at_take)
  show "b \<in> fst ` set tk" if "b < length (cells s)" "reported node_tag L b" "traffic_at s b \<noteq> (0, 0)"
  proof -
    have "traffic_at (snd (counter_take a s)) b \<noteq> (0, 0)"
      using that nr a by (auto simp: traffic_at_take)
    then show ?thesis using post that by blast
  qed
  show "tr = List.map_filter (report_of node_tag s) L"
    using post draining_report_take [OF assms(1)] by simp
qed (use assms(2) in \<open>auto simp: loop_post_def\<close>)

lemma loop_post_idle:
  assumes "draining_ok ((t, a) # L) s" and "traffic_at s a = (0, 0)"
    and "loop_post node_tag L (snd (counter_take a s)) (tr, tk, s')"
  shows "loop_post node_tag ((t, a) # L) s (tr, tk, s')"
proof -
  note post = loop_post_taken [OF assms(1,3)]
  have "traffic_at s' b = (if reported node_tag ((t, a) # L) b then (0, 0) else traffic_at s b)"
    if "b < length (cells s)" for b
    using post(1) [OF that] assms(2) by (auto simp: reported_Cons)
  moreover have "b \<in> fst ` set tk"
    if "b < length (cells s)" "reported node_tag ((t, a) # L) b" "traffic_at s b \<noteq> (0, 0)" for b
    using post(3) [OF that(1)] that assms(2) by (auto simp: reported_Cons)
  ultimately show ?thesis using post(2,4-8) assms(2)
    by (fastforce simp: loop_post_def reported_Cons List.map_filter_simps report_of_def)
qed

lemma loop_post_unparsed:
  assumes "draining_ok ((t, a) # L) s" and "traffic_at s a = (u, d)"
    and "parse_user_tag node_tag t = None"
    and "loop_post node_tag L (counter_restore a u d (snd (counter_take a s))) r"
  shows "loop_post node_tag ((t, a) # L) s r"
proof -
  let ?s = "counter_restore a u d (snd (counter_take a s))"
  have a: "a < length (cells s)" using draining_cell [OF assms(1)] by simp
  have s: "stat_users ?s = stat_users s" "length (cells ?s) = length (cells s)"
    "\<And>b. b < length (cells s) \<Longrightarrow> traffic_at ?s b = traffic_at s b"
    using a assms(2) by (simp_all add: traffic_at_restore traffic_at_take)
  have "\<And>t b. (t, b) \<in> set L \<Longrightarrow> b < length (cells s)"
    using assms(1) by (auto simp: draining_ok_def)
  then have "List.map_filter (report_of node_tag ?s) L = List.map_filter (report_of node_tag s) L"
    using s(3) by (intro map_filter_cong) (auto simp: report_of_def)
  then show ?thesis using a assms(3,4) s
    by (auto simp: loop_post_def reported_Cons List.map_filter_simps report_of_def split: if_splits)
qed

lemma loop_post_reported:
  assumes "draining_ok ((t, a) # L) s" and "traffic_at s a = (u, d)" and "(u, d) \<noteq> (0, 0)"
    and "parse_user_tag node_tag t = Some (uid, email)"
    and "loop_post node_tag L (snd (counter_take a s)) (tr, tk, s')"
  shows "loop_post node_tag ((t, a) # L) s
     (\<lparr>ut_uid = uid, ut_email = email, upload = to_i64 u, download = to_i64 d\<rparr> # tr, (a, u, d) # tk, s')"
proof -
  note post = loop_post_taken [OF assms(1,5)]
  have "traffic_at s' b = (if reported node_tag ((t, a) # L) b then (0, 0) else traffic_at s b)"
    if "b < length (cells s)" for b
    using post(1) [OF that] assms(4) by (auto simp: reported_Cons)
  moreover have "b \<in> fst ` set ((a, u, d) # tk)"
    if "b < length (cells s)" "reported node_tag ((t, a) # L) b" "traffic_at s b \<noteq> (0, 0)" for b
    using post(3) [OF that(1)] that by (auto simp: reported_Cons)
  moreover have "distinct (map fst ((a, u, d) # tk))" using post(2,8) by force
  ultimately show ?thesis using post(2,4-7) assms(2-4) draining_cell [OF assms(1)]
    by (fastforce simp: loop_post_def reported_Cons List.map_filter_simps report_of_def)
qed

lemma take_loop_post: "draining_ok L s \<Longrightarrow> loop_post node_tag L s (take_loop node_tag L s)"
proof (induction L arbitrary: s)
  case Nil
  then show ?case by (simp add: loop_post_def draining_ok_Nil reported_def List.map_filter_simps)
next
  case (Cons ta L)
  obtain t a where ta: "ta = (t, a)" by (cases ta)
  note ok = Cons.prems [unfolded ta]
  obtain u d where ud: "traffic_at s a = (u, d)" by (cases "traffic_at s a")
  have a: "a < length (cells s)" using draining_cell [OF ok] by simp
  note ok1 = draining_take [OF ok]
  have take: "counter_take a s = ((u, d), snd (counter_take a s))"
    using counter_take_pair [OF a] ud by simp
  note IH = Cons.IH [OF ok1]
  show ?case
  proof (cases "(u, d) = (0, 0)")
    case True
    then show ?thesis using loop_post_idle [OF ok] IH ud by (cases "take_loop node_tag L (snd (counter_take a s))", subst ta, subst take_loop.simps, subst take) (simp add: ta)
  next
    case nz: False
    show ?thesis
    proof (cases "parse_user_tag node_tag t")
      case None
      have "loop_post node_tag L (counter_restore a u d (snd (counter_take a s)))
          (take_loop node_tag L (counter_restore a u d (snd (counter_take a s))))"
        using draining_restore [OF ok1] a by (intro Cons.IH) simp
      from loop_post_unparsed [OF ok ud None this] show ?thesis
        using nz None by (subst ta, subst take_loop.simps, subst take) (auto simp: ta)
    next
      case (Some ue)
      obtain tr tk s2 where l: "take_loop node_tag L (snd (counter_take a s)) = (tr, tk, s2)"
        by (cases "take_loop node_tag L (snd (counter_take a s))") auto
      obtain uid email where "ue = (uid, email)" by (cases ue)
      with loop_post_reported [OF ok ud nz _ IH [unfolded l], of uid email] show ?thesis
        using nz Some l by (subst ta, subst take_loop.simps, subst take) (auto simp: ta)
    qed
  qed
qed

lemma restore_all_post:
  assumes "stats_ok s" and "distinct (map fst taken)" and "\<forall>(a, u, d) \<in> set taken. a < length (cells s)"
  shows "stats_ok (restore_all taken s) \<and> length (cells (restore_all taken s)) = length (cells s) \<and>
     stat_users (restore_all taken s) = stat_users s \<and>
     (\<forall>b < length (cells s). traffic_at (restore_all taken s) b =
        (case map_of taken b of None \<Rightarrow> traffic_at s b
         | Some (u, d) \<Rightarrow> (fst (traffic_at s b) + u, snd (traffic_at s b) + d)))"
  using assms
proof (induction taken arbitrary: s)
  case Nil
  then show ?case by (simp add: restore_all_def)
next
  case (Cons x taken)
  obtain a u d where x: "x = (a, u, d)" by (cases x)
  let ?s = "counter_restore a u d s"
  have a: "a < length (cells s)" using Cons.prems(3) x by simp
  have "stats_ok ?s" using counter_restore_ok [OF Cons.prems(1) a] .
  moreover have "restore_all (x # taken) s = restore_all taken ?s" by (simp add: restore_all_def x)
  moreover have "map_of taken a = None"
    using Cons.prems(2) x by (simp add: map_of_eq_None_iff)
  ultimately show ?case using Cons.IH [of ?s] Cons.prems(2,3) a
    by (auto simp: x traffic_at_restore [OF a] split: option.splits)
qed

section \<open>The report cycle\<close>

lemma not_active_no_traffic:
  assumes "stats_ok s" and "stat_users s t = Some b" and "t \<notin> set (active s)"
  shows "traffic_at s b = (0, 0)"
proof -
  have "b < length (cells s)" "dirty (cells s ! b) = 0"
    using assms by (auto simp: stats_ok_def)
  then show ?thesis using no_traffic [OF assms(1)] by (simp add: traffic_at_def)
qed

lemma reported_active:
  "reported node_tag (fst (active_counters s)) b \<longleftrightarrow>
     (\<exists>t \<in> set (active s). stat_users s t = Some b \<and> parse_user_tag node_tag t \<noteq> None)"
  by (auto simp: reported_def active_counters_def map_filter_set)

lemma active_counters_state [simp]:
  "traffic_at (snd (active_counters s)) = traffic_at s"
  "length (cells (snd (active_counters s))) = length (cells s)"
  "stat_users (snd (active_counters s)) = stat_users s"
  "report_of node_tag (snd (active_counters s)) = report_of node_tag s"
  by (auto simp: active_counters_def traffic_at_def report_of_def fun_eq_iff)

lemma report_loop:
  assumes "stats_ok s"
  shows "loop_post node_tag (fst (active_counters s)) (snd (active_counters s))
     (take_loop node_tag (fst (active_counters s)) (snd (active_counters s)))"
  by (rule take_loop_post) (rule active_counters_draining [OF assms])

lemma map_filter_mem: "y \<in> set (List.map_filter f xs) \<longleftrightarrow> (\<exists>x \<in> set xs. f x = Some y)"
  by (auto simp: List.map_filter_def image_iff)

text \<open>Nothing to report means that no counter the report covers holds traffic.\<close>

lemma no_report_no_traffic:
  assumes "List.map_filter (report_of node_tag s) L = []" and "reported node_tag L b"
  shows "traffic_at s b = (0, 0)"
proof -
  obtain t where t: "(t, b) \<in> set L" "parse_user_tag node_tag t \<noteq> None"
    using assms(2) by (auto simp: reported_def)
  then have "report_of node_tag s (t, b) = None"
    using assms(1) map_filter_mem [of _ "report_of node_tag s" L] by (metis empty_iff list.set(1) not_None_eq)
  then show ?thesis using t(2) by (auto simp: report_of_def split: if_splits)
qed

lemma monitor_cases:
  assumes "user_info_monitor dis node_tag rep s = (r, s')"
    and "take_loop node_tag (fst (active_counters s)) (snd (active_counters s)) = (traffic, taken, s2)"
  shows "traffic = [] \<and> r = None \<and> s' = s2 \<or>
     traffic \<noteq> [] \<and> dis \<and> r = None \<and> s' = s2 \<or>
     traffic \<noteq> [] \<and> \<not> dis \<and> r = Some traffic \<and> rep traffic \<and> s' = s2 \<or>
     traffic \<noteq> [] \<and> \<not> dis \<and> r = Some traffic \<and> \<not> rep traffic \<and> s' = restore_all taken s2"
  using assms by (auto simp: user_info_monitor_def split: prod.splits if_splits)

text \<open>
  C6: A report cycle the panel accepts reports every user of the node with traffic exactly as its
  counter shows it (capped to the range of a signed 64-bit number), reports nothing else, and
  empties exactly the counters it reported; a counter of another node keeps its bytes.
\<close>

theorem report_cycle_accepted:
  assumes "stats_ok s" and "\<And>rs. rep rs"
    and "user_info_monitor False node_tag rep s = (r, s')"
  shows "stats_ok s' \<and>
    (stat_users s (build_user_tag node_tag u) = Some a \<and> traffic_at s a \<noteq> (0, 0) \<longrightarrow>
       (\<exists>rs. r = Some rs \<and> \<lparr>ut_uid = ui_uid u, ut_email = ui_email u, upload = to_i64 (fst (traffic_at s a)),
                download = to_i64 (snd (traffic_at s a))\<rparr> \<in> set rs) \<and> traffic_at s' a = (0, 0)) \<and>
    (r = Some rs \<and> x \<in> set rs \<longrightarrow>
       (\<exists>t b. stat_users s t = Some b \<and> parse_user_tag node_tag t = Some (ut_uid x, ut_email x) \<and>
          traffic_at s b \<noteq> (0, 0) \<and>
          upload x = to_i64 (fst (traffic_at s b)) \<and> download x = to_i64 (snd (traffic_at s b)))) \<and>
    (b < length (cells s) \<and> (\<forall>t. stat_users s t = Some b \<longrightarrow> parse_user_tag node_tag t = None) \<longrightarrow>
       traffic_at s' b = traffic_at s b)"
proof -
  obtain traffic taken s2
    where l: "take_loop node_tag (fst (active_counters s)) (snd (active_counters s)) = (traffic, taken, s2)"
    by (metis prod_cases3)
  note post = report_loop [OF assms(1), of node_tag, unfolded l loop_post_def split_conv, simplified]
  have cases: "s' = s2 \<and> (r = Some traffic \<or> traffic = [] \<and> r = None)"
    using monitor_cases [OF assms(3) l] assms(2) by auto
  have act: "fst (active_counters s) = List.map_filter (\<lambda>t. map_option (Pair t) (stat_users s t)) (active s)"
    by (simp add: active_counters_def)
  have 1: "(\<exists>rs. r = Some rs \<and> \<lparr>ut_uid = ui_uid u, ut_email = ui_email u, upload = to_i64 (fst (traffic_at s a)),
      download = to_i64 (snd (traffic_at s a))\<rparr> \<in> set rs) \<and> traffic_at s' a = (0, 0)"
    if reg: "stat_users s (build_user_tag node_tag u) = Some a" and nz: "traffic_at s a \<noteq> (0, 0)"
  proof -
    have act': "build_user_tag node_tag u \<in> set (active s)"
      using not_active_no_traffic [OF assms(1) reg] nz by auto
    then have in_L: "(build_user_tag node_tag u, a) \<in> set (fst (active_counters s))"
      by (simp add: act map_filter_set reg)
    have "reported node_tag (fst (active_counters s)) a"
      using act' reg parse_build_user_tag [of node_tag u] by (auto simp: reported_active)
    moreover have "a < length (cells s)" using assms(1) reg by (auto simp: stats_ok_def)
    moreover have "report_of node_tag s (build_user_tag node_tag u, a) = Some
        \<lparr>ut_uid = ui_uid u, ut_email = ui_email u, upload = to_i64 (fst (traffic_at s a)),
         download = to_i64 (snd (traffic_at s a))\<rparr>"
      using nz by (simp add: report_of_def parse_build_user_tag)
    ultimately have z: "traffic_at s2 a = (0, 0)" and
      "\<lparr>ut_uid = ui_uid u, ut_email = ui_email u, upload = to_i64 (fst (traffic_at s a)),
         download = to_i64 (snd (traffic_at s a))\<rparr> \<in> set traffic"
      using post in_L by (auto simp only: map_filter_mem if_True)
    then show ?thesis using cases by (auto simp del: active_counters_state)
  qed
  have 2: "\<exists>t b. stat_users s t = Some b \<and> parse_user_tag node_tag t = Some (ut_uid x, ut_email x) \<and>
      traffic_at s b \<noteq> (0, 0) \<and>
      upload x = to_i64 (fst (traffic_at s b)) \<and> download x = to_i64 (snd (traffic_at s b))"
    if "r = Some rs" "x \<in> set rs"
  proof -
    have "x \<in> set (List.map_filter (report_of node_tag s) (fst (active_counters s)))"
      using that post cases by auto
    then obtain t b where "(t, b) \<in> set (fst (active_counters s))" "report_of node_tag s (t, b) = Some x"
      by (auto simp: map_filter_mem)
    then show ?thesis
      by (intro exI [of _ t] exI [of _ b])
         (auto simp: act map_filter_set report_of_def split: if_splits)
  qed
  have 3: "traffic_at s' b = traffic_at s b"
    if "b < length (cells s)" "\<forall>t. stat_users s t = Some b \<longrightarrow> parse_user_tag node_tag t = None"
    using post cases that by (auto simp: reported_active)
  show ?thesis using post cases 1 2 3 by blast
qed

text \<open>
  C7: A report cycle the panel refuses loses nothing: every counter shows afterwards what it showed
  before, and every counter with traffic is in the active set again, so the next cycle reports it.
\<close>

theorem report_cycle_refused:
  assumes "stats_ok s" and "\<And>rs. \<not> rep rs"
    and "user_info_monitor False node_tag rep s = (r, s')" and "b < length (cells s)"
  shows "stats_ok s' \<and> traffic_at s' b = traffic_at s b \<and>
    (stat_users s t = Some b \<and> traffic_at s b \<noteq> (0, 0) \<longrightarrow> t \<in> set (active s'))"
proof -
  obtain traffic taken s2
    where l: "take_loop node_tag (fst (active_counters s)) (snd (active_counters s)) = (traffic, taken, s2)"
    by (metis prod_cases3)
  note post = report_loop [OF assms(1), of node_tag, unfolded l loop_post_def split_conv, simplified]
  let ?L = "fst (active_counters s)"
  have taken: "\<forall>(a, u, d) \<in> set taken. a < length (cells s2)" using post by auto
  have rest: "stats_ok (restore_all taken s2)" "length (cells (restore_all taken s2)) = length (cells s)"
    "stat_users (restore_all taken s2) = stat_users s"
    "traffic_at (restore_all taken s2) b =
        (case map_of taken b of None \<Rightarrow> traffic_at s2 b
         | Some (u, d) \<Rightarrow> (fst (traffic_at s2 b) + u, snd (traffic_at s2 b) + d))"
    using restore_all_post [OF _ _ taken] post assms(4) by simp_all
  have restored: "traffic_at (restore_all taken s2) b = traffic_at s b"
  proof (cases "map_of taken b")
    case None
    then have "b \<notin> fst ` set taken" by (simp add: map_of_eq_None_iff)
    then have "traffic_at s2 b = traffic_at s b" using post assms(4) by auto
    then show ?thesis using rest(4) None by simp
  next
    case (Some ud)
    have "(b, fst ud, snd ud) \<in> set taken" using map_of_SomeD [OF Some] by simp
    then have "reported node_tag ?L b" "ud = traffic_at s b" using post by auto
    then show ?thesis using rest(4) Some post assms(4) by simp
  qed
  have "stats_ok s' \<and> traffic_at s' b = traffic_at s b \<and> stat_users s' = stat_users s"
    using monitor_cases [OF assms(3) l]
  proof (elim disjE conjE)
    assume "traffic = []" and "s' = s2"
    then show ?thesis using post assms(4) no_report_no_traffic [of node_tag s ?L b] by auto
  qed (use assms(2) rest restored in auto)
  then show ?thesis using not_active_no_traffic [of s' t b] by auto
qed

definition sample_info :: user_info where
  "sample_info = \<lparr>ui_uid = 7, ui_email = ''a|b'', ui_uuid = [], ui_passwd = [], ui_port = 0,
     ui_alter_id = 0, ui_method = [], ui_speed_limit = 0, ui_device_limit = 0\<rparr>"

definition sample_stats :: stats where
  "sample_stats =
     add_down 1 4 (add_up 0 9 (snd (stats_counter ''other|x|1''
       (snd (stats_counter (build_user_tag ''node'' sample_info) stats_new)))))"

lemma sample_stats_ok: "stats_ok sample_stats"
proof -
  have "stats_ok (snd (stats_counter ''other|x|1'' (snd (stats_counter (build_user_tag ''node'' sample_info) stats_new))))"
    using stats_counter_ok stats_new_ok by blast
  moreover have "length (cells (snd (stats_counter ''other|x|1''
       (snd (stats_counter (build_user_tag ''node'' sample_info) stats_new))))) = 2"
    by code_simp
  ultimately show ?thesis
    unfolding sample_stats_def by (intro add_up_ok add_down_ok) (simp_all add: add_up_def)
qed

lemma report_cycle_accepted_witness:
  "\<exists>rs. fst (user_info_monitor False ''node'' (\<lambda>_. True) sample_stats) = Some rs \<and>
     \<lparr>ut_uid = 7, ut_email = ''a|b'', upload = 9, download = 0\<rparr> \<in> set rs"
proof -
  have "stat_users sample_stats (build_user_tag ''node'' sample_info) = Some 0" by code_simp
  moreover have "traffic_at sample_stats 0 = (9, 0)" by code_simp
  moreover have "to_i64 9 = 9" "to_i64 0 = 0" by (simp_all add: to_i64_def)
  ultimately show ?thesis
    using report_cycle_accepted [OF sample_stats_ok, of "\<lambda>_. True" "''node''" _ _ sample_info 0, OF _ prod.collapse [symmetric]]
    by (simp add: sample_info_def)
qed

lemma report_cycle_refused_witness:
  "traffic_at (snd (user_info_monitor False ''node'' (\<lambda>_. False) sample_stats)) 0 = traffic_at sample_stats 0"
proof -
  have "0 < length (cells sample_stats)" by code_simp
  then show ?thesis
    using report_cycle_refused [OF sample_stats_ok, of "\<lambda>_. False" "''node''" _ _ 0, OF _ prod.collapse [symmetric]]
    by simp
qed

end
