(* ===== verification/Copy.thy ===== *)
theory Copy
  imports Stats Translation
begin

text \<open>
  kernel/src/pipe/timer.rs, kernel/src/pipe/copy.rs and \<open>relay_stream\<close> of proxy/src/io.rs: the idle timer
  and the two copy loops between a connection and a link. One iteration of a loop consumes one event:
  what its \<open>select!\<close> saw, together with what the sends and writes of that iteration returned. Both
  directions run at once, so \<open>try_join\<close> is a run over an interleaving of the events of both; every
  statement holds for every interleaving. A run that is out of events is still waiting (\<open>None\<close>).
\<close>

section \<open>The idle timer\<close>

text \<open>
  Times are numbers of ticks of the monotonic clock. \<open>TUpdate\<close> is a call of \<open>Timer::update\<close>; \<open>TWake\<close>
  is the background task coming out of \<open>sleep_until\<close>, which then reads the deadline again.
\<close>

record timer =
  deadline :: nat
  idle :: nat
  cancelled :: bool

datatype timer_event = TUpdate nat | TWake nat | TCancel

definition timer_new :: "nat \<Rightarrow> nat \<Rightarrow> timer" where
  "timer_new idle_time now = \<lparr>deadline = now + idle_time, idle = idle_time, cancelled = False\<rparr>"

definition timer_step :: "timer_event \<Rightarrow> timer \<Rightarrow> timer" where
  "timer_step e t = (case e of
     TUpdate now \<Rightarrow> t\<lparr>deadline := now + idle t\<rparr>
   | TWake now \<Rightarrow> if cancelled t then t else if deadline t \<le> now then t\<lparr>cancelled := True\<rparr> else t
   | TCancel \<Rightarrow> t\<lparr>cancelled := True\<rparr>)"

definition timer_run :: "timer_event list \<Rightarrow> timer \<Rightarrow> timer" where
  "timer_run es t = foldl (\<lambda>t e. timer_step e t) t es"

section \<open>The copy loops\<close>

definition idle_err :: io_error where
  "idle_err = IoMsg TimedOut ''connection idle timeout''"

text \<open>
  An event of the uplink loop: the idle token fired, or a read returned; the flag says whether the
  link still has its receiver. An event of the downlink loop: the token fired, a chunk came off the
  link (with the result of writing it), or the link's sender is gone.
\<close>

datatype up_event = UIdle | URead read_event bool
datatype down_event = DIdle | DChunk bytes "io_error option" | DEof

record copy_state =
  link_out :: "bytes list"
  conn_out :: bytes
  flushes :: nat
  copy_stats :: stats

definition count_up :: "nat option \<Rightarrow> nat \<Rightarrow> copy_state \<Rightarrow> copy_state" where
  "count_up c n s = (case c of None \<Rightarrow> s
     | Some a \<Rightarrow> s\<lparr>copy_stats := add_up a (word_of_nat n) (copy_stats s)\<rparr>)"

definition count_down :: "nat option \<Rightarrow> nat \<Rightarrow> copy_state \<Rightarrow> copy_state" where
  "count_down c n s = (case c of None \<Rightarrow> s
     | Some a \<Rightarrow> s\<lparr>copy_stats := add_down a (word_of_nat n) (copy_stats s)\<rparr>)"

definition conn_to_link_iter ::
  "nat option \<Rightarrow> up_event \<Rightarrow> copy_state \<Rightarrow> unit io_result option \<times> copy_state" where
  "conn_to_link_iter c e s = (case e of
     UIdle \<Rightarrow> (Some (Inl idle_err), s)
   | URead (RErr err) _ \<Rightarrow> (Some (Inl err), s)
   | URead (ROk d) accepted \<Rightarrow>
       if d = [] then (Some (Inr ()), s)
       else let s = count_up c (length d) s
            in if accepted then (None, s\<lparr>link_out := link_out s @ [d]\<rparr>) else (Some (Inr ()), s))"

definition link_to_conn_iter ::
  "nat option \<Rightarrow> down_event \<Rightarrow> copy_state \<Rightarrow> unit io_result option \<times> copy_state" where
  "link_to_conn_iter c e s = (case e of
     DIdle \<Rightarrow> (Some (Inl idle_err), s)
   | DChunk b w \<Rightarrow>
       (let s = count_down c (length b) s
        in case w of Some err \<Rightarrow> (Some (Inl err), s)
           | None \<Rightarrow> (None, s\<lparr>conn_out := conn_out s @ b\<rparr>))
   | DEof \<Rightarrow> (Some (Inr ()), s\<lparr>flushes := flushes s + 1\<rparr>))"

text \<open>\<open>link_to_sink\<close>: empty chunks are dropped, and a chunk counts only once it has been sent.\<close>

definition link_to_sink_iter ::
  "nat option \<Rightarrow> down_event \<Rightarrow> copy_state \<Rightarrow> unit io_result option \<times> copy_state" where
  "link_to_sink_iter c e s = (case e of
     DIdle \<Rightarrow> (Some (Inl idle_err), s)
   | DChunk b w \<Rightarrow>
       (if b = [] then (None, s)
        else case w of Some err \<Rightarrow> (Some (Inl err), s)
           | None \<Rightarrow> (None, count_down c (length b) (s\<lparr>conn_out := conn_out s @ b\<rparr>)))
   | DEof \<Rightarrow> (Some (Inr ()), s\<lparr>flushes := flushes s + 1\<rparr>))"

text \<open>\<open>try_join!\<close> of two loops: the first error wins, otherwise both have to finish.\<close>

fun try_join ::
  "('a \<Rightarrow> 's \<Rightarrow> unit io_result option \<times> 's) \<Rightarrow> ('b \<Rightarrow> 's \<Rightarrow> unit io_result option \<times> 's) \<Rightarrow>
   bool \<Rightarrow> bool \<Rightarrow> ('a + 'b) list \<Rightarrow> 's \<Rightarrow> unit io_result option \<times> 's" where
  "try_join f g True True evs s = (Some (Inr ()), s)"
| "try_join f g p q [] s = (None, s)"
| "try_join f g True q (Inl e # evs) s = try_join f g True q evs s"
| "try_join f g False q (Inl e # evs) s =
     (case f e s of
        (Some (Inl err), s') \<Rightarrow> (Some (Inl err), s')
      | (Some (Inr _), s') \<Rightarrow> try_join f g True q evs s'
      | (None, s') \<Rightarrow> try_join f g False q evs s')"
| "try_join f g p True (Inr e # evs) s = try_join f g p True evs s"
| "try_join f g p False (Inr e # evs) s =
     (case g e s of
        (Some (Inl err), s') \<Rightarrow> (Some (Inl err), s')
      | (Some (Inr _), s') \<Rightarrow> try_join f g p True evs s'
      | (None, s') \<Rightarrow> try_join f g p False evs s')"

definition splice ::
  "(up_event + down_event) list \<Rightarrow> copy_state \<Rightarrow> unit io_result option \<times> copy_state" where
  "splice evs s = try_join (conn_to_link_iter None) (link_to_conn_iter None) False False evs s"

definition splice_sink ::
  "nat option \<Rightarrow> (up_event + down_event) list \<Rightarrow> copy_state \<Rightarrow> unit io_result option \<times> copy_state" where
  "splice_sink c evs s = try_join (conn_to_link_iter c) (link_to_sink_iter c) False False evs s"

text \<open>
  \<open>relay_stream\<close>: the payload read along with the header goes to the link first (\<open>accepted\<close> is the
  outcome of that send); when the outbound is already gone only the downlink is drained.
\<close>

definition relay_stream ::
  "nat option \<Rightarrow> bytes \<Rightarrow> bool \<Rightarrow> (up_event + down_event) list \<Rightarrow> copy_state \<Rightarrow>
   unit io_result option \<times> copy_state" where
  "relay_stream c leftover accepted evs s =
     (if leftover \<noteq> [] then
        let s = count_up c (length leftover) s
        in if accepted
           then try_join (conn_to_link_iter c) (link_to_conn_iter c) False False evs
                  (s\<lparr>link_out := link_out s @ [leftover]\<rparr>)
           else try_join (conn_to_link_iter c) (link_to_conn_iter c) True False evs s
      else try_join (conn_to_link_iter c) (link_to_conn_iter c) False False evs s)"

definition copy_init :: "stats \<Rightarrow> copy_state" where
  "copy_init st = \<lparr>link_out = [], conn_out = [], flushes = 0, copy_stats = st\<rparr>"

section \<open>The timer fires only after an idle period\<close>

text \<open>
  The invariant over a chronological run that began at \<open>t0\<close>: the deadline is one idle period after
  the last update, or after the start.
\<close>

definition last_update :: "nat \<Rightarrow> timer_event list \<Rightarrow> nat" where
  "last_update t0 es = foldl (\<lambda>l e. case e of TUpdate n \<Rightarrow> n | _ \<Rightarrow> l) t0 es"

lemma timer_run_deadline:
  "deadline (timer_run es (timer_new i t0)) = last_update t0 es + i \<and> idle (timer_run es (timer_new i t0)) = i"
proof (induction es rule: rev_induct)
  case Nil
  then show ?case by (simp add: timer_run_def timer_new_def last_update_def)
next
  case (snoc e es)
  then show ?case
    by (cases e) (auto simp: timer_run_def timer_step_def last_update_def split: if_splits)
qed

section \<open>Lemmas on the copy loops\<close>

definition ups :: "('a + 'b) list \<Rightarrow> 'a list" where
  "ups evs = List.map_filter (\<lambda>e. case e of Inl a \<Rightarrow> Some a | Inr _ \<Rightarrow> None) evs"

definition downs :: "('a + 'b) list \<Rightarrow> 'b list" where
  "downs evs = List.map_filter (\<lambda>e. case e of Inl _ \<Rightarrow> None | Inr b \<Rightarrow> Some b) evs"

lemma ups_downs_simps [simp]:
  "ups [] = []" "ups (Inl a # evs) = a # ups evs" "ups (Inr b # evs) = ups evs"
  "downs [] = []" "downs (Inl a # evs) = downs evs" "downs (Inr b # evs) = b # downs evs"
  by (simp_all add: ups_def downs_def List.map_filter_simps)

text \<open>The uplink events of a clean transfer of the chunks \<open>us\<close>, and the downlink events of \<open>ds\<close>.\<close>

definition up_script :: "bytes list \<Rightarrow> up_event list" where
  "up_script us = map (\<lambda>d. URead (ROk d) True) us @ [URead (ROk []) True]"

definition down_script :: "bytes list \<Rightarrow> down_event list" where
  "down_script ds = map (\<lambda>d. DChunk d None) ds @ [DEof]"

definition total :: "bytes list \<Rightarrow> nat" where
  "total ds = length (concat ds)"

lemma total_simps [simp]: "total [] = 0" "total (d # ds) = length d + total ds"
  by (simp_all add: total_def)

text \<open>What a counter shows of a copy state, when it has one.\<close>

definition counted :: "nat option \<Rightarrow> copy_state \<Rightarrow> (u64 \<times> u64) option" where
  "counted c s = map_option (\<lambda>a. (up (cells (copy_stats s) ! a), down (cells (copy_stats s) ! a))) c"

definition counter_valid :: "nat option \<Rightarrow> copy_state \<Rightarrow> bool" where
  "counter_valid c s \<longleftrightarrow> (\<forall>a. c = Some a \<longrightarrow> a < length (cells (copy_stats s)))"

lemma add_up_nth:
  "a < length (cells s) \<Longrightarrow> up (cells (add_up a n s) ! a) = up (cells s ! a) + n \<and>
     down (cells (add_up a n s) ! a) = down (cells s ! a) \<and> length (cells (add_up a n s)) = length (cells s)"
  by (simp add: add_up_def cell_simps)

lemma add_down_nth:
  "a < length (cells s) \<Longrightarrow> down (cells (add_down a n s) ! a) = down (cells s ! a) + n \<and>
     up (cells (add_down a n s) ! a) = up (cells s ! a) \<and> length (cells (add_down a n s)) = length (cells s)"
  by (simp add: add_down_def cell_simps)

lemma count_up_frame [simp]:
  "link_out (count_up c n s) = link_out s" "conn_out (count_up c n s) = conn_out s"
  "flushes (count_up c n s) = flushes s"
  "counter_valid c s \<Longrightarrow> counter_valid c (count_up c n s)"
  "counter_valid c s \<Longrightarrow> counted c (count_up c n s) = map_option (\<lambda>(u, d). (u + word_of_nat n, d)) (counted c s)"
  by (auto simp: count_up_def counted_def counter_valid_def add_up_nth split: option.splits)

lemma count_down_frame [simp]:
  "link_out (count_down c n s) = link_out s" "conn_out (count_down c n s) = conn_out s"
  "flushes (count_down c n s) = flushes s"
  "counter_valid c s \<Longrightarrow> counter_valid c (count_down c n s)"
  "counter_valid c s \<Longrightarrow> counted c (count_down c n s) = map_option (\<lambda>(u, d). (u, d + word_of_nat n)) (counted c s)"
  by (auto simp: count_down_def counted_def counter_valid_def add_down_nth split: option.splits)

lemma counted_irrelevant [simp]:
  "counted c (s\<lparr>link_out := x\<rparr>) = counted c s" "counted c (s\<lparr>conn_out := y\<rparr>) = counted c s"
  "counted c (s\<lparr>flushes := n\<rparr>) = counted c s"
  "counter_valid c (s\<lparr>link_out := x\<rparr>) = counter_valid c s"
  "counter_valid c (s\<lparr>conn_out := y\<rparr>) = counter_valid c s"
  "counter_valid c (s\<lparr>flushes := n\<rparr>) = counter_valid c s"
  by (simp_all add: counted_def counter_valid_def)

definition copied :: "nat option \<Rightarrow> copy_state \<Rightarrow> bytes list \<Rightarrow> bytes list \<Rightarrow> copy_state \<Rightarrow> bool" where
  "copied c s us ds s' \<longleftrightarrow>
     link_out s' = link_out s @ us \<and> conn_out s' = conn_out s @ concat ds \<and>
     counted c s' = map_option (\<lambda>(u, d). (u + word_of_nat (total us), d + word_of_nat (total ds))) (counted c s)"

lemma copied_refl: "copied c s [] [] s"
  by (simp add: copied_def option.map_ident case_prod_unfold)

lemma copied_trans:
  assumes "copied c s us ds s1" and "copied c s1 us' ds' s2"
  shows "copied c s (us @ us') (ds @ ds') s2"
  using assms
  by (auto simp: copied_def total_def option.map_comp case_prod_unfold o_def algebra_simps
      intro!: option.map_cong)

lemma up_iter_chunk:
  assumes "d \<noteq> []" and "counter_valid c s"
  shows "\<exists>s'. conn_to_link_iter c (URead (ROk d) True) s = (None, s') \<and> copied c s [d] [] s' \<and> counter_valid c s'"
  using assms by (auto simp: conn_to_link_iter_def Let_def copied_def option.map_comp intro!: option.map_cong)

lemma down_iter_chunk:
  assumes "counter_valid c s"
  shows "\<exists>s'. link_to_conn_iter c (DChunk b None) s = (None, s') \<and> copied c s [] [b] s' \<and> counter_valid c s'"
  using assms by (auto simp: link_to_conn_iter_def Let_def copied_def option.map_comp intro!: option.map_cong)

lemma up_iter_eof: "conn_to_link_iter c (URead (ROk []) a) s = (Some (Inr ()), s)"
  by (simp add: conn_to_link_iter_def)

lemma down_iter_eof:
  "\<exists>s'. link_to_conn_iter c DEof s = (Some (Inr ()), s') \<and> copied c s [] [] s' \<and>
     (counter_valid c s \<longrightarrow> counter_valid c s')"
  by (simp add: link_to_conn_iter_def copied_def case_prod_unfold option.map_ident)

lemma up_script_cases:
  "up_script us = e # es \<Longrightarrow>
     us = [] \<and> e = URead (ROk []) True \<and> es = [] \<or>
     (\<exists>d us'. us = d # us' \<and> e = URead (ROk d) True \<and> es = up_script us')"
  by (cases us) (auto simp: up_script_def)

lemma down_script_cases:
  "down_script ds = e # es \<Longrightarrow>
     ds = [] \<and> e = DEof \<and> es = [] \<or> (\<exists>d ds'. ds = d # ds' \<and> e = DChunk d None \<and> es = down_script ds')"
  by (cases ds) (auto simp: down_script_def)

lemma scripts_ne [simp]: "up_script us \<noteq> []" "down_script ds \<noteq> []"
    "[] \<noteq> up_script us" "[] \<noteq> down_script ds"
  by (simp_all add: up_script_def down_script_def)

text \<open>
  Both directions of a clean transfer complete, whatever the interleaving. \<open>p\<close> and \<open>q\<close> say which
  direction is over; its remaining script is empty.
\<close>

lemma try_join_transfer:
  assumes "ups evs = (if p then [] else up_script us)" and "p \<longrightarrow> us = []"
    and "downs evs = (if q then [] else down_script ds)" and "q \<longrightarrow> ds = []"
    and "[] \<notin> set us" and "counter_valid c s"
  shows "\<exists>s'. try_join (conn_to_link_iter c) (link_to_conn_iter c) p q evs s = (Some (Inr ()), s') \<and>
     copied c s us ds s'"
  using assms
proof (induction evs arbitrary: p q us ds s)
  case Nil
  then have "p" "q" "us = []" "ds = []" by (auto split: if_splits)
  then show ?case using copied_refl by simp
next
  case (Cons ev evs)
  show ?case
  proof (cases ev)
    case (Inl e)
    then have p: "\<not> p" "up_script us = e # ups evs" using Cons.prems(1) by (auto split: if_splits)
    from up_script_cases [OF p(2)] show ?thesis
    proof (elim disjE conjE exE)
      assume "us = []" "e = URead (ROk []) True" "ups evs = []"
      then show ?thesis using Cons.IH [of True "[]" q ds s] Cons.prems p Inl
        by (simp add: up_iter_eof)
    next
      fix d us' assume d: "us = d # us'" "e = URead (ROk d) True" "ups evs = up_script us'"
      obtain s1 where s1: "conn_to_link_iter c (URead (ROk d) True) s = (None, s1)" "copied c s [d] [] s1"
        "counter_valid c s1" using up_iter_chunk [of d c s] Cons.prems d by auto
      obtain s2 where "try_join (conn_to_link_iter c) (link_to_conn_iter c) False q evs s1 = (Some (Inr ()), s2)"
        "copied c s1 us' ds s2" using Cons.IH [of False us' q ds s1] Cons.prems d s1 Inl by auto
      then show ?thesis using copied_trans [OF s1(2)] s1(1) p Inl d by fastforce
    qed
  next
    case (Inr e)
    then have q: "\<not> q" "down_script ds = e # downs evs" using Cons.prems(3) by (auto split: if_splits)
    from down_script_cases [OF q(2)] show ?thesis
    proof (elim disjE conjE exE)
      assume d: "ds = []" "e = DEof" "downs evs = []"
      obtain s1 where s1: "link_to_conn_iter c DEof s = (Some (Inr ()), s1)" "copied c s [] [] s1"
        "counter_valid c s1" using down_iter_eof [of c s] Cons.prems by auto
      obtain s2 where "try_join (conn_to_link_iter c) (link_to_conn_iter c) p True evs s1 = (Some (Inr ()), s2)"
        "copied c s1 us [] s2" using Cons.IH [of p us True "[]" s1] Cons.prems d s1 Inr by auto
      then show ?thesis using copied_trans [OF s1(2)] s1(1) q Inr d by fastforce
    next
      fix d ds' assume d: "ds = d # ds'" "e = DChunk d None" "downs evs = down_script ds'"
      obtain s1 where s1: "link_to_conn_iter c (DChunk d None) s = (None, s1)" "copied c s [] [d] s1"
        "counter_valid c s1" using down_iter_chunk [of c s d] Cons.prems by auto
      obtain s2 where "try_join (conn_to_link_iter c) (link_to_conn_iter c) p False evs s1 = (Some (Inr ()), s2)"
        "copied c s1 us ds' s2" using Cons.IH [of p us False ds' s1] Cons.prems d s1 Inr by auto
      then show ?thesis using copied_trans [OF s1(2)] s1(1) q Inr d by fastforce
    qed
  qed
qed

text \<open>
  C8: A relay of a session transfers exactly what it should, for every interleaving of the two
  directions: the link receives the payload that came with the header followed by the bytes the
  client sends, the client receives the bytes of the outbound, in order and complete, and the
  user's counter grows by exactly those amounts (modulo $2^{64}$).
\<close>

theorem relay_transfers:
  assumes "ups evs = up_script us" and "downs evs = down_script ds" and "[] \<notin> set us"
    and "a < length (cells st)"
  shows "\<exists>s'. relay_stream (Some a) leftover True evs (copy_init st) = (Some (Inr ()), s') \<and>
     concat (link_out s') = leftover @ concat us \<and> conn_out s' = concat ds \<and>
     counter_up a (copy_stats s') = counter_up a st + word_of_nat (length leftover + total us) \<and>
     counter_down a (copy_stats s') = counter_down a st + word_of_nat (total ds)"
proof -
  define s where "s = (if leftover = [] then copy_init st
     else (count_up (Some a) (length leftover) (copy_init st))\<lparr>link_out := [leftover]\<rparr>)"
  have init: "counter_valid (Some a) (copy_init st)"
    "counted (Some a) (copy_init st) = Some (counter_up a st, counter_down a st)"
    using assms(4) by (simp_all add: copy_init_def counter_valid_def counted_def counter_up_def counter_down_def)
  then have s: "counter_valid (Some a) s" "concat (link_out s) = leftover" "conn_out s = []"
    "counted (Some a) s = Some (counter_up a st + word_of_nat (length leftover), counter_down a st)"
    by (auto simp: s_def copy_init_def)
  have run: "relay_stream (Some a) leftover True evs (copy_init st) =
      try_join (conn_to_link_iter (Some a)) (link_to_conn_iter (Some a)) False False evs s"
    by (simp add: relay_stream_def s_def Let_def copy_init_def)
  obtain s' where s': "relay_stream (Some a) leftover True evs (copy_init st) = (Some (Inr ()), s')"
    "copied (Some a) s us ds s'"
    using try_join_transfer [of evs False us False ds "Some a" s] assms s(1) run by auto
  moreover have "counted (Some a) s' = Some (counter_up a (copy_stats s'), counter_down a (copy_stats s'))"
    by (simp add: counted_def counter_up_def counter_down_def)
  ultimately show ?thesis using s by (auto simp: copied_def algebra_simps)
qed

lemma relay_transfers_witness:
  "\<exists>s'. relay_stream (Some 0) [1, 2] True
        [Inl (URead (ROk [3]) True), Inr (DChunk [9, 8] None), Inr DEof, Inl (URead (ROk []) True)]
        (copy_init (snd (stats_counter ''u'' stats_new))) = (Some (Inr ()), s') \<and>
     concat (link_out s') = [1, 2, 3] \<and> conn_out s' = [9, 8]"
proof -
  have "0 < length (cells (snd (stats_counter ''u'' stats_new)))" by code_simp
  from relay_transfers [of "[Inl (URead (ROk [3]) True), Inr (DChunk [9, 8] None), Inr DEof, Inl (URead (ROk []) True)]"
      "[[3]]" "[[9, 8]]" 0 _ "[1, 2]", OF _ _ _ this]
  show ?thesis by (auto simp: up_script_def down_script_def)
qed

section \<open>What is forwarded is what was read\<close>

definition read_bytes :: "up_event list \<Rightarrow> bytes" where
  "read_bytes es = concat (map (\<lambda>e. case e of URead (ROk d) _ \<Rightarrow> d | _ \<Rightarrow> []) es)"

definition chunk_bytes :: "down_event list \<Rightarrow> bytes" where
  "chunk_bytes es = concat (map (\<lambda>e. case e of DChunk d _ \<Rightarrow> d | _ \<Rightarrow> []) es)"

lemma forwarded_simps [simp]:
  "read_bytes [] = []" "read_bytes (e # es) = (case e of URead (ROk d) _ \<Rightarrow> d | _ \<Rightarrow> []) @ read_bytes es"
  "chunk_bytes [] = []" "chunk_bytes (e' # es') = (case e' of DChunk d _ \<Rightarrow> d | _ \<Rightarrow> []) @ chunk_bytes es'"
  by (simp_all add: read_bytes_def chunk_bytes_def)

lemma try_join_Nil: "fst (try_join f g p q [] s) \<in> {None, Some (Inr ())} \<and> snd (try_join f g p q [] s) = s"
  by (cases p; cases q) simp_all

lemma try_join_up:
  "\<not> p \<Longrightarrow> f e s = (r1, s1) \<Longrightarrow> try_join f g p q (Inl e # evs) s =
     (case r1 of Some (Inl err) \<Rightarrow> (Some (Inl err), s1) | Some (Inr _) \<Rightarrow> try_join f g True q evs s1
      | None \<Rightarrow> try_join f g p q evs s1)"
  by (cases p) (simp_all split: option.splits sum.splits)

lemma try_join_down:
  "\<not> q \<Longrightarrow> g e s = (r1, s1) \<Longrightarrow> try_join f g p q (Inr e # evs) s =
     (case r1 of Some (Inl err) \<Rightarrow> (Some (Inl err), s1) | Some (Inr _) \<Rightarrow> try_join f g p True evs s1
      | None \<Rightarrow> try_join f g p q evs s1)"
  by (cases p; cases q) (simp_all split: option.splits sum.splits)

lemma try_join_over:
  "p \<Longrightarrow> q \<Longrightarrow> try_join f g p q evs s = (Some (Inr ()), s)"
  "p \<Longrightarrow> \<not> q \<Longrightarrow> try_join f g p q (Inl e # evs) s = try_join f g p q evs s"
  "\<not> p \<Longrightarrow> q \<Longrightarrow> try_join f g p q (Inr e' # evs) s = try_join f g p q evs s"
  by (cases p; cases q; simp)+

text \<open>Everything put on the link so far is a prefix of what was read, and likewise downwards.\<close>

definition forwards :: "bool \<Rightarrow> bytes \<Rightarrow> bytes \<Rightarrow> bytes \<Rightarrow> bool" where
  "forwards over before input after \<longleftrightarrow>
     (\<exists>x y. after = before @ x \<and> input = x @ y \<and> (over \<longrightarrow> x = []))"

lemma forwards_refl [simp]: "forwards over b i b"
  by (auto simp: forwards_def)

lemma up_iter_forward:
  "conn_to_link_iter c e s = (r, s') \<Longrightarrow> conn_out s' = conn_out s \<and>
     forwards False (concat (link_out s)) (read_bytes [e]) (concat (link_out s')) \<and>
     (r = None \<longrightarrow> concat (link_out s') = concat (link_out s) @ read_bytes [e])"
  by (cases e)
     (auto simp: conn_to_link_iter_def Let_def forwards_def split: read_event.splits if_splits)

lemma down_iter_forward:
  "link_to_conn_iter c e s = (r, s') \<Longrightarrow> link_out s' = link_out s \<and>
     forwards False (conn_out s) (chunk_bytes [e]) (conn_out s') \<and>
     (r = None \<longrightarrow> conn_out s' = conn_out s @ chunk_bytes [e])"
  by (cases e) (auto simp: link_to_conn_iter_def Let_def forwards_def split: option.splits)

lemma forwards_over: "forwards True b i a \<longleftrightarrow> a = b"
  by (auto simp: forwards_def)

lemma forwards_append: "forwards over (b @ x) i a \<Longrightarrow> forwards False b (x @ i) a"
  by (auto simp: forwards_def)

lemma forwards_drop: "forwards over b x a \<Longrightarrow> forwards over b (x @ i) a"
  by (auto simp: forwards_def)

lemma try_join_forwards:
  assumes "try_join (conn_to_link_iter c) (link_to_conn_iter c) p q evs s = (r, s')"
  shows "forwards p (concat (link_out s)) (read_bytes (ups evs)) (concat (link_out s')) \<and>
     forwards q (conn_out s) (chunk_bytes (downs evs)) (conn_out s')"
  using assms
proof (induction evs arbitrary: p q s)
  case Nil
  then have "s' = s" using try_join_Nil [of "conn_to_link_iter c" "link_to_conn_iter c" p q s] by simp
  then show ?case by simp
next
  case (Cons ev evs)
  show ?case
  proof (cases "p \<and> q")
    case True
    then show ?thesis using Cons.prems by (simp add: try_join_over(1))
  next
    case live: False
    show ?thesis
    proof (cases ev)
      case (Inl e)
      show ?thesis
      proof (cases p)
        case True
        then have "try_join (conn_to_link_iter c) (link_to_conn_iter c) p q evs s = (r, s')"
          using Cons.prems live Inl by (simp add: try_join_over(2))
        from Cons.IH [OF this] show ?thesis using Inl True by (simp add: forwards_over)
      next
        case False
        obtain r1 s1 where i: "conn_to_link_iter c e s = (r1, s1)" by fastforce
        note f = up_iter_forward [OF i]
        have "case r1 of Some (Inl err) \<Rightarrow> s' = s1
            | Some (Inr _) \<Rightarrow> try_join (conn_to_link_iter c) (link_to_conn_iter c) True q evs s1 = (r, s')
            | None \<Rightarrow> try_join (conn_to_link_iter c) (link_to_conn_iter c) p q evs s1 = (r, s')"
          using Cons.prems Inl
          by (simp add: try_join_up [where f = "conn_to_link_iter c", OF False i] split: option.splits sum.splits)
        then show ?thesis using f Cons.IH [of True q s1] Cons.IH [of p q s1] Inl False
          by (auto simp: forwards_over dest: forwards_append forwards_drop [of _ _ _ _ "read_bytes (ups evs)"]
              split: option.splits sum.splits)
      qed
    next
      case (Inr e)
      show ?thesis
      proof (cases q)
        case True
        then have "try_join (conn_to_link_iter c) (link_to_conn_iter c) p q evs s = (r, s')"
          using Cons.prems live Inr by (simp add: try_join_over(3))
        from Cons.IH [OF this] show ?thesis using Inr True by (simp add: forwards_over)
      next
        case False
        obtain r1 s1 where i: "link_to_conn_iter c e s = (r1, s1)" by fastforce
        note f = down_iter_forward [OF i]
        have "case r1 of Some (Inl err) \<Rightarrow> s' = s1
            | Some (Inr _) \<Rightarrow> try_join (conn_to_link_iter c) (link_to_conn_iter c) p True evs s1 = (r, s')
            | None \<Rightarrow> try_join (conn_to_link_iter c) (link_to_conn_iter c) p q evs s1 = (r, s')"
          using Cons.prems Inr
          by (simp add: try_join_down [where g = "link_to_conn_iter c", OF False i] split: option.splits sum.splits)
        then show ?thesis using f Cons.IH [of p True s1] Cons.IH [of p q s1] Inr False
          by (auto simp: forwards_over dest: forwards_append forwards_drop [of _ _ _ _ "chunk_bytes (downs evs)"]
              split: option.splits sum.splits)
      qed
    qed
  qed
qed

text \<open>
  Whatever happens to a relay (errors, the idle timeout, a peer that goes away, any interleaving),
  the link has received a prefix of the header's payload followed by the bytes read from the client,
  and the client has received a prefix of the chunks of the link: nothing is reordered, duplicated
  or made up.
\<close>

lemma relay_forwards:
  assumes "relay_stream c leftover accepted evs (copy_init st) = (r, s')"
  shows "\<exists>y z. leftover @ read_bytes (ups evs) = concat (link_out s') @ y \<and>
     chunk_bytes (downs evs) = conn_out s' @ z"
proof (cases "leftover = [] \<or> accepted")
  case True
  define s where "s = (if leftover = [] then copy_init st
     else (count_up c (length leftover) (copy_init st))\<lparr>link_out := [leftover]\<rparr>)"
  have "try_join (conn_to_link_iter c) (link_to_conn_iter c) False False evs s = (r, s')"
    using assms True by (auto simp: relay_stream_def s_def Let_def copy_init_def)
  from try_join_forwards [OF this] show ?thesis
    by (auto simp: forwards_def s_def copy_init_def)
next
  case False
  then have "try_join (conn_to_link_iter c) (link_to_conn_iter c) True False evs
      (count_up c (length leftover) (copy_init st)) = (r, s')"
    using assms by (simp add: relay_stream_def Let_def)
  from try_join_forwards [OF this] show ?thesis
    by (auto simp: forwards_def copy_init_def simp del: concat_eq_Nil_conv)
qed

lemma relay_forwards_witness:
  "\<exists>y z. [1] @ read_bytes (ups [Inl (URead (ROk [2]) False), Inr (DChunk [5] (Some idle_err))]) =
        concat (link_out (snd (relay_stream None [1] True
          [Inl (URead (ROk [2]) False), Inr (DChunk [5] (Some idle_err))] (copy_init stats_new)))) @ y \<and>
     chunk_bytes (downs [Inl (URead (ROk [2]) False), Inr (DChunk [5] (Some idle_err))]) =
        conn_out (snd (relay_stream None [1] True
          [Inl (URead (ROk [2]) False), Inr (DChunk [5] (Some idle_err))] (copy_init stats_new))) @ z"
  by (rule relay_forwards [OF prod.collapse [symmetric]])

text \<open>
  The idle timer of a connection cancels it exactly when its background task wakes up a full idle
  period after the last activity (or after the start), and not before.
\<close>

lemma timer_idle_period:
  assumes "\<not> cancelled (timer_run es (timer_new i t0))"
  shows "cancelled (timer_run (es @ [TWake now]) (timer_new i t0)) \<longleftrightarrow> last_update t0 es + i \<le> now"
  using assms timer_run_deadline [of es i t0]
  by (simp add: timer_run_def) (simp add: timer_step_def)

lemma timer_idle_period_witness:
  "cancelled (timer_run ([TWake 300, TUpdate 310] @ [TWake 610]) (timer_new 300 10)) \<longleftrightarrow>
     last_update 10 [TWake 300, TUpdate 310] + 300 \<le> 610"
  using timer_idle_period [of "[TWake 300, TUpdate 310]" 300 10 610]
  by (simp add: timer_run_def timer_step_def timer_new_def)

end
