(* ===== verification/ProxyIo.thy ===== *)
theory ProxyIo
  imports Copy Net Sniff
begin

text \<open>
  The connection a decoder works on, the decision it returns, and the helpers of proxy/src/io.rs that
  the decoders share. A connection is the list of what its reads return, the bytes written to it so
  far and the outcomes of its next writes (\<open>None\<close> is success; when the list is empty writes succeed).
  A read into a buffer of \<open>k\<close> bytes takes at most \<open>k\<close> bytes of the next event and leaves the rest.
\<close>

section \<open>Connections\<close>

record conn =
  reads :: "read_event list"
  sent :: bytes
  write_outcomes :: "io_error option list"

text \<open>
  \<open>write_all\<close> succeeds with all bytes written or fails; how much of them a failing call had written before is not
  kept, since every caller gives the connection up then.
\<close>

definition write_all :: "bytes \<Rightarrow> conn \<Rightarrow> unit io_result \<times> conn" where
  "write_all bs c = (case write_outcomes c of
     [] \<Rightarrow> (Inr (), c\<lparr>sent := sent c @ bs\<rparr>)
   | None # ws \<Rightarrow> (Inr (), c\<lparr>sent := sent c @ bs, write_outcomes := ws\<rparr>)
   | Some e # ws \<Rightarrow> (Inl e, c\<lparr>write_outcomes := ws\<rparr>))"

text \<open>
  \<open>AsyncReadExt::read_exact\<close>: it reads until \<open>n\<close> bytes have arrived, however many reads that takes;
  end of file before that is an error, and \<open>None\<close> means that it waits for ever.
\<close>

fun read_exact_events ::
  "nat \<Rightarrow> bytes \<Rightarrow> read_event list \<Rightarrow> (bytes io_result \<times> read_event list) option" where
  "read_exact_events n acc evs =
     (if n \<le> length acc then Some (Inr acc, evs)
      else case evs of
        [] \<Rightarrow> None
      | RErr e # evs' \<Rightarrow> Some (Inl e, evs')
      | ROk d # evs' \<Rightarrow>
          if d = [] then Some (Inl (IoMsg UnexpectedEof ''early eof''), evs')
          else if length d \<le> n - length acc then read_exact_events n (acc @ d) evs'
          else Some (Inr (acc @ take (n - length acc) d), ROk (drop (n - length acc) d) # evs'))"

declare read_exact_events.simps [simp del]

definition read_exact :: "nat \<Rightarrow> conn \<Rightarrow> (bytes io_result \<times> conn) option" where
  "read_exact n c =
     map_option (\<lambda>(r, evs). (r, c\<lparr>reads := evs\<rparr>)) (read_exact_events n [] (reads c))"

section \<open>Decisions\<close>

text \<open>
  What a decoder hands on: a flow for the router, whose link is fed by a spawned \<open>relay_stream\<close> with the
  given counter and leftover (\<open>RelayStream\<close>), by a framed relay (\<open>RelayFramed\<close>), or is already at end
  of file (\<open>NoLink\<close>).
\<close>

datatype link = NoLink | RelayStream "nat option" bytes | RelayFramed "nat option" bytes

record proxy_decision =
  pd_target :: destination
  pd_ctx :: ctx
  pd_link :: link

definition noop_decision :: "ctx \<Rightarrow> proxy_decision" where
  "noop_decision c =
     \<lparr>pd_target = \<lparr>network = Unknown, address = Ip (V4 0), port = 0\<rparr>, pd_ctx = c, pd_link = NoLink\<rparr>"

definition sniff_override :: "destination \<Rightarrow> bytes \<Rightarrow> destination" where
  "sniff_override target leftover =
     (if is_ip (address target) \<and> leftover \<noteq> [] then
        (case sniff leftover of
           Some (_, domain) \<Rightarrow> target\<lparr>address := Domain domain\<rparr>
         | None \<Rightarrow> target)
      else target)"

definition user_counter :: "ctx \<Rightarrow> stats option \<Rightarrow> nat option \<times> stats option" where
  "user_counter c st = (case (user_email c, st) of
     (Some email, Some s) \<Rightarrow> (case stats_counter email s of (a, s') \<Rightarrow> (Some a, Some s'))
   | _ \<Rightarrow> (None, st))"

section \<open>Lemmas\<close>

lemma read_exact_events_enough:
  assumes "length acc \<le> n" and "n \<le> length (acc @ concat ds)" and "[] \<notin> set ds"
  shows "\<exists>evs'. read_exact_events n acc (map ROk ds @ evs) = Some (Inr (take n (acc @ concat ds)), evs') \<and>
     (\<exists>ds'. evs' = map ROk ds' @ evs \<and> [] \<notin> set ds' \<and> concat ds' = drop n (acc @ concat ds))"
  using assms
proof (induction ds arbitrary: acc)
  case Nil
  then show ?case by (intro exI [of _ evs]) (simp add: read_exact_events.simps)
next
  case (Cons d ds)
  show ?case
  proof (cases "n \<le> length acc")
    case True
    then show ?thesis using Cons.prems
      by (intro exI [of _ "map ROk (d # ds) @ evs"])
         (auto simp: read_exact_events.simps [of _ acc] intro!: exI [of _ "d # ds"])
  next
    case False
    show ?thesis
    proof (cases "length d \<le> n - length acc")
      case True
      then show ?thesis using Cons.IH [of "acc @ d"] Cons.prems False
        by (auto simp: read_exact_events.simps [of n acc])
    next
      case short: False
      then show ?thesis using Cons.prems False
        by (auto simp: read_exact_events.simps [of n acc] intro!: exI [of _ "drop (n - length acc) d # ds"])
    qed
  qed
qed

text \<open>
  Reading from a script of non-empty chunks: the bytes come out whatever the cut. What follows the bytes
  (the events \<open>evs\<close>) is left alone.
\<close>

definition delivers_then :: "conn \<Rightarrow> bytes \<Rightarrow> read_event list \<Rightarrow> bool" where
  "delivers_then c bs evs \<longleftrightarrow> (\<exists>ds. reads c = map ROk ds @ evs \<and> [] \<notin> set ds \<and> concat ds = bs)"

abbreviation delivers :: "conn \<Rightarrow> bytes \<Rightarrow> bool" where
  "delivers c bs \<equiv> delivers_then c bs []"

lemma read_exact_delivers:
  assumes "delivers_then c bs evs" and "n \<le> length bs"
  obtains c' where "read_exact n c = Some (Inr (take n bs), c')" "delivers_then c' (drop n bs) evs"
    "sent c' = sent c" "write_outcomes c' = write_outcomes c"
proof -
  obtain ds where ds: "reads c = map ROk ds @ evs" "[] \<notin> set ds" "concat ds = bs"
    using assms(1) by (auto simp: delivers_then_def)
  from read_exact_events_enough [of "[]" n ds evs] ds assms(2)
  obtain ds' where "read_exact_events n [] (reads c) = Some (Inr (take n bs), map ROk ds' @ evs)"
    "[] \<notin> set ds'" "concat ds' = drop n bs" by auto
  then show thesis by (intro that [of "c\<lparr>reads := map ROk ds' @ evs\<rparr>"]) (auto simp: read_exact_def delivers_then_def)
qed

lemma write_all_ok: "write_outcomes c = [] \<Longrightarrow> write_all bs c = (Inr (), c\<lparr>sent := sent c @ bs\<rparr>)"
  by (simp add: write_all_def)

lemma delivers_sent [simp]: "delivers_then (c\<lparr>sent := x\<rparr>) bs evs = delivers_then c bs evs"
  by (simp add: delivers_then_def)

lemma noop_not_valid: "\<not> is_valid (pd_target (noop_decision c))"
  by (simp add: noop_decision_def is_valid_def)

lemma sniff_override_frame:
  "network (sniff_override d l) = network d" "port (sniff_override d l) = port d"
  by (auto simp: sniff_override_def split: option.splits)

lemma sniff_override_domain: "\<not> is_ip (address d) \<Longrightarrow> sniff_override d l = d"
  by (simp add: sniff_override_def)

lemma user_counter_ok:
  assumes "stats_ok s" and "user_email c = Some t"
  shows "\<exists>a s'. user_counter c (Some s) = (Some a, Some s') \<and> stats_ok s' \<and>
     a < length (cells s') \<and> stat_users s' t = Some a \<and> tag (cells s' ! a) = t"
proof -
  obtain a s' where r: "stats_counter t s = (a, s')" by fastforce
  then have "stat_users s' t = Some a" by (auto simp: stats_counter_def split: option.splits)
  moreover have "stats_ok s'" "a < length (cells s')" using stats_counter_ok [OF assms(1), of t] r by auto
  moreover have "tag (cells s' ! a) = t" using calculation by (auto simp: stats_ok_def)
  ultimately show ?thesis using assms(2) r by (auto simp: user_counter_def)
qed

text \<open>A fresh connection and session, for examples.\<close>

definition empty_conn :: "read_event list \<Rightarrow> conn" where
  "empty_conn evs = \<lparr>reads = evs, sent = [], write_outcomes = []\<rparr>"

definition sample_ctx :: ctx where
  "sample_ctx = fst (ctx_new 1 ''in'' None)"

end
