(* ===== verification/Vless.thy ===== *)
theory Vless
  imports ProxyIo
begin

text \<open>
  proxy/src/vless.rs: the user table, the request header and the inbound handler. The flows the
  decoder services itself (UDP and mux) are handed over as values of \<open>vless_flow\<close>; their relays are
  the subject of the theories \<open>UdpRelay\<close> and \<open>Mux\<close>, and when one ends without an error the decoder
  returns \<open>noop_decision\<close>.
\<close>

section \<open>Users\<close>

record vless_user =
  vl_id :: bytes
  vl_email :: string
  vl_level :: u32

type_synonym vless_users = "bytes \<rightharpoonup> vless_user"

definition vless_users_new :: "(bytes \<times> string \<times> u32) list \<Rightarrow> vless_users" where
  "vless_users_new us =
     foldl (\<lambda>m (uid, email, level). m(uid \<mapsto> \<lparr>vl_id = uid, vl_email = email, vl_level = level\<rparr>)) Map.empty us"

definition vless_get :: "vless_users \<Rightarrow> bytes \<Rightarrow> vless_user option" where
  "vless_get us uid = (if length uid = 16 then us uid else None)"

section \<open>The request header\<close>

definition VLESS_CMD_TCP :: byte where "VLESS_CMD_TCP = 1"
definition VLESS_CMD_UDP :: byte where "VLESS_CMD_UDP = 2"
definition VLESS_CMD_MUX :: byte where "VLESS_CMD_MUX = 3"

datatype vless_req = VTcp destination | VUdp destination | VMux

text \<open>The last step, the match on the command byte.\<close>

definition vless_command :: "vless_user \<Rightarrow> byte \<Rightarrow> (vless_req \<times> string) codec" where
  "vless_command user cmd =
     (if cmd = VLESS_CMD_TCP then
        pbind (codec_read VLESS) (\<lambda>(a, p). preturn (VTcp (dest_tcp a p), vl_email user))
      else if cmd = VLESS_CMD_UDP then
        pbind (codec_read VLESS) (\<lambda>(a, p). preturn (VUdp (dest_udp a p), vl_email user))
      else if cmd = VLESS_CMD_MUX then preturn (VMux, vl_email user)
      else pfail (Protocol ''vless command''))"

definition vless_parse :: "vless_users \<Rightarrow> (vless_req \<times> string) codec" where
  "vless_parse users =
     pbind take_u8 (\<lambda>ver.
     if ver \<noteq> 0 then pfail (Protocol ''vless version'')
     else pbind (take_n 16) (\<lambda>uid.
       pbind (plift (ok_or (vless_get users uid) Auth)) (\<lambda>user.
       pbind take_u8 (\<lambda>addon_len.
       pbind (if 0 < unat addon_len then take_n (unat addon_len) else preturn []) (\<lambda>_.
       pbind take_u8 (vless_command user))))))"

section \<open>The handler\<close>

datatype vless_flow =
    VlRoute proxy_decision
  | VlUdpRelay destination bytes ctx "nat option"
  | VlMuxServe bytes ctx

definition vless_networks :: "network list" where
  "vless_networks = [Tcp, Udp]"

text \<open>\<open>Vless::decode\<close>: the result, the connection and the statistics afterwards.\<close>

definition vless_decode ::
  "vless_users \<Rightarrow> stats option \<Rightarrow> ctx \<Rightarrow> conn \<Rightarrow> vless_flow io_result \<times> conn \<times> stats option" where
  "vless_decode users st cx c =
     (case read_header 16384 (vless_parse users) (reads c) of
        (Inl e, evs) \<Rightarrow> (Inl e, c\<lparr>reads := evs\<rparr>, st)
      | (Inr ((req, email), leftover), evs) \<Rightarrow>
        (case write_all [0, 0] (c\<lparr>reads := evs\<rparr>) of
           (Inl e, c') \<Rightarrow> (Inl e, c', st)
         | (Inr _, c') \<Rightarrow>
             let cx' = with_user cx email (user_hash (bytes_of_string email))
             in case user_counter cx' st of (counter, st') \<Rightarrow>
               (Inr (case req of
                  VTcp dest \<Rightarrow> VlRoute \<lparr>pd_target = sniff_override dest leftover, pd_ctx = cx',
                                  pd_link = RelayStream counter leftover\<rparr>
                | VUdp dest \<Rightarrow> VlUdpRelay dest leftover cx' counter
                | VMux \<Rightarrow> VlMuxServe leftover cx'), c', st')))"

text \<open>The decision once a flow is over: a self-serviced one leaves nothing to route.\<close>

definition vless_decision :: "vless_flow \<Rightarrow> proxy_decision" where
  "vless_decision f = (case f of
     VlRoute d \<Rightarrow> d | VlUdpRelay _ _ cx _ \<Rightarrow> noop_decision cx | VlMuxServe _ cx \<Rightarrow> noop_decision cx)"

section \<open>The header a client sends\<close>

definition vless_request :: "bytes \<Rightarrow> bytes \<Rightarrow> byte \<Rightarrow> bytes \<Rightarrow> bytes" where
  "vless_request uid addons cmd tail =
     0 # uid @ word_of_nat (length addons) # addons @ cmd # tail"

section \<open>Lemmas\<close>

lemma incremental_vless_command [inc_intros]: "incremental_codec (vless_command u cmd)"
  unfolding vless_command_def by (auto simp: case_prod_unfold intro!: inc_intros)

lemma incremental_vless_parse [inc_intros]: "incremental_codec (vless_parse users)"
  unfolding vless_parse_def by (intro inc_intros)

interpretation vless_codec: header_codec "vless_parse users" for users
  by unfold_locales (rule incremental_vless_parse)

lemma vless_addons: "(if 0 < n then take_n n else preturn []) = take_n n"
  by (auto simp: take_n_def fun_eq_iff)

lemma vless_parse_request:
  assumes "vless_get users uid = Some u" and "length addons \<le> 255"
  shows "vless_parse users (vless_request uid addons cmd tail) = vless_command u cmd tail"
proof -
  have "length uid = 16" using assms(1) by (auto simp: vless_get_def split: if_splits)
  then show ?thesis using assms by (simp add: unat_of_nat vless_addons vless_parse_def vless_request_def pbind_def)
qed

text \<open>A request that is accepted carries the identifier of a user.\<close>

lemma vless_parse_auth:
  assumes "vless_parse users bs = Inr ((req, email), r)"
  shows "\<exists>uid u addons cmd tail. bs = vless_request uid addons cmd tail \<and> length addons \<le> 255 \<and>
     vless_get users uid = Some u \<and> email = vl_email u \<and> cmd \<in> {VLESS_CMD_TCP, VLESS_CMD_UDP, VLESS_CMD_MUX}"
proof -
  from assms [unfolded vless_parse_def] obtain ver r1 where 1: "bs = ver # r1" "ver = 0"
    "pbind (take_n 16) (\<lambda>uid.
       pbind (plift (ok_or (vless_get users uid) Auth)) (\<lambda>user.
       pbind take_u8 (\<lambda>addon_len.
       pbind (if 0 < unat addon_len then take_n (unat addon_len) else preturn []) (\<lambda>_.
       pbind take_u8 (vless_command user))))) r1 = Inr ((req, email), r)"
    by (auto simp: take_u8_Inr split: if_splits elim!: pbindE)
  from 1(3) obtain uid r2 u n r3 addons r4 cmd tail where "r1 = uid @ r2" "r2 = n # r3"
    "r3 = addons @ r4" "r4 = cmd # tail" and 2: "vless_get users uid = Some u"
    "length addons = unat n" "vless_command u cmd tail = Inr ((req, email), r)"
    unfolding vless_addons codec_inversion ok_or_Inr by blast
  then have r1: "r1 = uid @ n # addons @ cmd # tail" by simp
  have n: "n = word_of_nat (length addons)" using 2(2) by simp
  have len: "length addons \<le> 255" using 2(2) unat_byte_bound [of n] by linarith
  have "email = vl_email u \<and> cmd \<in> {VLESS_CMD_TCP, VLESS_CMD_UDP, VLESS_CMD_MUX}"
    using 2(3) by (auto simp: vless_command_def split: if_splits elim!: pbindE)
  then show ?thesis using 1(1,2) r1 2(1) n len
    by (intro exI [of _ uid] exI [of _ u] exI [of _ addons] exI [of _ cmd] exI [of _ tail])
       (simp add: vless_request_def)
qed

definition vless_flow_ctx :: "vless_flow \<Rightarrow> ctx" where
  "vless_flow_ctx f = (case f of VlRoute d \<Rightarrow> pd_ctx d | VlUdpRelay _ _ cx _ \<Rightarrow> cx | VlMuxServe _ cx \<Rightarrow> cx)"

lemma vless_decode_Inr:
  assumes "vless_decode users st cx c = (Inr f, c', st')"
  obtains req email leftover evs where
    "read_header 16384 (vless_parse users) (reads c) = (Inr ((req, email), leftover), evs)"
    "reads c' = evs" "sent c' = sent c @ [0, 0]"
    "vless_flow_ctx f = with_user cx email (user_hash (bytes_of_string email))"
  using assms
  by (auto simp: vless_decode_def vless_flow_ctx_def write_all_def Let_def
      split: prod.splits sum.splits list.splits option.splits vless_req.splits)

text \<open>
  C9: Every client that sends a VLESS TCP request of a registered user is served, however the network
  cuts the bytes into reads: the response header is written, the flow goes to the requested target
  (or to the host name sniffed from the payload), it is attributed to that user, and the payload
  behind the header is passed on without loss.
\<close>

theorem vless_serves_tcp:
  assumes "vless_get users uid = Some u" and "length addons \<le> 255" and "canonical_addr a"
    and "reads c = map ROk ds" and "[] \<notin> set ds" and "write_outcomes c = []"
    and "concat ds = vless_request uid addons VLESS_CMD_TCP (be16 p @ addr_wire VLESS a) @ payload"
  shows "\<exists>leftover k counter st' c'.
     vless_decode users st cx c =
       (Inr (VlRoute \<lparr>pd_target = sniff_override (dest_tcp a p) leftover,
          pd_ctx = with_user cx (vl_email u) (user_hash (bytes_of_string (vl_email u))),
          pd_link = RelayStream counter leftover\<rparr>), c', st') \<and>
     sent c' = sent c @ [0, 0] \<and> reads c' = map ROk (drop k ds) \<and>
     leftover @ concat (drop k ds) = payload"
proof -
  let ?cx = "with_user cx (vl_email u) (user_hash (bytes_of_string (vl_email u)))"
  have "codec_read VLESS (be16 p @ addr_wire VLESS a @ payload) = Inr ((a, p), payload)"
    using codec_read_wire [OF assms(3), of VLESS p payload] by (simp add: VLESS_def)
  then have parse: "vless_parse users (concat ds) = Inr ((VTcp (dest_tcp a p), vl_email u), payload)"
    using vless_parse_request [OF assms(1,2), of VLESS_CMD_TCP "be16 p @ addr_wire VLESS a @ payload"] assms(7)
    by (simp add: vless_request_def vless_command_def pbind_Inr)
  have "length uid = 16" using assms(1) by (auto simp: vless_get_def split: if_splits)
  moreover have "length (addr_wire VLESS a) \<le> 257"
    using assms(3) by (auto simp: addr_wire_def canonical_addr_def split: address.splits ip_addr.splits)
  ultimately have "length (concat ds) \<le> 16384 + length payload"
    using assms(2,7) by (simp add: vless_request_def)
  from vless_codec.header_complete [OF parse this, of "[]"] assms(5)
  obtain k left where h: "read_header 16384 (vless_parse users) (reads c) =
      (Inr ((VTcp (dest_tcp a p), vl_email u), left), map ROk (drop k ds))"
    "left @ concat (drop k ds) = payload" using assms(4) by auto
  obtain counter st' where uc: "user_counter ?cx st = (counter, st')" by fastforce
  show ?thesis
    using h uc assms(6)
    by (intro exI [of _ left] exI [of _ k] exI [of _ counter] exI [of _ st']
        exI [of _ "c\<lparr>reads := map ROk (drop k ds), sent := sent c @ [0, 0]\<rparr>"])
       (simp add: vless_decode_def write_all_def Let_def)
qed

definition sample_uuid :: bytes where
  "sample_uuid = replicate 16 0xAB"

definition sample_vless :: vless_users where
  "sample_vless = vless_users_new [(sample_uuid, ''node|alice|7'', 0)]"

lemma sample_vless_get:
  "vless_get sample_vless sample_uuid = Some \<lparr>vl_id = sample_uuid, vl_email = ''node|alice|7'', vl_level = 0\<rparr>"
  by code_simp

lemma vless_serves_tcp_witness:
  "\<exists>leftover k counter st' c'.
     vless_decode sample_vless None sample_ctx
       (empty_conn [ROk (0 # sample_uuid @ [0, 1]), ROk ([1, 187, 1] @ [10, 0, 0, 1] @ [7, 8])]) =
       (Inr (VlRoute \<lparr>pd_target = sniff_override (dest_tcp (Ip (V4 0x0A000001)) 443) leftover,
          pd_ctx = with_user sample_ctx ''node|alice|7'' (user_hash (bytes_of_string ''node|alice|7'')),
          pd_link = RelayStream counter leftover\<rparr>), c', st') \<and>
     sent c' = [0, 0] \<and> leftover @ concat (drop k [0 # sample_uuid @ [0, 1], [1, 187, 1] @ [10, 0, 0, 1] @ [7, 8]]) = [7, 8]"
proof -
  let ?ds = "[0 # sample_uuid @ [0, 1], [1, 187, 1] @ [10, 0, 0, 1] @ [7, 8]]"
  have a: "canonical_addr (Ip (V4 0x0A000001))" by (simp add: canonical_addr_def)
  have w: "concat ?ds = vless_request sample_uuid [] VLESS_CMD_TCP
      (be16 443 @ addr_wire VLESS (Ip (V4 0x0A000001))) @ [7, 8]" by code_simp
  show ?thesis
    using vless_serves_tcp [OF sample_vless_get _ a _ _ _ w, of "empty_conn (map ROk ?ds)" None sample_ctx]
    by (auto simp: empty_conn_def)
qed

lemma vless_users_fold:
  "foldl (\<lambda>m (uid, email, level). m(uid \<mapsto> \<lparr>vl_id = uid, vl_email = email, vl_level = level\<rparr>)) m us k =
   (case find (\<lambda>(uid, _). uid = k) (rev us) of
      Some (uid, email, level) \<Rightarrow> Some \<lparr>vl_id = uid, vl_email = email, vl_level = level\<rparr> | None \<Rightarrow> m k)"
  by (induction us rule: rev_induct) (auto split: prod.splits)

lemma vless_users_new_get:
  "vless_get (vless_users_new us) k = Some u \<longleftrightarrow> length k = 16 \<and>
     find (\<lambda>(uid, _). uid = k) (rev us) = Some (k, vl_email u, vl_level u) \<and> vl_id u = k"
proof -
  have "find (\<lambda>(uid, _). uid = k) (rev us) = Some (uid, r) \<Longrightarrow> uid = k" for uid r
    by (auto simp: find_Some_iff)
  then show ?thesis
    by (cases u) (auto simp: vless_get_def vless_users_new_def vless_users_fold split: option.splits)
qed

text \<open>
  C10: A flow is accepted only when the client presented version 0 and the 16 byte identifier of a
  configured user, and it is attributed to the last user of the configured list with that identifier;
  when the request is refused nothing is written to the client. The header buffer never holds more than
  the limit plus one read.
\<close>

theorem vless_authenticates:
  assumes "short_reads (reads c)"
  shows "(vless_decode (vless_users_new us) st cx c = (Inr f, c', st') \<longrightarrow>
      (\<exists>uid email level ds rest. reads c = map ROk ds @ reads c' \<and> concat ds = 0 # uid @ rest \<and>
         length uid = 16 \<and> find (\<lambda>(uid', _). uid' = uid) (rev us) = Some (uid, email, level) \<and>
         user_email (vless_flow_ctx f) = Some email \<and> length (concat ds) < 16384 + 4096)) \<and>
    (vless_decode (vless_users_new us) st cx c = (Inl e, c', st') \<longrightarrow> sent c' = sent c \<and> st' = st)"
proof (intro conjI impI)
  let ?users = "vless_users_new us"
  assume "vless_decode ?users st cx c = (Inr f, c', st')"
  then obtain req email leftover where h:
    "read_header 16384 (vless_parse ?users) (reads c) = (Inr ((req, email), leftover), reads c')"
    "vless_flow_ctx f = with_user cx email (user_hash (bytes_of_string email))"
    by (auto elim: vless_decode_Inr)
  from vless_codec.header_sound [OF h(1) assms] obtain ds
    where ds: "reads c = map ROk ds @ reads c'" "vless_parse ?users (concat ds) = Inr ((req, email), leftover)"
      "length (concat ds) < 16384 + 4096" by auto
  from vless_parse_auth [OF ds(2)] obtain uid u addons cmd tail
    where "concat ds = vless_request uid addons cmd tail" "vless_get ?users uid = Some u" "email = vl_email u"
    by auto
  then show "\<exists>uid email level ds rest. reads c = map ROk ds @ reads c' \<and> concat ds = 0 # uid @ rest \<and>
         length uid = 16 \<and> find (\<lambda>(uid', _). uid' = uid) (rev us) = Some (uid, email, level) \<and>
         user_email (vless_flow_ctx f) = Some email \<and> length (concat ds) < 16384 + 4096"
    using ds h(2)
    by (intro exI [of _ uid] exI [of _ email] exI [of _ "vl_level u"] exI [of _ ds]
        exI [of _ "word_of_nat (length addons) # addons @ cmd # tail"])
       (simp add: vless_request_def with_user_def vless_users_new_get)
next
  assume "vless_decode (vless_users_new us) st cx c = (Inl e, c', st')"
  then show "sent c' = sent c" "st' = st"
    by (auto simp: vless_decode_def write_all_def Let_def
        split: prod.splits sum.splits list.splits option.splits vless_req.splits)
qed

lemma vless_authenticates_witness:
  "sent (fst (snd (vless_decode sample_vless None sample_ctx (empty_conn [ROk (0 # replicate 16 1 @ [0, 1])])))) = []"
proof -
  let ?c = "empty_conn [ROk (0 # replicate 16 1 @ [0, 1])]"
  have short: "short_reads (reads ?c)" by (simp add: short_reads_def empty_conn_def)
  have "fst (vless_decode sample_vless None sample_ctx ?c) = Inl (IoWrap InvalidData Auth)"
    by code_simp
  then obtain c' st' where "vless_decode sample_vless None sample_ctx ?c = (Inl (IoWrap InvalidData Auth), c', st')"
    by (cases "vless_decode sample_vless None sample_ctx ?c") auto
  with vless_authenticates [OF short, of "[(sample_uuid, ''node|alice|7'', 0)]" None sample_ctx _ c' st']
  show ?thesis by (simp add: empty_conn_def sample_vless_def)
qed

end
