(* ===== verification/Trojan.thy ===== *)
theory Trojan
  imports ProxyIo
begin

text \<open>
  proxy/src/trojan.rs: the user table keyed by the hexadecimal SHA-224 of the password, the request
  header and the inbound handler. The digest (crate sha2) and the hexadecimal encoder (crate hex) are
  arguments. The UDP flow the decoder services itself is handed over as a value; its relay is the
  subject of the theory \<open>UdpRelay\<close>.
\<close>

section \<open>Users\<close>

record trojan_user =
  tr_email :: string
  tr_level :: u32

type_synonym trojan_users = "bytes \<rightharpoonup> trojan_user"

text \<open>\<open>encode_to_slice\<close> fills the slice when the encoding has its length and fails otherwise.\<close>

definition trojan_key :: "(bytes \<Rightarrow> bytes) \<Rightarrow> (bytes \<Rightarrow> bytes) \<Rightarrow> string \<Rightarrow> bytes" where
  "trojan_key sha224 hex_encode password =
     (let digest = sha224 (bytes_of_string password); enc = hex_encode digest
      in if length enc = 56 then enc else replicate 56 0)"

definition trojan_users_new ::
  "(bytes \<Rightarrow> bytes) \<Rightarrow> (bytes \<Rightarrow> bytes) \<Rightarrow> (string \<times> string \<times> u32) list \<Rightarrow> trojan_users" where
  "trojan_users_new sha224 hex_encode us =
     foldl (\<lambda>m (password, email, level).
        m(trojan_key sha224 hex_encode password \<mapsto> \<lparr>tr_email = email, tr_level = level\<rparr>)) Map.empty us"

definition trojan_get :: "trojan_users \<Rightarrow> bytes \<Rightarrow> trojan_user option" where
  "trojan_get us key = (if length key = 56 then us key else None)"

section \<open>The request header\<close>

definition TROJAN_CMD_UDP :: byte where "TROJAN_CMD_UDP = 3"

definition trojan_parse :: "trojan_users \<Rightarrow> (destination \<times> string) codec" where
  "trojan_parse users =
     pbind (take_n 56) (\<lambda>hash.
     pbind (plift (ok_or (trojan_get users hash) Auth)) (\<lambda>user.
     pbind (take_n 2) (\<lambda>crlf.
     pbind take_u8 (\<lambda>cmd.
     pbind (codec_read TROJAN) (\<lambda>(a, p).
     pbind (take_n 2) (\<lambda>crlf2.
       preturn (\<lparr>network = (if cmd = TROJAN_CMD_UDP then Udp else Tcp), address = a, port = p\<rparr>,
                tr_email user)))))))"

section \<open>The handler\<close>

datatype trojan_flow =
    TrRoute proxy_decision
  | TrUdpRelay destination bytes ctx "nat option"

definition trojan_networks :: "network list" where
  "trojan_networks = [Tcp, Udp]"

definition trojan_decode ::
  "trojan_users \<Rightarrow> stats option \<Rightarrow> ctx \<Rightarrow> conn \<Rightarrow> trojan_flow io_result \<times> conn \<times> stats option" where
  "trojan_decode users st cx c =
     (case read_header 16384 (trojan_parse users) (reads c) of
        (Inl e, evs) \<Rightarrow> (Inl e, c\<lparr>reads := evs\<rparr>, st)
      | (Inr ((dest, email), leftover), evs) \<Rightarrow>
          let cx' = with_user cx email (user_hash (bytes_of_string email))
          in case user_counter cx' st of (counter, st') \<Rightarrow>
            (Inr (if network dest = Udp then TrUdpRelay dest leftover cx' counter
                  else TrRoute \<lparr>pd_target = sniff_override dest leftover, pd_ctx = cx',
                         pd_link = RelayStream counter leftover\<rparr>), c\<lparr>reads := evs\<rparr>, st'))"

definition trojan_decision :: "trojan_flow \<Rightarrow> proxy_decision" where
  "trojan_decision f = (case f of TrRoute d \<Rightarrow> d | TrUdpRelay _ _ cx _ \<Rightarrow> noop_decision cx)"

section \<open>The header a client sends\<close>

definition trojan_request :: "bytes \<Rightarrow> bytes \<Rightarrow> byte \<Rightarrow> address \<Rightarrow> u16 \<Rightarrow> bytes \<Rightarrow> bytes" where
  "trojan_request key crlf cmd a p crlf2 =
     key @ crlf @ cmd # addr_wire TROJAN a @ be16 p @ crlf2"

section \<open>Lemmas\<close>

lemma incremental_trojan_parse [inc_intros]: "incremental_codec (trojan_parse users)"
  unfolding trojan_parse_def case_prod_unfold by (intro inc_intros)

interpretation trojan_codec: header_codec "trojan_parse users" for users
  by unfold_locales (rule incremental_trojan_parse)

lemma trojan_parse_request:
  assumes "trojan_get users key = Some u" and "canonical_addr a" and "length crlf = 2" and "length crlf2 = 2"
  shows "trojan_parse users (trojan_request key crlf cmd a p crlf2 @ payload) =
    Inr ((\<lparr>network = (if cmd = TROJAN_CMD_UDP then Udp else Tcp), address = a, port = p\<rparr>, tr_email u), payload)"
proof -
  have "length key = 56" using assms(1) by (auto simp: trojan_get_def split: if_splits)
  moreover have "codec_read TROJAN (addr_wire TROJAN a @ be16 p @ crlf2 @ payload) = Inr ((a, p), crlf2 @ payload)"
    using codec_read_wire [OF assms(2), of TROJAN p "crlf2 @ payload"] by (simp add: TROJAN_def)
  ultimately show ?thesis using assms(1,3,4)
    by (simp add: trojan_parse_def trojan_request_def pbind_def)
qed

lemma trojan_parse_auth:
  assumes "trojan_parse users bs = Inr ((dest, email), r)"
  shows "\<exists>key u rest. bs = key @ rest \<and> trojan_get users key = Some u \<and> email = tr_email u \<and>
     network dest \<in> {Tcp, Udp}"
proof -
  from assms obtain key r1 u where "bs = key @ r1" "trojan_get users key = Some u"
    and c: "\<exists>c r2. pbind take_u8 (\<lambda>cmd. pbind (codec_read TROJAN) (\<lambda>(a, p). pbind (take_n 2) (\<lambda>crlf2.
       preturn (\<lparr>network = (if cmd = TROJAN_CMD_UDP then Udp else Tcp), address = a, port = p\<rparr>,
                tr_email u)))) r2 = Inr ((dest, email), r)"
    unfolding trojan_parse_def pbind_Inr_conv [of "take_n 56"] pbind_Inr_conv [of "take_n 2"]
      pbind_Inr_conv [of "plift m" for m] take_n_Inr plift_Inr ok_or_Inr by blast
  moreover from c have "email = tr_email u \<and> network dest \<in> {Tcp, Udp}"
    by (auto simp: pbind_Inr_conv)
  ultimately show ?thesis by blast
qed

text \<open>The table built from a list of users: the last user with a key is the one it finds.\<close>

lemma trojan_users_fold:
  "foldl (\<lambda>m (pw, email, level). m(key pw \<mapsto> \<lparr>tr_email = email, tr_level = level\<rparr>)) m0 us k =
     (case find (\<lambda>(pw, _). key pw = k) (rev us) of
        None \<Rightarrow> m0 k | Some (_, email, level) \<Rightarrow> Some \<lparr>tr_email = email, tr_level = level\<rparr>)"
  by (induction us rule: rev_induct) (auto split: option.splits prod.splits)

lemma length_trojan_key [simp]: "length (trojan_key sha hx pw) = 56"
  by (simp add: trojan_key_def Let_def)

lemma trojan_users_new_get:
  "trojan_get (trojan_users_new sha hx us) k =
     map_option (\<lambda>(_, email, level). \<lparr>tr_email = email, tr_level = level\<rparr>)
       (find (\<lambda>(pw, _). trojan_key sha hx pw = k) (rev us))"
proof (cases "find (\<lambda>(pw, _). trojan_key sha hx pw = k) (rev us)")
  case None
  then show ?thesis by (simp add: trojan_get_def trojan_users_new_def trojan_users_fold)
next
  case (Some x)
  then have "trojan_key sha hx (fst x) = k" by (auto simp: find_Some_iff)
  then have "length k = 56" using length_trojan_key by blast
  then show ?thesis using Some
    by (simp add: trojan_get_def trojan_users_new_def trojan_users_fold split: prod.splits)
qed

definition trojan_flow_ctx :: "trojan_flow \<Rightarrow> ctx" where
  "trojan_flow_ctx f = (case f of TrRoute d \<Rightarrow> pd_ctx d | TrUdpRelay _ _ cx _ \<Rightarrow> cx)"

lemma trojan_decode_Inr:
  assumes "trojan_decode users st cx c = (Inr f, c', st')"
  obtains dest email leftover where
    "read_header 16384 (trojan_parse users) (reads c) = (Inr ((dest, email), leftover), reads c')"
    "sent c' = sent c"
    "trojan_flow_ctx f = with_user cx email (user_hash (bytes_of_string email))"
  using assms
  by (auto simp: trojan_decode_def trojan_flow_ctx_def Let_def
      split: prod.splits sum.splits if_splits)

text \<open>
  C11: Every client that sends a trojan request with the key of a registered user is served, however
  the bytes arrive: a TCP request is routed to the requested target (or to the host name sniffed from
  the payload) and a UDP request becomes a UDP association, attributed to that user, with the payload
  behind the header passed on without loss. Trojan answers nothing before the relay starts.
\<close>

theorem trojan_serves:
  assumes "trojan_get users key = Some u" and "canonical_addr a"
    and "length crlf = 2" and "length crlf2 = 2"
    and "reads c = map ROk ds" and "[] \<notin> set ds"
    and "concat ds = trojan_request key crlf cmd a p crlf2 @ payload"
  shows "\<exists>leftover k counter st' c'.
     trojan_decode users st cx c =
       (Inr (if cmd = TROJAN_CMD_UDP
             then TrUdpRelay (dest_udp a p) leftover
                    (with_user cx (tr_email u) (user_hash (bytes_of_string (tr_email u)))) counter
             else TrRoute \<lparr>pd_target = sniff_override (dest_tcp a p) leftover,
                    pd_ctx = with_user cx (tr_email u) (user_hash (bytes_of_string (tr_email u))),
                    pd_link = RelayStream counter leftover\<rparr>), c', st') \<and>
     sent c' = sent c \<and> reads c' = map ROk (drop k ds) \<and> leftover @ concat (drop k ds) = payload"
proof -
  let ?cx = "with_user cx (tr_email u) (user_hash (bytes_of_string (tr_email u)))"
  note parse = trojan_parse_request [OF assms(1-4), of cmd p payload, folded assms(7)]
  have "length key = 56" using assms(1) by (auto simp: trojan_get_def split: if_splits)
  moreover have "length (addr_wire TROJAN a) \<le> 257"
    using assms(2) by (auto simp: addr_wire_def canonical_addr_def split: address.splits ip_addr.splits)
  ultimately have "length (concat ds) \<le> 16384 + length payload"
    using assms(3,4,7) by (simp add: trojan_request_def)
  from trojan_codec.header_complete [OF parse this, of "[]"] assms(6)
  obtain k left where h: "read_header 16384 (trojan_parse users) (reads c) =
      (Inr ((\<lparr>network = (if cmd = TROJAN_CMD_UDP then Udp else Tcp), address = a, port = p\<rparr>, tr_email u), left),
       map ROk (drop k ds))" "left @ concat (drop k ds) = payload" using assms(5) by auto
  obtain counter st' where uc: "user_counter ?cx st = (counter, st')" by fastforce
  show ?thesis
    using h uc
    by (intro exI [of _ left] exI [of _ k] exI [of _ counter] exI [of _ st']
        exI [of _ "c\<lparr>reads := map ROk (drop k ds)\<rparr>"])
       (simp add: trojan_decode_def Let_def dest_tcp_def dest_udp_def)
qed

text \<open>A digest and an encoder of the documented lengths, for examples.\<close>

definition sample_sha224 :: "bytes \<Rightarrow> bytes" where
  "sample_sha224 bs = take 28 (bs @ replicate 28 0)"

definition sample_hex :: "bytes \<Rightarrow> bytes" where
  "sample_hex bs = concat (map (\<lambda>b. [b div 16, b mod 16]) bs)"

definition sample_trojan :: trojan_users where
  "sample_trojan = trojan_users_new sample_sha224 sample_hex [(''pw'', ''node|bob|9'', 0)]"

lemma trojan_serves_witness:
  "\<exists>leftover k counter st' c'.
     trojan_decode sample_trojan None sample_ctx
       (empty_conn [ROk (trojan_key sample_sha224 sample_hex ''pw'' @ [13]), ROk [10, 1, 1, 10, 0, 0, 1, 1, 187, 13, 10, 7]]) =
       (Inr (TrRoute \<lparr>pd_target = sniff_override (dest_tcp (Ip (V4 0x0A000001)) 443) leftover,
          pd_ctx = with_user sample_ctx ''node|bob|9'' (user_hash (bytes_of_string ''node|bob|9'')),
          pd_link = RelayStream counter leftover\<rparr>), c', st') \<and>
     leftover @ concat (drop k [trojan_key sample_sha224 sample_hex ''pw'' @ [13], [10, 1, 1, 10, 0, 0, 1, 1, 187, 13, 10, 7]]) = [7]"
proof -
  let ?ds = "[trojan_key sample_sha224 sample_hex ''pw'' @ [13], [10, 1, 1, 10, 0, 0, 1, 1, 187, 13, 10, 7]]"
  have g: "trojan_get sample_trojan (trojan_key sample_sha224 sample_hex ''pw'') = Some \<lparr>tr_email = ''node|bob|9'', tr_level = 0\<rparr>"
    by code_simp
  have a: "canonical_addr (Ip (V4 0x0A000001))" by (simp add: canonical_addr_def)
  have w: "concat ?ds = trojan_request (trojan_key sample_sha224 sample_hex ''pw'') [13, 10] 1
      (Ip (V4 0x0A000001)) 443 [13, 10] @ [7]" by code_simp
  show ?thesis
    using trojan_serves [OF g a _ _ _ _ w, of "empty_conn (map ROk ?ds)" None sample_ctx]
    by (simp add: empty_conn_def TROJAN_CMD_UDP_def) blast
qed

text \<open>
  C12: A trojan flow is accepted only for a client whose first 56 bytes are the key of a password in the
  configured user list, and it is attributed to the last such user of the list; a refused client gets
  no byte back.
\<close>

theorem trojan_authenticates:
  assumes "short_reads (reads c)" and "trojan_decode (trojan_users_new sha hx us) st cx c = (r, c', st')"
  shows "sent c' = sent c \<and>
    (r = Inr f \<longrightarrow> (\<exists>pw email level ds rest.
       find (\<lambda>(pw', _). trojan_key sha hx pw' = trojan_key sha hx pw) (rev us) = Some (pw, email, level) \<and>
       reads c = map ROk ds @ reads c' \<and> concat ds = trojan_key sha hx pw @ rest \<and>
       user_email (trojan_flow_ctx f) = Some email))"
proof (intro conjI impI)
  show "sent c' = sent c"
    using assms(2) by (auto simp: trojan_decode_def Let_def split: prod.splits sum.splits)
  assume "r = Inr f"
  then obtain dest email leftover where h:
    "read_header 16384 (trojan_parse (trojan_users_new sha hx us)) (reads c) = (Inr ((dest, email), leftover), reads c')"
    "trojan_flow_ctx f = with_user cx email (user_hash (bytes_of_string email))"
    using assms(2) by (auto elim: trojan_decode_Inr)
  from trojan_codec.header_sound [OF h(1) assms(1)] obtain ds where ds: "reads c = map ROk ds @ reads c'"
    "trojan_parse (trojan_users_new sha hx us) (concat ds) = Inr ((dest, email), leftover)" by auto
  from trojan_parse_auth [OF ds(2)] obtain key u rest
    where k: "concat ds = key @ rest" "trojan_get (trojan_users_new sha hx us) key = Some u" "email = tr_email u"
    by auto
  then obtain pw em level where f: "find (\<lambda>(pw', _). trojan_key sha hx pw' = key) (rev us) = Some (pw, em, level)"
    "email = em" by (auto simp: trojan_users_new_get)
  then have "trojan_key sha hx pw = key" by (auto simp: find_Some_iff)
  then show "\<exists>pw email level ds rest.
       find (\<lambda>(pw', _). trojan_key sha hx pw' = trojan_key sha hx pw) (rev us) = Some (pw, email, level) \<and>
       reads c = map ROk ds @ reads c' \<and> concat ds = trojan_key sha hx pw @ rest \<and>
       user_email (trojan_flow_ctx f) = Some email"
    using f k ds h(2)
    by (intro exI [of _ pw] exI [of _ em] exI [of _ level] exI [of _ ds] exI [of _ rest])
       (simp add: with_user_def)
qed

lemma trojan_authenticates_witness:
  "sent (fst (snd (trojan_decode (trojan_users_new sample_sha224 sample_hex [(''pw'', ''e'', 0)]) None sample_ctx
     (empty_conn [ROk (replicate 56 1)])))) = []"
  using trojan_authenticates [of "empty_conn [ROk (replicate 56 1)]" sample_sha224 sample_hex
      "[(''pw'', ''e'', 0)]" None sample_ctx]
  by (cases "trojan_decode (trojan_users_new sample_sha224 sample_hex [(''pw'', ''e'', 0)]) None sample_ctx
     (empty_conn [ROk (replicate 56 1)])") (auto simp: empty_conn_def short_reads_def)

end
