(* ===== verification/UdpRelay.thy ===== *)
theory UdpRelay
  imports ProxyIo
begin

text \<open>
  proxy/src/udp.rs: datagrams carried over a stream. \<open>frame\<close> reads one packet off the stream, keeping
  what it read beyond it; the relays send each packet through one socket and frame the replies. The
  resolver of the dialer and the outcome of a \<open>send_to\<close> are arguments. The uplink and the downlink of
  a relay share nothing but the user's counter and the timer, so they are two functions; the relay is
  their interleaving and ends with the first error of either.
\<close>

section \<open>Packets\<close>

definition parse_trojan_packet :: "(destination \<times> bytes) codec" where
  "parse_trojan_packet =
     pbind (codec_read TROJAN) (\<lambda>(a, p).
     pbind read_port (\<lambda>len.
     pbind (take_n 2) (\<lambda>crlf.
     pbind (take_n (unat len)) (\<lambda>payload. preturn (dest_udp a p, payload)))))"

definition parse_vless_packet :: "bytes codec" where
  "parse_vless_packet = pbind read_port (\<lambda>len. take_n (unat len))"

fun frame :: "'a codec \<Rightarrow> bytes \<Rightarrow> read_event list \<Rightarrow> ('a io_result \<times> bytes \<times> read_event list) option" where
  "frame parse buf evs =
     (case parse buf of
        Inr (t, view) \<Rightarrow> Some (Inr t, drop (length buf - length view) buf, evs)
      | Inl e \<Rightarrow>
          if \<not> is_truncated e then Some (Inl (IoWrap InvalidData e), buf, evs)
          else (case evs of
              [] \<Rightarrow> None
            | RErr err # evs' \<Rightarrow> Some (Inl err, buf, evs')
            | ROk d # evs' \<Rightarrow>
                if d = [] then Some (Inl (IoMsg UnexpectedEof ''eof in udp frame''), buf, evs')
                else frame parse (buf @ d) evs'))"

declare frame.simps [simp del]

type_synonym resolver = "string \<Rightarrow> ip_addr list io_result"

definition resolve_first :: "resolver \<Rightarrow> destination \<Rightarrow> socket_addr io_result" where
  "resolve_first resolve dest = (case address dest of
     Ip ip \<Rightarrow> Inr (ip, port dest)
   | Domain d \<Rightarrow> rbind (resolve d) (\<lambda>ips. case ips of
        ip # _ \<Rightarrow> Inr (ip, port dest)
      | [] \<Rightarrow> Inl (IoMsg NotFound ''no addresses for domain'')))"

section \<open>The relays\<close>

record udp_state =
  datagrams :: "(socket_addr \<times> bytes) list"
  stream_out :: bytes
  udp_stats :: stats

definition udp_count_up :: "nat option \<Rightarrow> nat \<Rightarrow> udp_state \<Rightarrow> udp_state" where
  "udp_count_up c n s = (case c of None \<Rightarrow> s
     | Some a \<Rightarrow> s\<lparr>udp_stats := add_up a (word_of_nat n) (udp_stats s)\<rparr>)"

definition udp_count_down :: "nat option \<Rightarrow> nat \<Rightarrow> udp_state \<Rightarrow> udp_state" where
  "udp_count_down c n s = (case c of None \<Rightarrow> s
     | Some a \<Rightarrow> s\<lparr>udp_stats := add_down a (word_of_nat n) (udp_stats s)\<rparr>)"

type_synonym send_to = "socket_addr \<Rightarrow> bytes \<Rightarrow> io_error option"

text \<open>
  The uplink loops. They end only with an error; \<open>Some (None, s)\<close> is the state in which the loop waits
  for more bytes, and \<open>None\<close> means that the fuel, one unit per packet, did not suffice.
\<close>

fun trojan_udp_up ::
  "nat \<Rightarrow> resolver \<Rightarrow> send_to \<Rightarrow> nat option \<Rightarrow> bytes \<Rightarrow> read_event list \<Rightarrow> udp_state \<Rightarrow>
   (io_error option \<times> udp_state) option" where
  "trojan_udp_up 0 resolve send_to c buf evs s = None"
| "trojan_udp_up (Suc n) resolve send_to c buf evs s =
     (case frame parse_trojan_packet buf evs of
        None \<Rightarrow> Some (None, s)
      | Some (Inl e, _) \<Rightarrow> Some (Some e, s)
      | Some (Inr (target, payload), buf', evs') \<Rightarrow>
          let s = udp_count_up c (length payload) s
          in case resolve_first resolve target of
               Inl e \<Rightarrow> Some (Some e, s)
             | Inr addr \<Rightarrow>
                 (case send_to addr payload of
                    Some e \<Rightarrow> Some (Some e, s)
                  | None \<Rightarrow> trojan_udp_up n resolve send_to c buf' evs'
                              (s\<lparr>datagrams := datagrams s @ [(addr, payload)]\<rparr>)))"

fun vless_udp_up ::
  "nat \<Rightarrow> socket_addr \<Rightarrow> send_to \<Rightarrow> nat option \<Rightarrow> bytes \<Rightarrow> read_event list \<Rightarrow> udp_state \<Rightarrow>
   (io_error option \<times> udp_state) option" where
  "vless_udp_up 0 addr send_to c buf evs s = None"
| "vless_udp_up (Suc n) addr send_to c buf evs s =
     (case frame parse_vless_packet buf evs of
        None \<Rightarrow> Some (None, s)
      | Some (Inl e, _) \<Rightarrow> Some (Some e, s)
      | Some (Inr payload, buf', evs') \<Rightarrow>
          let s = udp_count_up c (length payload) s
          in case send_to addr payload of
               Some e \<Rightarrow> Some (Some e, s)
             | None \<Rightarrow> vless_udp_up n addr send_to c buf' evs'
                         (s\<lparr>datagrams := datagrams s @ [(addr, payload)]\<rparr>))"

text \<open>
  The downlink: one received datagram (\<open>Inl\<close> is an error of \<open>recv_from\<close>) and the outcome of the write.
\<close>

definition trojan_udp_down ::
  "nat option \<Rightarrow> (io_error + socket_addr \<times> bytes) \<Rightarrow> io_error option \<Rightarrow> udp_state \<Rightarrow> io_error option \<times> udp_state" where
  "trojan_udp_down c received written s = (case received of
     Inl e \<Rightarrow> (Some e, s)
   | Inr ((ip, p), payload) \<Rightarrow>
       let s = udp_count_down c (length payload) s
       in if 65535 < length payload then (None, s)
          else case codec_write TROJAN [] (Ip ip) p of
            Inl e \<Rightarrow> (Some (IoWrap InvalidData e), s)
          | Inr out \<Rightarrow>
              (case written of Some e \<Rightarrow> (Some e, s)
               | None \<Rightarrow> (None, s\<lparr>stream_out := stream_out s @ out @ be16 (word_of_nat (length payload)) @
                                    [13, 10] @ payload\<rparr>)))"

definition vless_udp_down ::
  "nat option \<Rightarrow> (io_error + socket_addr \<times> bytes) \<Rightarrow> io_error option \<Rightarrow> udp_state \<Rightarrow> io_error option \<times> udp_state" where
  "vless_udp_down c received written s = (case received of
     Inl e \<Rightarrow> (Some e, s)
   | Inr (_, payload) \<Rightarrow>
       let s = udp_count_down c (length payload) s
       in if 65535 < length payload then (None, s)
          else (case written of Some e \<Rightarrow> (Some e, s)
                | None \<Rightarrow> (None, s\<lparr>stream_out := stream_out s @ be16 (word_of_nat (length payload)) @ payload\<rparr>)))"

section \<open>Lemmas on frames\<close>

context header_codec
begin

lemma frame_complete:
  assumes "parse (buf @ concat ds) = Inr (x, r)" and "[] \<notin> set ds"
  shows "\<exists>k left. frame parse buf (map ROk ds @ evs) = Some (Inr x, left, map ROk (drop k ds) @ evs) \<and>
     left @ concat (drop k ds) = r"
  using assms
proof (induction ds arbitrary: buf)
  case Nil
  then show ?case using parse_suffix [of buf x r]
    by (intro exI [of _ 0]) (simp add: frame.simps)
next
  case (Cons d ds)
  show ?case
  proof (cases "parse buf")
    case (Inr yv)
    obtain y v where yv: "yv = (y, v)" by (cases yv)
    from incremental_ok_append [OF inc Inr [unfolded yv], of "concat (d # ds)"] Cons.prems(1)
    have "y = x" "r = v @ concat (d # ds)" by auto
    then show ?thesis using Inr yv parse_suffix [of buf y v]
      by (intro exI [of _ 0]) (simp add: frame.simps [of parse buf])
  next
    case (Inl e)
    have t: "is_truncated e"
      using incrementalD_err [OF inc Inl, of "concat (d # ds)"] Cons.prems(1) by auto
    have "\<exists>k left. frame parse (buf @ d) (map ROk ds @ evs) = Some (Inr x, left, map ROk (drop k ds) @ evs) \<and>
       left @ concat (drop k ds) = r"
      using Cons.prems by (intro Cons.IH) auto
    then obtain k left where "frame parse (buf @ d) (map ROk ds @ evs) = Some (Inr x, left, map ROk (drop k ds) @ evs)"
      "left @ concat (drop k ds) = r" by blast
    then show ?thesis using Inl t Cons.prems(2)
      by (intro exI [of _ "Suc k"] exI [of _ left]) (auto simp: frame.simps [of parse buf])
  qed
qed

lemma frame_waits:
  assumes "parse (buf @ concat ds) = Inl e" and "is_truncated e" and "[] \<notin> set ds"
  shows "frame parse buf (map ROk ds) = None"
  using assms
proof (induction ds arbitrary: buf)
  case Nil
  then show ?case by (simp add: frame.simps)
next
  case (Cons d ds)
  have "\<exists>e'. parse buf = Inl e' \<and> is_truncated e'"
  proof (cases "parse buf")
    case (Inl e')
    then show ?thesis using incrementalD_err [OF inc Inl, of "concat (d # ds)"] Cons.prems(1,2) by auto
  next
    case (Inr yv)
    then show ?thesis
      using incremental_ok_append [OF inc, of buf "fst yv" "snd yv" "concat (d # ds)"] Cons.prems(1) by simp
  qed
  then show ?case using Cons.IH [of "buf @ d"] Cons.prems by (auto simp: frame.simps [of parse buf])
qed

end

lemma incremental_trojan_packet [inc_intros]: "incremental_codec parse_trojan_packet"
  unfolding parse_trojan_packet_def case_prod_unfold by (intro inc_intros)

lemma incremental_vless_packet [inc_intros]: "incremental_codec parse_vless_packet"
  unfolding parse_vless_packet_def by (intro inc_intros)

interpretation trojan_packets: header_codec parse_trojan_packet
  by unfold_locales (rule incremental_trojan_packet)

interpretation vless_packets: header_codec parse_vless_packet
  by unfold_locales (rule incremental_vless_packet)

definition trojan_packet :: "address \<Rightarrow> u16 \<Rightarrow> bytes \<Rightarrow> bytes" where
  "trojan_packet a p payload =
     addr_wire TROJAN a @ be16 p @ be16 (word_of_nat (length payload)) @ [13, 10] @ payload"

lemma unat_len16: "length xs \<le> 65535 \<Longrightarrow> unat (word_of_nat (length xs) :: u16) = length xs"
  by (simp add: unat_of_nat)

lemma parse_trojan_packet_wire:
  assumes "canonical_addr a" and "length payload \<le> 65535"
  shows "parse_trojan_packet (trojan_packet a p payload @ rest) = Inr ((dest_udp a p, payload), rest)"
proof -
  have "codec_read TROJAN (addr_wire TROJAN a @ be16 p @ x) = Inr ((a, p), x)" for x
    using codec_read_wire [OF assms(1), of TROJAN p x] by (simp add: TROJAN_def)
  moreover have "take_n 2 (13 # 10 # x) = Inr ([13, 10], x)" for x by (simp add: take_n_def)
  ultimately show ?thesis using unat_len16 [OF assms(2)]
    by (simp add: parse_trojan_packet_def trojan_packet_def pbind_def)
qed

lemma parse_vless_packet_wire:
  assumes "length payload \<le> 65535"
  shows "parse_vless_packet (be16 (word_of_nat (length payload)) @ payload @ rest) = Inr (payload, rest)"
  using unat_len16 [OF assms] by (simp add: parse_vless_packet_def pbind_def)

section \<open>What the relays send\<close>

lemma udp_count_frame [simp]:
  "datagrams (udp_count_up c n s) = datagrams s" "stream_out (udp_count_up c n s) = stream_out s"
  "datagrams (udp_count_down c n s) = datagrams s" "stream_out (udp_count_down c n s) = stream_out s"
  by (auto simp: udp_count_up_def udp_count_down_def split: option.splits)

text \<open>A packet of the uplink the relay can deliver, and the datagram it becomes.\<close>

definition deliverable :: "resolver \<Rightarrow> send_to \<Rightarrow> address \<times> u16 \<times> bytes \<Rightarrow> socket_addr \<Rightarrow> bool" where
  "deliverable resolve send_to = (\<lambda>(a, p, payload) addr.
     canonical_addr a \<and> length payload \<le> 65535 \<and>
     resolve_first resolve (dest_udp a p) = Inr addr \<and> send_to addr payload = None)"

definition wire_of :: "(address \<times> u16 \<times> bytes) list \<Rightarrow> bytes" where
  "wire_of pkts = concat (map (\<lambda>(a, p, payload). trojan_packet a p payload) pkts)"

lemma wire_of_Cons [simp]: "wire_of ((a, p, payload) # pkts) = trojan_packet a p payload @ wire_of pkts"
  "wire_of [] = []"
  by (simp_all add: wire_of_def)

text \<open>
  The trojan UDP uplink delivers every datagram of the stream, in order, to the address of its
  header, however the stream is cut into reads; the user's upload counter grows by the payload bytes,
  and an incomplete packet at the end is kept until the rest arrives.
\<close>

lemma trojan_udp_uplink:
  assumes "list_all2 (deliverable resolve send_to) pkts addrs" and "[] \<notin> set ds"
    and "buf @ concat ds = wire_of pkts @ partial" and "length pkts < n"
    and "parse_trojan_packet partial = Inl (Truncated i j)" and "a < length (cells (udp_stats s))"
  shows "\<exists>s'. trojan_udp_up n resolve send_to (Some a) buf (map ROk ds) s = Some (None, s') \<and>
     datagrams s' = datagrams s @ zip addrs (map (\<lambda>(_, _, payload). payload) pkts) \<and>
     counter_up a (udp_stats s') = counter_up a (udp_stats s) + word_of_nat (length (concat (map (\<lambda>(_, _, payload). payload) pkts)))"
  using assms
proof (induction pkts arbitrary: addrs ds buf s n)
  case Nil
  from Nil.prems(3) trojan_packets.frame_waits [of buf ds "Truncated i j"] Nil.prems(2,5)
  have "frame parse_trojan_packet buf (map ROk ds) = None" by simp
  then show ?case using Nil.prems by (cases n) simp_all
next
  case (Cons pkt pkts)
  obtain ad p payload where pkt: "pkt = (ad, p, payload)" by (cases pkt)
  obtain addr addrs' where addrs: "addrs = addr # addrs'" "list_all2 (deliverable resolve send_to) pkts addrs'"
    and d: "canonical_addr ad" "length payload \<le> 65535" "resolve_first resolve (dest_udp ad p) = Inr addr"
      "send_to addr payload = None"
    using Cons.prems(1) by (cases addrs) (auto simp: deliverable_def pkt)
  obtain m where n: "n = Suc m" "length pkts < m" using Cons.prems(4) by (cases n) auto
  have "parse_trojan_packet (buf @ concat ds) = Inr ((dest_udp ad p, payload), wire_of pkts @ partial)"
    using parse_trojan_packet_wire [OF d(1,2), of p "wire_of pkts @ partial"] Cons.prems(3) by (simp add: pkt)
  from trojan_packets.frame_complete [OF this Cons.prems(2), of "[]"] obtain k left
    where f: "frame parse_trojan_packet buf (map ROk ds) = Some (Inr (dest_udp ad p, payload), left, map ROk (drop k ds))"
      "left @ concat (drop k ds) = wire_of pkts @ partial" by auto
  define s1 where "s1 = udp_count_up (Some a) (length payload) s"
  define s2 where "s2 = s1\<lparr>datagrams := datagrams s1 @ [(addr, payload)]\<rparr>"
  have s2: "datagrams s2 = datagrams s @ [(addr, payload)]" "a < length (cells (udp_stats s2))"
    "counter_up a (udp_stats s2) = counter_up a (udp_stats s) + word_of_nat (length payload)"
    using add_up_nth [OF Cons.prems(6)] Cons.prems(6)
    by (simp_all add: s1_def s2_def udp_count_up_def counter_up_def)
  have "[] \<notin> set (drop k ds)" using Cons.prems(2) by (meson in_set_dropD)
  from Cons.IH [OF addrs(2) this f(2) n(2) Cons.prems(5) s2(2)] obtain s'
    where s': "trojan_udp_up m resolve send_to (Some a) left (map ROk (drop k ds)) s2 = Some (None, s')"
      "datagrams s' = datagrams s2 @ zip addrs' (map (\<lambda>(_, _, payload). payload) pkts)"
      "counter_up a (udp_stats s') = counter_up a (udp_stats s2) + word_of_nat (length (concat (map (\<lambda>(_, _, payload). payload) pkts)))"
    by blast
  have "trojan_udp_up n resolve send_to (Some a) buf (map ROk ds) s = Some (None, s')"
    using f(1) d s'(1) by (simp add: n Let_def s1_def s2_def)
  then show ?case using s' s2 by (simp add: addrs pkt algebra_simps)
qed

definition sample_udp :: udp_state where
  "sample_udp = \<lparr>datagrams = [], stream_out = [], udp_stats = snd (stats_counter ''u'' stats_new)\<rparr>"

lemma trojan_udp_uplink_witness:
  "\<exists>s'. trojan_udp_up 2 (\<lambda>_. Inr []) (\<lambda>_ _. None) (Some 0) [1, 10, 0]
        (map ROk [[0, 1, 0, 53, 0], [2, 13, 10, 7], [8, 1]]) sample_udp = Some (None, s') \<and>
     datagrams s' = [((V4 0x0A000001, 53), [7, 8])]"
proof -
  have c: "list_all2 (deliverable (\<lambda>_. Inr []) (\<lambda>_ _. None)) [(Ip (V4 0x0A000001), 53, [7, 8])] [(V4 0x0A000001, 53)]"
    by (simp add: deliverable_def canonical_addr_def resolve_first_def dest_udp_def)
  have w: "[1, 10, 0] @ concat [[0, 1, 0, 53, 0], [2, 13, 10, 7], [8, 1]] =
      wire_of [(Ip (V4 0x0A000001), 53, [7, 8])] @ [1]" by code_simp
  have t: "parse_trojan_packet [1] = Inl (Truncated 4 0)" by code_simp
  have s: "0 < length (cells (udp_stats sample_udp))" by code_simp
  show ?thesis
    using trojan_udp_uplink [OF c _ w _ t s, of 2] by (auto simp: sample_udp_def)
qed

text \<open>
  A reply datagram is framed so that the client's decoder reads back exactly its source address and
  its payload (trojan) or its payload (VLESS), whatever follows on the stream, and it counts as
  download of the user whether or not the write succeeds.
\<close>

lemma udp_reply_roundtrip:
  assumes "canonical_addr (Ip ip)" and "length payload \<le> 65535" and "a < length (cells (udp_stats s))"
  shows "(\<exists>w s'. trojan_udp_down (Some a) (Inr ((ip, p), payload)) None s = (None, s') \<and>
       stream_out s' = stream_out s @ w \<and>
       parse_trojan_packet (w @ rest) = Inr ((dest_udp (Ip ip) p, payload), rest) \<and>
       counter_down a (udp_stats s') = counter_down a (udp_stats s) + word_of_nat (length payload)) \<and>
     (\<exists>w s'. vless_udp_down (Some a) (Inr ((ip, p), payload)) None s = (None, s') \<and>
       stream_out s' = stream_out s @ w \<and> parse_vless_packet (w @ rest) = Inr (payload, rest)) \<and>
     counter_down a (udp_stats (snd (trojan_udp_down (Some a) (Inr ((ip, p), payload)) (Some e) s))) =
       counter_down a (udp_stats s) + word_of_nat (length payload)"
proof -
  let ?n = "be16 (word_of_nat (length payload))"
  have w: "codec_write TROJAN [] (Ip ip) p = Inr (addr_wire TROJAN (Ip ip) @ be16 p)"
    by (simp add: codec_write_wire TROJAN_def)
  have cd: "counter_down a (udp_stats (udp_count_down (Some a) (length payload) s)) =
      counter_down a (udp_stats s) + word_of_nat (length payload)"
    using add_down_nth [OF assms(3)] by (simp add: udp_count_down_def counter_down_def)
  have "\<exists>w s'. trojan_udp_down (Some a) (Inr ((ip, p), payload)) None s = (None, s') \<and>
       stream_out s' = stream_out s @ w \<and>
       parse_trojan_packet (w @ rest) = Inr ((dest_udp (Ip ip) p, payload), rest) \<and>
       counter_down a (udp_stats s') = counter_down a (udp_stats s) + word_of_nat (length payload)"
    using parse_trojan_packet_wire [OF assms(1,2), of p rest] assms(2) w cd
    by (intro exI [of _ "trojan_packet (Ip ip) p payload"])
       (simp add: trojan_udp_down_def Let_def trojan_packet_def)
  moreover have "\<exists>w s'. vless_udp_down (Some a) (Inr ((ip, p), payload)) None s = (None, s') \<and>
       stream_out s' = stream_out s @ w \<and> parse_vless_packet (w @ rest) = Inr (payload, rest)"
    using parse_vless_packet_wire [OF assms(2), of rest] assms(2)
    by (intro exI [of _ "?n @ payload"]) (simp add: vless_udp_down_def Let_def)
  moreover have "counter_down a (udp_stats (snd (trojan_udp_down (Some a) (Inr ((ip, p), payload)) (Some e) s))) =
       counter_down a (udp_stats s) + word_of_nat (length payload)"
    using assms(2) w cd by (simp add: trojan_udp_down_def Let_def)
  ultimately show ?thesis by blast
qed

lemma udp_reply_roundtrip_witness:
  "\<exists>w s'. vless_udp_down (Some 0) (Inr ((V4 1, 53), [7, 8])) None sample_udp = (None, s') \<and>
       stream_out s' = stream_out sample_udp @ w \<and> parse_vless_packet (w @ [9]) = Inr ([7, 8], [9])"
proof -
  have s: "0 < length (cells (udp_stats sample_udp))" by code_simp
  have c: "canonical_addr (Ip (V4 1))" by (simp add: canonical_addr_def)
  show ?thesis using udp_reply_roundtrip [OF c _ s, of "[7, 8]"] by simp
qed

end
