(* ===== verification/Mux.thy ===== *)
theory Mux
  imports UdpRelay
begin

text \<open>
  proxy/src/mux.rs: the mux.cool demultiplexer. Its state is the table of sessions, which maps an
  identifier to the sending end of a link; links live in a store, because a replaced or removed
  session's link goes on existing (its sender is dropped: \<open>sub_open\<close> turns false) while its egress
  task drains it. \<open>uplink\<close> is what the demultiplexer has sent on the link; the code ignores the result of a
  send, so that after the egress has ended the same data is sent and lost. The frames of the downlink are built by
  the functions of the last section.
\<close>

definition ST_NEW :: byte where "ST_NEW = 1"
definition ST_KEEP :: byte where "ST_KEEP = 2"
definition ST_END :: byte where "ST_END = 3"
definition ST_KEEPALIVE :: byte where "ST_KEEPALIVE = 4"
definition OPT_DATA :: byte where "OPT_DATA = 1"
definition NET_TCP :: byte where "NET_TCP = 1"
definition NET_UDP :: byte where "NET_UDP = 2"
definition MAX_META :: nat where "MAX_META = 512"
definition MAX_DATA :: nat where "MAX_DATA = 8192"

lemmas mux_consts = ST_NEW_def ST_KEEP_def ST_END_def ST_KEEPALIVE_def OPT_DATA_def NET_TCP_def
  NET_UDP_def MAX_META_def MAX_DATA_def

section \<open>Frames\<close>

record meta =
  sid :: u16
  status :: byte
  option :: byte
  target :: "destination option"

definition parse_meta :: "bytes \<Rightarrow> meta option" where
  "parse_meta mb = (case mb of
     s1 # s2 # st # opt # rest \<Rightarrow>
       (let keep_udp = (st = ST_KEEP \<and> (case rest of n # _ \<Rightarrow> n = NET_UDP | [] \<Rightarrow> False));
            m = \<lparr>sid = word_of_be [s1, s2], status = st, option = opt, target = None\<rparr>
        in if st = ST_NEW \<or> keep_udp then
             (case rest of [] \<Rightarrow> None
              | n # b \<Rightarrow>
                (case codec_read VLESS b of
                   Inl _ \<Rightarrow> None
                 | Inr ((a, p), _) \<Rightarrow>
                     if n = NET_TCP then Some (m\<lparr>target := Some (dest_tcp a p)\<rparr>)
                     else if n = NET_UDP then Some (m\<lparr>target := Some (dest_udp a p)\<rparr>)
                     else None))
           else Some m)
   | _ \<Rightarrow> None)"

definition frame_keep_tcp :: "u16 \<Rightarrow> bytes \<Rightarrow> bytes" where
  "frame_keep_tcp i data =
     be16 4 @ be16 i @ [ST_KEEP, OPT_DATA] @
     be16 (if length data \<le> 65535 then word_of_nat (length data) else 0) @ data"

definition frame_keep_udp :: "u16 \<Rightarrow> destination \<Rightarrow> bytes \<Rightarrow> bytes option" where
  "frame_keep_udp i tgt data =
     (case codec_write VLESS (be16 i @ [ST_KEEP, OPT_DATA, NET_UDP]) (address tgt) (port tgt) of
        Inl _ \<Rightarrow> None
      | Inr mb \<Rightarrow>
          if 65535 < length mb \<or> 65535 < length data then None
          else Some (be16 (word_of_nat (length mb)) @ mb @ be16 (word_of_nat (length data)) @ data))"

definition frame_end :: "u16 \<Rightarrow> bytes" where
  "frame_end i = be16 4 @ be16 i @ [ST_END, 0]"

section \<open>Sessions\<close>

datatype sub_kind = SubTcp | SubUdp

record sub =
  sub_kind :: sub_kind
  sub_target :: destination
  uplink :: "(destination \<times> bytes) list"
  sub_open :: bool

record mux =
  sessions :: "u16 \<rightharpoonup> nat"
  subs :: "sub list"
  mux_timer :: timer

definition close_sub :: "nat option \<Rightarrow> sub list \<Rightarrow> sub list" where
  "close_sub r ss = (case r of None \<Rightarrow> ss | Some i \<Rightarrow> ss[i := (ss ! i)\<lparr>sub_open := False\<rparr>])"

text \<open>
  \<open>handle_new\<close>: a fresh link, the first payload on it, and the session entered in the table, which
  drops the sender of a session of the same identifier. An empty TCP payload is not sent.
\<close>

definition handle_new :: "meta \<Rightarrow> bytes option \<Rightarrow> mux \<Rightarrow> mux" where
  "handle_new me data m = (case target me of
     None \<Rightarrow> m
   | Some tgt \<Rightarrow>
       let first = (case data of None \<Rightarrow> []
                    | Some d \<Rightarrow> if network tgt \<noteq> Udp \<and> d = [] then [] else [(tgt, d)]);
           new = \<lparr>sub_kind = (if network tgt = Udp then SubUdp else SubTcp), sub_target = tgt,
                   uplink = first, sub_open = True\<rparr>
       in m\<lparr>sessions := (sessions m)(sid me \<mapsto> length (subs m)),
            subs := close_sub (sessions m (sid me)) (subs m) @ [new]\<rparr>)"

definition push_uplink :: "nat \<Rightarrow> destination \<times> bytes \<Rightarrow> mux \<Rightarrow> mux" where
  "push_uplink i x m = m\<lparr>subs := (subs m)[i := (subs m ! i)\<lparr>uplink := uplink (subs m ! i) @ [x]\<rparr>]\<rparr>"

definition handle_keep :: "meta \<Rightarrow> bytes \<Rightarrow> mux \<Rightarrow> mux" where
  "handle_keep me data m = (case sessions m (sid me) of
     None \<Rightarrow> m
   | Some i \<Rightarrow> (case sub_kind (subs m ! i) of
        SubTcp \<Rightarrow> push_uplink i (sub_target (subs m ! i), data) m
      | SubUdp \<Rightarrow> (case target me of None \<Rightarrow> m | Some tgt \<Rightarrow> push_uplink i (tgt, data) m)))"

definition handle_end :: "meta \<Rightarrow> mux \<Rightarrow> mux" where
  "handle_end me m = m\<lparr>sessions := (sessions m)(sid me := None),
     subs := close_sub (sessions m (sid me)) (subs m)\<rparr>"

text \<open>The match on the status of a frame; \<open>None\<close> is the error \<open>mux status\<close>.\<close>

definition mux_dispatch :: "meta \<Rightarrow> bytes option \<Rightarrow> mux \<Rightarrow> mux option" where
  "mux_dispatch me data m =
     (if status me = ST_NEW then Some (handle_new me data m)
      else if status me = ST_KEEP then
        Some (case data of None \<Rightarrow> m | Some d \<Rightarrow> handle_keep me d m)
      else if status me = ST_END then Some (handle_end me m)
      else if status me = ST_KEEPALIVE then Some m
      else None)"

section \<open>The demultiplexer\<close>

fun reader_take :: "nat \<Rightarrow> bytes \<Rightarrow> read_event list \<Rightarrow> (bytes io_result \<times> bytes \<times> read_event list) option" where
  "reader_take n buf evs =
     (if n \<le> length buf then Some (Inr (take n buf), drop n buf, evs)
      else case evs of
        [] \<Rightarrow> None
      | RErr e # evs' \<Rightarrow> Some (Inl e, buf, evs')
      | ROk d # evs' \<Rightarrow>
          if d = [] then Some (Inl (IoMsg UnexpectedEof ''mux eof''), buf, evs')
          else reader_take n (buf @ d) evs')"

declare reader_take.simps [simp del]

datatype mux_state = Waiting | Ended "unit io_result"

definition bad_mux :: "string \<Rightarrow> mux_state" where
  "bad_mux msg = Ended (Inl (IoMsg InvalidData msg))"

text \<open>
  One turn of the loop: \<open>Inl\<close> is the end of the loop (or a wait for more bytes), \<open>Inr\<close> the state in
  which it goes on. The timer is updated once the frame is complete; \<open>now\<close> is the time of that.
\<close>

definition demux_turn ::
  "nat \<Rightarrow> bytes \<Rightarrow> read_event list \<Rightarrow> mux \<Rightarrow> mux_state + (bytes \<times> read_event list \<times> mux)" where
  "demux_turn now buf evs m =
     (case reader_take 2 buf evs of
        None \<Rightarrow> Inl Waiting
      | Some (Inl _, _) \<Rightarrow> Inl (Ended (Inr ()))
      | Some (Inr l, buf1, evs1) \<Rightarrow>
        let metalen = be_nat l in
        if metalen = 0 \<or> MAX_META < metalen then Inl (bad_mux ''mux metalen'')
        else case reader_take metalen buf1 evs1 of
          None \<Rightarrow> Inl Waiting
        | Some (Inl e, _) \<Rightarrow> Inl (Ended (Inl e))
        | Some (Inr mb, buf2, evs2) \<Rightarrow>
          (case parse_meta mb of
             None \<Rightarrow> Inl (bad_mux ''mux meta'')
           | Some me \<Rightarrow>
             (case (if option me AND OPT_DATA \<noteq> 0 then
                      (case reader_take 2 buf2 evs2 of
                         None \<Rightarrow> Inl Waiting
                       | Some (Inl e, _) \<Rightarrow> Inl (Ended (Inl e))
                       | Some (Inr dl, buf3, evs3) \<Rightarrow>
                           if MAX_DATA < be_nat dl then Inl (bad_mux ''mux datalen'')
                           else (case reader_take (be_nat dl) buf3 evs3 of
                               None \<Rightarrow> Inl Waiting
                             | Some (Inl e, _) \<Rightarrow> Inl (Ended (Inl e))
                             | Some (Inr d, buf4, evs4) \<Rightarrow> Inr (Some d, buf4, evs4)))
                    else Inr (None, buf2, evs2)) of
                Inl r \<Rightarrow> Inl r
              | Inr (data, buf', evs') \<Rightarrow>
                  (case mux_dispatch me data (m\<lparr>mux_timer := timer_step (TUpdate now) (mux_timer m)\<rparr>) of
                     None \<Rightarrow> Inl (bad_mux ''mux status'')
                   | Some m' \<Rightarrow> Inr (buf', evs', m')))))"

text \<open>The loop, with one unit of fuel per frame; \<open>clock\<close> gives the times of the frames.\<close>

fun demux :: "nat \<Rightarrow> (nat \<Rightarrow> nat) \<Rightarrow> bytes \<Rightarrow> read_event list \<Rightarrow> mux \<Rightarrow> (mux_state \<times> mux) option" where
  "demux 0 clock buf evs m = None"
| "demux (Suc n) clock buf evs m =
     (case demux_turn (clock 0) buf evs m of
        Inl r \<Rightarrow> Some (r, m)
      | Inr (buf', evs', m') \<Rightarrow> demux n (\<lambda>i. clock (Suc i)) buf' evs' m')"

definition mux_init :: "nat \<Rightarrow> nat \<Rightarrow> mux" where
  "mux_init idle_timeout now = \<lparr>sessions = Map.empty, subs = [], mux_timer = timer_new idle_timeout now\<rparr>"

section \<open>The downlink\<close>

text \<open>\<open>slice::chunks\<close>.\<close>

function chunks :: "nat \<Rightarrow> 'a list \<Rightarrow> 'a list list" where
  "chunks n xs = (if xs = [] \<or> n = 0 then [] else take n xs # chunks n (drop n xs))"
  by pat_completeness auto
termination
  by (relation "measure (\<lambda>(n, xs). length xs)") auto

declare chunks.simps [simp del]

definition tcp_downlink :: "u16 \<Rightarrow> bytes list \<Rightarrow> bytes list" where
  "tcp_downlink i cs = concat (map (\<lambda>c. map (frame_keep_tcp i) (chunks MAX_DATA c)) cs) @ [frame_end i]"

definition udp_downlink :: "u16 \<Rightarrow> (destination \<times> bytes) list \<Rightarrow> bytes list" where
  "udp_downlink i ps =
     concat (map (\<lambda>(tgt, d). List.map_filter (frame_keep_udp i tgt) (chunks MAX_DATA d)) ps) @ [frame_end i]"

section \<open>Lemmas on reading frames\<close>

lemma reader_take_complete:
  assumes "n \<le> length (buf @ concat ds)" and "[] \<notin> set ds"
  shows "\<exists>k left. reader_take n buf (map ROk ds @ evs) =
       Some (Inr (take n (buf @ concat ds)), left, map ROk (drop k ds) @ evs) \<and>
     left @ concat (drop k ds) = drop n (buf @ concat ds)"
  using assms
proof (induction ds arbitrary: buf)
  case Nil
  then show ?case by (intro exI [of _ 0]) (simp add: reader_take.simps)
next
  case (Cons d ds)
  show ?case
  proof (cases "n \<le> length buf")
    case True
    then show ?thesis by (intro exI [of _ 0]) (simp add: reader_take.simps [of n buf])
  next
    case False
    from Cons.IH [of "buf @ d"] Cons.prems obtain k left
      where "reader_take n (buf @ d) (map ROk ds @ evs) =
       Some (Inr (take n (buf @ concat (d # ds))), left, map ROk (drop k ds) @ evs)"
       "left @ concat (drop k ds) = drop n (buf @ concat (d # ds))" by auto
    then show ?thesis using False Cons.prems
      by (intro exI [of _ "Suc k"] exI [of _ left]) (auto simp: reader_take.simps [of n buf])
  qed
qed

lemma reader_take_waits:
  assumes "length (buf @ concat ds) < n" and "[] \<notin> set ds"
  shows "reader_take n buf (map ROk ds) = None"
  using assms
proof (induction ds arbitrary: buf)
  case Nil
  then show ?case by (simp add: reader_take.simps)
next
  case (Cons d ds)
  then show ?case using Cons.IH [of "buf @ d"] by (auto simp: reader_take.simps [of n buf])
qed

text \<open>A field of known content at the front of the stream.\<close>

lemma reader_take_field:
  assumes "buf @ concat ds = w @ r" and "[] \<notin> set ds"
  shows "\<exists>k left. reader_take (length w) buf (map ROk ds) = Some (Inr w, left, map ROk (drop k ds)) \<and>
     left @ concat (drop k ds) = r \<and> [] \<notin> set (drop k ds)"
proof -
  have "length w \<le> length (buf @ concat ds)" using assms(1) by simp
  from reader_take_complete [OF this assms(2), of "[]"] assms
  show ?thesis by (auto dest: in_set_dropD)
qed

lemma be_nat_be16_len: "length xs \<le> 65535 \<Longrightarrow> be_nat (be16 (word_of_nat (length xs))) = length xs"
  by (simp add: be16_def be_nat_be_bytes unat_of_nat)

definition mux_wire :: "bytes \<Rightarrow> bytes option \<Rightarrow> bytes" where
  "mux_wire mb data = be16 (word_of_nat (length mb)) @ mb @
     (case data of None \<Rightarrow> [] | Some d \<Rightarrow> be16 (word_of_nat (length d)) @ d)"

text \<open>A frame a client may send: the data field is there exactly when the option says so.\<close>

definition mux_frame_ok :: "meta \<Rightarrow> bytes \<Rightarrow> bytes option \<Rightarrow> bool" where
  "mux_frame_ok me mb data \<longleftrightarrow> parse_meta mb = Some me \<and> length mb \<le> MAX_META \<and>
     (option me AND OPT_DATA \<noteq> 0 \<longleftrightarrow> data \<noteq> None) \<and> (\<forall>d. data = Some d \<longrightarrow> length d \<le> MAX_DATA)"

lemma parse_meta_ne: "parse_meta mb = Some me \<Longrightarrow> mb \<noteq> []"
  by (auto simp: parse_meta_def)

lemma demux_turn_frame:
  assumes ok: "mux_frame_ok me mb data" and ne: "[] \<notin> set ds"
    and stream: "buf @ concat ds = mux_wire mb data @ rest"
  shows "\<exists>k left. demux_turn now buf (map ROk ds) m =
      (case mux_dispatch me data (m\<lparr>mux_timer := timer_step (TUpdate now) (mux_timer m)\<rparr>) of
         None \<Rightarrow> Inl (bad_mux ''mux status'')
       | Some m' \<Rightarrow> Inr (left, map ROk (drop k ds), m')) \<and>
     left @ concat (drop k ds) = rest"
proof -
  have mb: "mb \<noteq> []" "length mb \<le> 512" "parse_meta mb = Some me"
    using ok parse_meta_ne by (auto simp: mux_frame_ok_def MAX_META_def)
  have ml: "be_nat (be16 (word_of_nat (length mb))) = length mb"
    using mb by (intro be_nat_be16_len) simp
  from reader_take_field [of buf ds "be16 (word_of_nat (length mb))", OF _ ne]
  obtain k1 l1 where 1: "reader_take 2 buf (map ROk ds) = Some (Inr (be16 (word_of_nat (length mb))), l1, map ROk (drop k1 ds))"
    "l1 @ concat (drop k1 ds) = mb @ (case data of None \<Rightarrow> [] | Some d \<Rightarrow> be16 (word_of_nat (length d)) @ d) @ rest"
    "[] \<notin> set (drop k1 ds)" using stream by (auto simp: mux_wire_def)
  from reader_take_field [OF 1(2,3)]
  obtain k2 l2 where 2: "reader_take (length mb) l1 (map ROk (drop k1 ds)) = Some (Inr mb, l2, map ROk (drop k2 ds))"
    "l2 @ concat (drop k2 ds) = (case data of None \<Rightarrow> [] | Some d \<Rightarrow> be16 (word_of_nat (length d)) @ d) @ rest"
    "[] \<notin> set (drop k2 ds)" by auto
  show ?thesis
  proof (cases data)
    case None
    then have "\<not> (option me AND OPT_DATA \<noteq> 0)" using ok by (simp add: mux_frame_ok_def)
    then show ?thesis using 1(1) 2 mb ml None
      by (intro exI [of _ k2] exI [of _ l2]) (simp add: demux_turn_def Let_def MAX_META_def)
  next
    case (Some d)
    then have o: "option me AND OPT_DATA \<noteq> 0" "length d \<le> 8192"
      using ok by (auto simp: mux_frame_ok_def MAX_DATA_def)
    then have dl: "be_nat (be16 (word_of_nat (length d))) = length d"
      by (intro be_nat_be16_len) simp
    have "l2 @ concat (drop k2 ds) = be16 (word_of_nat (length d)) @ d @ rest" using 2(2) Some by simp
    from reader_take_field [OF this 2(3)]
    obtain k3 l3 where 3: "reader_take 2 l2 (map ROk (drop k2 ds)) = Some (Inr (be16 (word_of_nat (length d))), l3, map ROk (drop k3 ds))"
      "l3 @ concat (drop k3 ds) = d @ rest" "[] \<notin> set (drop k3 ds)" by auto
    from reader_take_field [OF 3(2,3)]
    obtain k4 l4 where 4: "reader_take (length d) l3 (map ROk (drop k3 ds)) = Some (Inr d, l4, map ROk (drop k4 ds))"
      "l4 @ concat (drop k4 ds) = rest" by auto
    show ?thesis using 1(1) 2(1) 3(1) 4 mb ml dl o Some
      by (intro exI [of _ k4] exI [of _ l4])
         (simp add: demux_turn_def Let_def MAX_META_def MAX_DATA_def)
  qed
qed

section \<open>Lemmas on the session table\<close>

text \<open>The frames of a stream in order, as the demultiplexer is meant to apply them.\<close>

fun apply_frames :: "(nat \<Rightarrow> nat) \<Rightarrow> (meta \<times> bytes \<times> bytes option) list \<Rightarrow> mux \<Rightarrow> mux option" where
  "apply_frames clock [] m = Some m"
| "apply_frames clock ((me, mb, data) # fs) m =
     Option.bind (mux_dispatch me data (m\<lparr>mux_timer := timer_step (TUpdate (clock 0)) (mux_timer m)\<rparr>))
       (apply_frames (\<lambda>i. clock (Suc i)) fs)"

definition frames_wire :: "(meta \<times> bytes \<times> bytes option) list \<Rightarrow> bytes" where
  "frames_wire fs = concat (map (\<lambda>(_, mb, data). mux_wire mb data) fs)"

lemma demux_frames:
  assumes "\<forall>(me, mb, data) \<in> set fs. mux_frame_ok me mb data" and "[] \<notin> set ds"
    and "buf @ concat ds = frames_wire fs" and "length fs < n" and "apply_frames clock fs m = Some m'"
  shows "demux n clock buf (map ROk ds) m = Some (Waiting, m')"
  using assms
proof (induction fs arbitrary: n clock buf ds m)
  case Nil
  then obtain k where n: "n = Suc k" by (cases n) auto
  have "length (buf @ concat ds) = 0" using Nil.prems(3) by (simp only: frames_wire_def) simp
  then have "reader_take 2 buf (map ROk ds) = None"
    using Nil.prems(2) by (metis reader_take_waits zero_less_numeral)
  then show ?case using Nil.prems(5) by (simp add: n demux_turn_def)
next
  case (Cons f fs)
  obtain me mb data where f: "f = (me, mb, data)" by (cases f)
  obtain k where n: "n = Suc k" "length fs < k" using Cons.prems(4) by (cases n) auto
  have ok: "mux_frame_ok me mb data" and stream: "buf @ concat ds = mux_wire mb data @ frames_wire fs"
    using Cons.prems(1,3) f by (auto simp: frames_wire_def)
  let ?m = "m\<lparr>mux_timer := timer_step (TUpdate (clock 0)) (mux_timer m)\<rparr>"
  obtain m1 where m1: "mux_dispatch me data ?m = Some m1" "apply_frames (\<lambda>i. clock (Suc i)) fs m1 = Some m'"
    using Cons.prems(5) f by (auto simp: bind_eq_Some_conv)
  from demux_turn_frame [OF ok Cons.prems(2) stream, of "clock 0" m] m1(1)
  obtain j left where t: "demux_turn (clock 0) buf (map ROk ds) m = Inr (left, map ROk (drop j ds), m1)"
    "left @ concat (drop j ds) = frames_wire fs" by auto
  have "[] \<notin> set (drop j ds)" using Cons.prems(2) by (meson in_set_dropD)
  from Cons.IH [OF _ this t(2) n(2) m1(2)] Cons.prems(1) t(1) show ?case by (simp add: n)
qed

text \<open>The table's invariant: sessions point at distinct open links, all other links are closed.\<close>

definition mux_ok :: "mux \<Rightarrow> bool" where
  "mux_ok m \<longleftrightarrow>
     (\<forall>i j. sessions m i = Some j \<longrightarrow> j < length (subs m) \<and> sub_open (subs m ! j)) \<and>
     (\<forall>i i' j. sessions m i = Some j \<and> sessions m i' = Some j \<longrightarrow> i = i') \<and>
     (\<forall>j < length (subs m). sub_open (subs m ! j) \<longrightarrow> (\<exists>i. sessions m i = Some j))"

lemma mux_init_ok: "mux_ok (mux_init t now)"
  by (simp add: mux_ok_def mux_init_def)

lemma length_close_sub [simp]: "length (close_sub r ss) = length ss"
  by (simp add: close_sub_def split: option.splits)

lemma close_sub_nth:
  "j < length ss \<Longrightarrow> close_sub r ss ! j = (if r = Some j then (ss ! j)\<lparr>sub_open := False\<rparr> else ss ! j)"
  by (auto simp: close_sub_def nth_list_update split: option.splits)

lemma handle_end_ok:
  assumes "mux_ok m"
  shows "mux_ok (handle_end me m)"
proof -
  have "\<exists>i. i \<noteq> sid me \<and> sessions m i = Some j"
    if "j < length (subs m)" "sub_open (subs m ! j)" "sessions m (sid me) \<noteq> Some j" for j
    using assms that by (metis mux_ok_def)
  then show ?thesis using assms unfolding mux_ok_def handle_end_def
    by (auto simp: close_sub_nth split: if_splits) blast+
qed

lemma handle_new_ok:
  assumes "mux_ok m"
  shows "mux_ok (handle_new me data m)"
proof (cases "target me")
  case None
  then show ?thesis using assms by (simp add: handle_new_def)
next
  case (Some tgt)
  have "\<exists>i. i \<noteq> sid me \<and> sessions m i = Some j"
    if "j < length (subs m)" "sub_open (subs m ! j)" "sessions m (sid me) \<noteq> Some j" for j
    using assms that by (metis mux_ok_def)
  moreover have "sessions m i \<noteq> Some (length (subs m))" for i
    using assms by (auto simp: mux_ok_def)
  ultimately show ?thesis using assms Some unfolding mux_ok_def handle_new_def Let_def
    by (auto simp: close_sub_nth nth_append less_Suc_eq split: if_splits) blast+
qed

lemma push_uplink_open [simp]:
  "sub_open ((subs m)[i := (subs m ! i)\<lparr>uplink := u\<rparr>] ! j) = sub_open (subs m ! j)"
  by (cases "i < length (subs m)"; cases "j = i") (simp_all add: list_update_beyond)

lemma push_uplink_ok: "mux_ok m \<Longrightarrow> mux_ok (push_uplink i x m)"
  unfolding mux_ok_def push_uplink_def by simp

lemma handle_keep_ok: "mux_ok m \<Longrightarrow> mux_ok (handle_keep me data m)"
  by (auto simp: handle_keep_def push_uplink_ok split: option.splits sub_kind.splits)

lemma timer_update_ok [simp]: "mux_ok (m\<lparr>mux_timer := t\<rparr>) = mux_ok m"
  by (simp add: mux_ok_def)

lemma mux_dispatch_ok: "mux_dispatch me data m = Some m' \<Longrightarrow> mux_ok m \<Longrightarrow> mux_ok m'"
  by (auto simp: mux_dispatch_def handle_new_ok handle_end_ok handle_keep_ok split: if_splits option.splits)

lemma apply_frames_ok: "apply_frames clock fs m = Some m' \<Longrightarrow> mux_ok m \<Longrightarrow> mux_ok m'"
proof (induction clock fs m rule: apply_frames.induct)
  case (2 clock me mb data fs m)
  then show ?case
    using mux_dispatch_ok [of me data "m\<lparr>mux_timer := timer_step (TUpdate (clock 0)) (mux_timer m)\<rparr>"]
    by (auto simp: bind_eq_Some_conv)
qed simp

text \<open>
  What a frame puts on the link of session \<open>i\<close>, of kind \<open>kd\<close> and with the target \<open>tgt\<close>: the data of a \<open>Keep\<close> frame
  of the session, for a TCP session to the session's target and for a UDP session to the target the frame
  itself names, without which it is dropped.
\<close>

definition keep_packet :: "sub_kind \<Rightarrow> destination \<Rightarrow> u16 \<Rightarrow> meta \<times> bytes \<times> bytes option \<Rightarrow> (destination \<times> bytes) option" where
  "keep_packet kd tgt i f = (case f of (me, _, data) \<Rightarrow>
     if sid me = i \<and> status me = ST_KEEP then Option.bind data (\<lambda>d. case kd of
       SubTcp \<Rightarrow> Some (tgt, d) | SubUdp \<Rightarrow> map_option (\<lambda>t. (t, d)) (target me))
     else None)"

definition keep_packets :: "sub_kind \<Rightarrow> destination \<Rightarrow> u16 \<Rightarrow> (meta \<times> bytes \<times> bytes option) list \<Rightarrow> (destination \<times> bytes) list" where
  "keep_packets kd tgt i fs = List.map_filter (keep_packet kd tgt i) fs"

lemma keep_packets_simps:
  "keep_packets kd tgt i [] = []"
  "keep_packets kd tgt i (f # fs) = (case keep_packet kd tgt i f of None \<Rightarrow> [] | Some x \<Rightarrow> [x]) @ keep_packets kd tgt i fs"
  by (simp_all add: keep_packets_def List.map_filter_simps split: option.split)

lemma dispatch_session:
  assumes "mux_ok m" and "sessions m i = Some j" and "mux_dispatch me data m = Some m'"
    and "sid me = i \<Longrightarrow> status me \<noteq> ST_NEW \<and> status me \<noteq> ST_END"
  shows "sessions m' i = Some j \<and> sub_kind (subs m' ! j) = sub_kind (subs m ! j) \<and>
     sub_target (subs m' ! j) = sub_target (subs m ! j) \<and>
     uplink (subs m' ! j) = uplink (subs m ! j) @
       (case keep_packet (sub_kind (subs m ! j)) (sub_target (subs m ! j)) i (me, mb, data) of None \<Rightarrow> [] | Some x \<Rightarrow> [x])"
proof (cases "sid me = i")
  case True
  have "j < length (subs m)" using assms(1,2) by (auto simp: mux_ok_def)
  then show ?thesis using True assms(2-4)
    by (auto simp: mux_dispatch_def handle_keep_def push_uplink_def keep_packet_def
        split: if_splits option.splits sub_kind.splits)
next
  case False
  have j: "j < length (subs m)" "sessions m (sid me) \<noteq> Some j"
    using assms(1,2) False by (auto simp: mux_ok_def)
  then show ?thesis using False assms(2,3)
    by (auto simp: mux_dispatch_def handle_new_def handle_keep_def handle_end_def push_uplink_def keep_packet_def
        close_sub_nth nth_append Let_def split: if_splits option.splits sub_kind.splits)
qed

lemma apply_session:
  assumes "apply_frames clock fs m = Some m'" and "mux_ok m" and "sessions m i = Some j"
    and "\<forall>(me, _, _) \<in> set fs. sid me = i \<longrightarrow> status me \<noteq> ST_NEW \<and> status me \<noteq> ST_END"
  shows "sessions m' i = Some j \<and>
     uplink (subs m' ! j) = uplink (subs m ! j) @ keep_packets (sub_kind (subs m ! j)) (sub_target (subs m ! j)) i fs"
  using assms
proof (induction fs arbitrary: clock m)
  case Nil
  then show ?case by (simp add: keep_packets_simps)
next
  case (Cons f fs)
  obtain me mb data where f: "f = (me, mb, data)" by (cases f)
  let ?m = "m\<lparr>mux_timer := timer_step (TUpdate (clock 0)) (mux_timer m)\<rparr>"
  obtain m1 where m1: "mux_dispatch me data ?m = Some m1" "apply_frames (\<lambda>i. clock (Suc i)) fs m1 = Some m'"
    using Cons.prems(1) f by (auto simp: bind_eq_Some_conv)
  have d: "sessions m1 i = Some j \<and> sub_kind (subs m1 ! j) = sub_kind (subs m ! j) \<and>
     sub_target (subs m1 ! j) = sub_target (subs m ! j) \<and>
     uplink (subs m1 ! j) = uplink (subs m ! j) @
       (case keep_packet (sub_kind (subs m ! j)) (sub_target (subs m ! j)) i (me, mb, data) of None \<Rightarrow> [] | Some x \<Rightarrow> [x])"
    using dispatch_session [of ?m i j me data m1 mb] Cons.prems(2-4) m1(1) f by auto
  have "mux_ok m1" using mux_dispatch_ok [OF m1(1)] Cons.prems(2) by simp
  with Cons.IH [OF m1(2)] Cons.prems(4) d show ?case
    by (auto simp: f keep_packets_simps)
qed

section \<open>Properties\<close>

text \<open>
  C13: The demultiplexer applies the frames of a carrier in order, however the carrier's bytes are cut
  into reads, and afterwards waits for more: with one unit of fuel more than frames it reaches exactly
  the state that applying the frames one by one gives. In that state every session has a link of its
  own that is open, and every link without a session is closed.
\<close>

theorem mux_demultiplexes:
  assumes "\<forall>(me, mb, data) \<in> set fs. mux_frame_ok me mb data" and "[] \<notin> set ds"
    and "leftover @ concat ds = frames_wire fs"
    and "apply_frames clock fs (mux_init idle_timeout now) = Some m"
  shows "demux (Suc (length fs)) clock leftover (map ROk ds) (mux_init idle_timeout now) = Some (Waiting, m) \<and>
    mux_ok m"
  using demux_frames [OF assms(1-3) lessI assms(4)] apply_frames_ok [OF assms(4) mux_init_ok] by simp

definition sample_new :: meta where
  "sample_new = \<lparr>sid = 1, status = ST_NEW, option = OPT_DATA, target = Some (dest_tcp (Ip (V4 0x0A000001)) 80)\<rparr>"

definition sample_keep :: meta where
  "sample_keep = \<lparr>sid = 1, status = ST_KEEP, option = OPT_DATA, target = None\<rparr>"

definition sample_frames :: "(meta \<times> bytes \<times> bytes option) list" where
  "sample_frames =
     [(sample_new, [0, 1, 1, 1, 1, 0, 80, 1, 10, 0, 0, 1], Some [5]),
      (sample_keep, [0, 1, 2, 1], Some [6, 7])]"

lemma sample_frames_ok: "\<forall>(me, mb, data) \<in> set sample_frames. mux_frame_ok me mb data"
proof -
  have "parse_meta [0, 1, 1, 1, 1, 0, 80, 1, 10, 0, 0, 1] = Some sample_new" "parse_meta [0, 1, 2, 1] = Some sample_keep"
    by code_simp+
  then show ?thesis
    by (simp add: sample_frames_def mux_frame_ok_def sample_new_def sample_keep_def mux_consts)
qed

lemma mux_demultiplexes_witness:
  "\<exists>m. demux 3 id [0, 12, 0, 1] (map ROk [[1, 1, 1, 0, 80, 1, 10, 0, 0, 1, 0], [1, 5, 0, 4, 0, 1, 2, 1, 0, 2, 6, 7]])
     (mux_init 300 0) = Some (Waiting, m) \<and> mux_ok m"
proof -
  have w: "[0, 12, 0, 1] @ concat [[1, 1, 1, 0, 80, 1, 10, 0, 0, 1, 0], [1, 5, 0, 4, 0, 1, 2, 1, 0, 2, 6, 7]] =
      frames_wire sample_frames" by code_simp
  obtain m where m: "apply_frames id sample_frames (mux_init 300 0) = Some m"
    by (simp add: sample_frames_def mux_dispatch_def sample_new_def sample_keep_def mux_consts)
  show ?thesis
    using mux_demultiplexes [OF sample_frames_ok _ w m] by (simp add: sample_frames_def numeral_3_eq_3)
qed

text \<open>
  C14: A session's link carries exactly the session's own data: after a \<open>New\<close> frame, and until another \<open>New\<close> or
  an \<open>End\<close> of the same identifier, it holds the payload of the \<open>New\<close> frame followed by the payloads of the
  session's \<open>Keep\<close> frames, in order, whatever the other sessions of the carrier do. In a TCP session every
  payload goes to the session's target, and an empty first payload is left out; in a UDP session a \<open>Keep\<close>
  payload goes to the target its own frame names, and one without a target is dropped. (The link is what the
  demultiplexer sends; an egress that has ended no longer takes it.)
\<close>

theorem mux_session_isolated:
  assumes "mux_ok m" and "status me = ST_NEW" and "target me = Some tgt"
    and "apply_frames clock ((me, mb, data) # fs) m = Some m'"
    and "\<forall>(me', _, _) \<in> set fs. sid me' = sid me \<longrightarrow> status me' \<noteq> ST_NEW \<and> status me' \<noteq> ST_END"
  shows "\<exists>j. sessions m' (sid me) = Some j \<and> sub_open (subs m' ! j) \<and>
    uplink (subs m' ! j) =
      (case data of None \<Rightarrow> [] | Some d \<Rightarrow> if network tgt \<noteq> Udp \<and> d = [] then [] else [(tgt, d)]) @
      keep_packets (if network tgt = Udp then SubUdp else SubTcp) tgt (sid me) fs"
proof -
  let ?m = "m\<lparr>mux_timer := timer_step (TUpdate (clock 0)) (mux_timer m)\<rparr>"
  let ?m1 = "handle_new me data ?m"
  have m1: "mux_dispatch me data ?m = Some ?m1" using assms(2) by (simp add: mux_dispatch_def)
  have run: "apply_frames (\<lambda>i. clock (Suc i)) fs ?m1 = Some m'" using assms(4) m1 by simp
  have ok: "mux_ok ?m1" using handle_new_ok assms(1) by simp
  have new: "sessions ?m1 (sid me) = Some (length (subs m))"
    "sub_kind (subs ?m1 ! length (subs m)) = (if network tgt = Udp then SubUdp else SubTcp)"
    "sub_target (subs ?m1 ! length (subs m)) = tgt"
    "uplink (subs ?m1 ! length (subs m)) =
       (case data of None \<Rightarrow> [] | Some d \<Rightarrow> if network tgt \<noteq> Udp \<and> d = [] then [] else [(tgt, d)])"
    using assms(3) by (auto simp: handle_new_def Let_def nth_append split: option.splits)
  note r = apply_session [OF run ok new(1) assms(5), unfolded new(2-4)]
  moreover have "sub_open (subs m' ! length (subs m))"
    using apply_frames_ok [OF run ok] r by (auto simp: mux_ok_def)
  ultimately show ?thesis by blast
qed

text \<open>A TCP session, and a UDP session with a \<open>Keep\<close> frame without a target, which is dropped.\<close>

definition sample_udp_new :: meta where
  "sample_udp_new = \<lparr>sid = 1, status = ST_NEW, option = OPT_DATA, target = Some (dest_udp (Ip (V4 0x0A000001)) 53)\<rparr>"

lemma mux_session_isolated_witness:
  "(\<exists>m' j. apply_frames id sample_frames (mux_init 300 0) = Some m' \<and> sessions m' 1 = Some j \<and>
     uplink (subs m' ! j) = map (Pair (dest_tcp (Ip (V4 0x0A000001)) 80)) [[5], [6, 7]]) \<and>
   (\<exists>m' j. apply_frames id [(sample_udp_new, [], Some [5]), (sample_keep, [], Some [6, 7])] (mux_init 300 0) = Some m' \<and>
     sessions m' 1 = Some j \<and> uplink (subs m' ! j) = [(dest_udp (Ip (V4 0x0A000001)) 53, [5])])"
proof
  obtain m where m: "apply_frames id sample_frames (mux_init 300 0) = Some m"
    by (simp add: sample_frames_def mux_dispatch_def sample_new_def sample_keep_def mux_consts)
  have "keep_packets SubTcp t 1 [(sample_keep, [0, 1, 2, 1], Some [6, 7])] = [(t, [6, 7])]" for t
    by (simp add: keep_packets_simps keep_packet_def sample_keep_def)
  with mux_session_isolated [OF mux_init_ok, of sample_new _ _ _ "Some [5]" "[(sample_keep, [0, 1, 2, 1], Some [6, 7])]", OF _ _ m [unfolded sample_frames_def]] m
  show "\<exists>m' j. apply_frames id sample_frames (mux_init 300 0) = Some m' \<and> sessions m' 1 = Some j \<and>
     uplink (subs m' ! j) = map (Pair (dest_tcp (Ip (V4 0x0A000001)) 80)) [[5], [6, 7]]"
    by (auto simp: sample_new_def sample_keep_def dest_tcp_def mux_consts)
next
  let ?fs = "[(sample_udp_new, [], Some [5]), (sample_keep, [], Some [6, 7])]"
  obtain m where m: "apply_frames id ?fs (mux_init 300 0) = Some m"
    by (simp add: mux_dispatch_def sample_udp_new_def sample_keep_def mux_consts)
  have "keep_packets SubUdp t 1 [(sample_keep, [], Some [6, 7])] = []" for t
    by (simp add: keep_packets_simps keep_packet_def sample_keep_def)
  with mux_session_isolated [OF mux_init_ok, of sample_udp_new _ _ "[]" "Some [5]" "[(sample_keep, [], Some [6, 7])]", OF _ _ m] m
  show "\<exists>m' j. apply_frames id ?fs (mux_init 300 0) = Some m' \<and> sessions m' 1 = Some j \<and>
     uplink (subs m' ! j) = [(dest_udp (Ip (V4 0x0A000001)) 53, [5])]"
    by (auto simp: sample_udp_new_def sample_keep_def dest_udp_def mux_consts)
qed

lemma chunks_concat: "0 < n \<Longrightarrow> concat (chunks n xs) = xs"
proof (induction n xs rule: chunks.induct)
  case (1 n xs)
  show ?case
  proof (cases "xs = []")
    case True
    then show ?thesis by (simp add: chunks.simps [of n "[]"])
  next
    case False
    then show ?thesis using 1 by (simp add: chunks.simps [of n xs])
  qed
qed

lemma chunks_size: "c \<in> set (chunks n xs) \<Longrightarrow> c \<noteq> [] \<and> length c \<le> n"
proof (induction n xs rule: chunks.induct)
  case (1 n xs)
  show ?case
  proof (cases "xs = [] \<or> n = 0")
    case True
    then show ?thesis using "1.prems" by (simp add: chunks.simps [of n xs])
  next
    case False
    then show ?thesis using 1 by (auto simp: chunks.simps [of n xs])
  qed
qed

lemma keep_meta:
  "parse_meta (be16 i @ [ST_KEEP, OPT_DATA]) = Some \<lparr>sid = i, status = ST_KEEP, option = OPT_DATA, target = None\<rparr>"
  "parse_meta (be16 i @ [ST_END, 0]) = Some \<lparr>sid = i, status = ST_END, option = 0, target = None\<rparr>"
proof -
  obtain h l where b: "be16 i = [h, l]" using be16_split by blast
  moreover have "word_of_be [h, l] = i" using word_of_be_be16 [of i] b by simp
  ultimately show "parse_meta (be16 i @ [ST_KEEP, OPT_DATA]) = Some \<lparr>sid = i, status = ST_KEEP, option = OPT_DATA, target = None\<rparr>"
    "parse_meta (be16 i @ [ST_END, 0]) = Some \<lparr>sid = i, status = ST_END, option = 0, target = None\<rparr>"
    by (simp_all add: parse_meta_def mux_consts)
qed

lemma frame_keep_tcp_wire:
  "length d \<le> MAX_DATA \<Longrightarrow> frame_keep_tcp i d = mux_wire (be16 i @ [ST_KEEP, OPT_DATA]) (Some d)"
  by (simp add: frame_keep_tcp_def mux_wire_def MAX_DATA_def)

lemma frame_end_wire: "frame_end i = mux_wire (be16 i @ [ST_END, 0]) None"
  by (simp add: frame_end_def mux_wire_def)

text \<open>
  What a TCP session sends back to the client is a sequence of well-formed frames of that session
  that ends with an \<open>End\<close> frame: every data frame carries between 1 and 8192 bytes (so the length field
  never overflows to the fallback 0), and the payloads put together are the bytes the target sent.
\<close>

lemma mux_downlink_frames:
  "\<exists>ps. tcp_downlink i cs =
      map (\<lambda>d. mux_wire (be16 i @ [ST_KEEP, OPT_DATA]) (Some d)) ps @ [mux_wire (be16 i @ [ST_END, 0]) None] \<and>
    concat ps = concat cs \<and>
    (\<forall>d \<in> set ps. 0 < length d \<and> length d \<le> MAX_DATA \<and>
       mux_frame_ok \<lparr>sid = i, status = ST_KEEP, option = OPT_DATA, target = None\<rparr> (be16 i @ [ST_KEEP, OPT_DATA]) (Some d)) \<and>
    mux_frame_ok \<lparr>sid = i, status = ST_END, option = 0, target = None\<rparr> (be16 i @ [ST_END, 0]) None"
proof -
  define ps where "ps = concat (map (chunks MAX_DATA) cs)"
  have size: "d \<in> set ps \<Longrightarrow> 0 < length d \<and> length d \<le> MAX_DATA" for d
    using chunks_size by (auto simp: ps_def)
  have "concat (map (\<lambda>c. map (frame_keep_tcp i) (chunks MAX_DATA c)) cs) = map (frame_keep_tcp i) ps"
    by (simp add: ps_def map_concat o_def)
  also have "\<dots> = map (\<lambda>d. mux_wire (be16 i @ [ST_KEEP, OPT_DATA]) (Some d)) ps"
    using size by (intro map_cong) (auto simp: frame_keep_tcp_wire)
  finally have "tcp_downlink i cs =
      map (\<lambda>d. mux_wire (be16 i @ [ST_KEEP, OPT_DATA]) (Some d)) ps @ [mux_wire (be16 i @ [ST_END, 0]) None]"
    by (simp add: tcp_downlink_def frame_end_wire)
  moreover have "concat ps = concat cs"
    unfolding ps_def by (induction cs) (simp_all add: chunks_concat MAX_DATA_def)
  moreover have "\<forall>d \<in> set ps. 0 < length d \<and> length d \<le> MAX_DATA \<and>
      mux_frame_ok \<lparr>sid = i, status = ST_KEEP, option = OPT_DATA, target = None\<rparr> (be16 i @ [ST_KEEP, OPT_DATA]) (Some d)"
    using size keep_meta(1) [of i] by (simp add: mux_frame_ok_def MAX_META_def OPT_DATA_def)
  moreover have "mux_frame_ok \<lparr>sid = i, status = ST_END, option = 0, target = None\<rparr> (be16 i @ [ST_END, 0]) None"
    using keep_meta(2) [of i] by (simp add: mux_frame_ok_def MAX_META_def)
  ultimately show ?thesis by blast
qed

lemma mux_downlink_frames_witness:
  "\<exists>ps. tcp_downlink 1 [[5], [], [6, 7]] =
      map (\<lambda>d. mux_wire (be16 1 @ [ST_KEEP, OPT_DATA]) (Some d)) ps @ [mux_wire (be16 1 @ [ST_END, 0]) None] \<and>
    concat ps = [5, 6, 7]"
  using mux_downlink_frames [of 1 "[[5], [], [6, 7]]"] by auto

text \<open>
  The carrier does not end when it idles. After the idle timer has fired, the demultiplexer still
  accepts a \<open>New\<close> frame and opens its session, and the timer stays fired; a relay started with it stops
  at once with the idle error and forwards nothing.
\<close>

lemma mux_survives_idle:
  assumes "cancelled (mux_timer m)" and "mux_frame_ok me mb data" and "status me = ST_NEW"
    and "target me = Some tgt" and "[] \<notin> set ds" and "buf @ concat ds = mux_wire mb data @ rest"
  shows "\<exists>buf' evs' m'. demux_turn now buf (map ROk ds) m = Inr (buf', evs', m') \<and>
     sessions m' (sid me) = Some (length (subs m)) \<and> cancelled (mux_timer m') \<and>
     splice (Inl UIdle # evs) s = (Some (Inl idle_err), s)"
proof -
  let ?m = "m\<lparr>mux_timer := timer_step (TUpdate now) (mux_timer m)\<rparr>"
  have d: "mux_dispatch me data ?m = Some (handle_new me data ?m)" using assms(3) by (simp add: mux_dispatch_def)
  have new: "sessions (handle_new me data ?m) (sid me) = Some (length (subs m))"
    "mux_timer (handle_new me data ?m) = timer_step (TUpdate now) (mux_timer m)"
    using assms(4) by (simp_all add: handle_new_def Let_def)
  obtain k left where "demux_turn now buf (map ROk ds) m = Inr (left, map ROk (drop k ds), handle_new me data ?m)"
    using demux_turn_frame [OF assms(2,5,6), of now m] d by auto
  then show ?thesis using new assms(1)
    by (intro exI [of _ left] exI [of _ "map ROk (drop k ds)"] exI [of _ "handle_new me data ?m"])
       (simp add: timer_step_def splice_def conn_to_link_iter_def)
qed

lemma mux_survives_idle_witness:
  "\<exists>buf' evs' m'. demux_turn 500 [] (map ROk [mux_wire [0, 1, 1, 1, 1, 0, 80, 1, 10, 0, 0, 1] (Some [5])])
       ((mux_init 300 0)\<lparr>mux_timer := timer_run [TWake 300] (timer_new 300 0)\<rparr>) = Inr (buf', evs', m') \<and>
     sessions m' 1 = Some 0 \<and> cancelled (mux_timer m')"
proof -
  have c: "cancelled (mux_timer ((mux_init 300 0)\<lparr>mux_timer := timer_run [TWake 300] (timer_new 300 0)\<rparr>))"
    by code_simp
  have f: "mux_frame_ok sample_new [0, 1, 1, 1, 1, 0, 80, 1, 10, 0, 0, 1] (Some [5])"
    using sample_frames_ok by (simp add: sample_frames_def)
  show ?thesis
    using mux_survives_idle [OF c f, of _ "[mux_wire [0, 1, 1, 1, 1, 0, 80, 1, 10, 0, 0, 1] (Some [5])]" "[]" "[]" 500 "[]" "copy_init stats_new"]
    by (fastforce simp: sample_new_def mux_init_def mux_wire_def)
qed

end
