(* ===== verification/IoMonad.thy ===== *)
theory IoMonad
  imports ProxyIo
begin

text \<open>
  Sequences of reads and writes on a connection, for the handshakes that talk back and forth (SOCKS5 in
  both roles). A step ends with a value, with an error, or waits for ever (\<open>Blocked\<close>), and in every case
  leaves a connection; \<open>io_bind\<close> is the \<open>?\<close> after an \<open>.await\<close>.
\<close>

datatype 'a outcome = Blocked | Fail io_error | Done 'a

type_synonym 'a io = "conn \<Rightarrow> 'a outcome \<times> conn"

definition io_return :: "'a \<Rightarrow> 'a io" where
  "io_return x = (\<lambda>c. (Done x, c))"

definition io_fail :: "io_error \<Rightarrow> 'a io" where
  "io_fail e = (\<lambda>c. (Fail e, c))"

definition io_bind :: "'a io \<Rightarrow> ('a \<Rightarrow> 'b io) \<Rightarrow> 'b io" where
  "io_bind m f = (\<lambda>c. case m c of
     (Blocked, c') \<Rightarrow> (Blocked, c') | (Fail e, c') \<Rightarrow> (Fail e, c') | (Done x, c') \<Rightarrow> f x c')"

definition io_lift :: "'a io_result \<Rightarrow> 'a io" where
  "io_lift r = (case r of Inl e \<Rightarrow> io_fail e | Inr x \<Rightarrow> io_return x)"

definition io_read :: "nat \<Rightarrow> bytes io" where
  "io_read n = (\<lambda>c. case read_exact n c of
     None \<Rightarrow> (Blocked, c\<lparr>reads := []\<rparr>) | Some (Inl e, c') \<Rightarrow> (Fail e, c') | Some (Inr b, c') \<Rightarrow> (Done b, c'))"

definition io_read_u8 :: "byte io" where
  "io_read_u8 = io_bind (io_read 1) (\<lambda>b. io_return (hd b))"

definition io_write :: "bytes \<Rightarrow> unit io" where
  "io_write bs = (\<lambda>c. case write_all bs c of (Inl e, c') \<Rightarrow> (Fail e, c') | (Inr u, c') \<Rightarrow> (Done u, c'))"

text \<open>\<open>tokio::time::timeout\<close> around a handshake: what would wait for ever ends in the deadline.\<close>

definition io_timeout :: "string \<Rightarrow> 'a io \<Rightarrow> 'a io" where
  "io_timeout msg m = (\<lambda>c. case m c of
     (Blocked, c') \<Rightarrow> (Fail (IoMsg TimedOut msg), c') | r \<Rightarrow> r)"

section \<open>Running on a peer that delivers its bytes\<close>

text \<open>\<open>runs m bs v out bs'\<close>: on a connection that delivers \<open>bs\<close> the step ends with \<open>v\<close>, writes \<open>out\<close>
  and leaves a connection that delivers \<open>bs'\<close>, whatever follows. Writes succeed.\<close>

definition runs :: "'a io \<Rightarrow> bytes \<Rightarrow> 'a \<Rightarrow> bytes \<Rightarrow> bytes \<Rightarrow> bool" where
  "runs m bs v out bs' \<longleftrightarrow> (\<forall>c evs. delivers_then c bs evs \<longrightarrow> write_outcomes c = [] \<longrightarrow>
     (\<exists>c'. m c = (Done v, c') \<and> delivers_then c' bs' evs \<and> sent c' = sent c @ out \<and> write_outcomes c' = []))"

lemma runsD:
  "runs m bs v out bs' \<Longrightarrow> delivers_then c bs evs \<Longrightarrow> write_outcomes c = [] \<Longrightarrow>
    \<exists>c'. m c = (Done v, c') \<and> delivers_then c' bs' evs \<and> sent c' = sent c @ out \<and> write_outcomes c' = []"
  unfolding runs_def by blast

lemma runs_return: "runs (io_return x) bs x [] bs"
  by (simp add: runs_def io_return_def)

lemma runs_bind:
  assumes "runs m bs x out1 bs1" and "runs (f x) bs1 y out2 bs2"
  shows "runs (io_bind m f) bs y (out1 @ out2) bs2"
  unfolding runs_def
proof (intro allI impI)
  fix c evs assume c: "delivers_then c bs evs" "write_outcomes c = []"
  from runsD [OF assms(1) c] obtain c1 where c1: "m c = (Done x, c1)" "delivers_then c1 bs1 evs"
    "sent c1 = sent c @ out1" "write_outcomes c1 = []" by blast
  from runsD [OF assms(2) c1(2,4)] obtain c2 where "f x c1 = (Done y, c2)" "delivers_then c2 bs2 evs"
    "sent c2 = sent c1 @ out2" "write_outcomes c2 = []" by blast
  then show "\<exists>c'. io_bind m f c = (Done y, c') \<and> delivers_then c' bs2 evs \<and> sent c' = sent c @ out1 @ out2 \<and>
      write_outcomes c' = []"
    using c1 by (simp add: io_bind_def)
qed

lemma runs_read: "length b = n \<Longrightarrow> runs (io_read n) (b @ r) b [] r"
  unfolding runs_def
proof (intro allI impI)
  fix c evs assume n: "length b = n" and c: "delivers_then c (b @ r) evs" "write_outcomes c = []"
  from read_exact_delivers [OF c(1), of n] n obtain c' where "read_exact n c = Some (Inr b, c')"
    "delivers_then c' r evs" "sent c' = sent c" "write_outcomes c' = write_outcomes c" by auto
  then show "\<exists>c'. io_read n c = (Done b, c') \<and> delivers_then c' r evs \<and> sent c' = sent c @ [] \<and> write_outcomes c' = []"
    using c(2) by (simp add: io_read_def)
qed

lemma runs_read_u8: "runs io_read_u8 (b # r) b [] r"
  using runs_bind [of "io_read 1" "b # r" "[b]" "[]" r "\<lambda>b. io_return (hd b)" b "[]" r]
    runs_read [of "[b]" 1 r] runs_return [of b r]
  by (simp add: io_read_u8_def)

lemma runs_write: "runs (io_write bs) r () bs r"
  by (simp add: runs_def io_write_def write_all_ok)

lemma runs_bind_silent: "runs m bs x [] bs1 \<Longrightarrow> runs (f x) bs1 y out bs2 \<Longrightarrow> runs (io_bind m f) bs y out bs2"
  using runs_bind [of m bs x "[]" bs1 f y out bs2] by simp

lemma runs_then:
  "runs m bs x out1 bs1 \<Longrightarrow> runs k bs1 y out2 bs2 \<Longrightarrow> runs (io_bind m (\<lambda>_. k)) bs y (out1 @ out2) bs2"
  by (rule runs_bind)

lemma runs_read_map:
  "length b = n \<Longrightarrow> runs (io_bind (io_read n) (\<lambda>b. io_return (g b))) (b @ r) (g b) [] r"
  by (rule runs_bind_silent [OF runs_read runs_return])

lemma runs_timeout: "runs m bs x out bs' \<Longrightarrow> runs (io_timeout msg m) bs x out bs'"
  unfolding runs_def io_timeout_def by fastforce

section \<open>What a step that ended has consumed\<close>

fun stream_in :: "read_event list \<Rightarrow> bytes" where
  "stream_in [] = []"
| "stream_in (ROk d # evs) = (if d = [] then [] else d @ stream_in evs)"
| "stream_in (RErr e # evs) = []"

lemma read_exact_events_consumes:
  assumes "read_exact_events n acc evs = Some (Inr b, evs')" and "length acc \<le> n"
  shows "acc @ stream_in evs = b @ stream_in evs' \<and> length b = n"
  using assms
proof (induction evs arbitrary: acc)
  case Nil
  then show ?case by (auto simp: read_exact_events.simps [of n acc] split: if_splits)
next
  case (Cons ev evs)
  show ?case
  proof (cases ev)
    case (ROk d)
    then show ?thesis using Cons.prems Cons.IH [of "acc @ d"]
      by (auto simp: read_exact_events.simps [of n acc] split: if_splits)
  next
    case (RErr e)
    then show ?thesis using Cons.prems by (auto simp: read_exact_events.simps [of n acc] split: if_splits)
  qed
qed

text \<open>\<open>consumed c c' bs\<close>: getting from \<open>c\<close> to \<open>c'\<close> took exactly the bytes \<open>bs\<close> off the connection.\<close>

definition consumed :: "conn \<Rightarrow> conn \<Rightarrow> bytes \<Rightarrow> bool" where
  "consumed c c' bs \<longleftrightarrow> stream_in (reads c) = bs @ stream_in (reads c')"

lemma io_read_Done: "io_read n c = (Done b, c') \<Longrightarrow> consumed c c' b \<and> length b = n \<and> sent c' = sent c"
  using read_exact_events_consumes [of n "[]" "reads c"]
  by (auto simp: io_read_def read_exact_def consumed_def split: option.splits sum.splits prod.splits)

lemma io_bind_Done:
  assumes "io_bind m f c = (Done y, c')"
  obtains x c1 where "m c = (Done x, c1)" "f x c1 = (Done y, c')"
  using assms by (auto simp: io_bind_def split: prod.splits outcome.splits)

lemma io_read_u8_Done: "io_read_u8 c = (Done b, c') \<Longrightarrow> consumed c c' [b] \<and> sent c' = sent c"
  by (auto simp: io_read_u8_def io_return_def length_Suc_conv elim!: io_bind_Done dest!: io_read_Done)

lemma io_write_Done: "io_write bs c = (Done u, c') \<Longrightarrow> consumed c c' [] \<and> sent c' = sent c @ bs"
  by (auto simp: io_write_def write_all_def consumed_def split: list.splits option.splits)

lemma consumed_trans: "consumed c c1 xs \<Longrightarrow> consumed c1 c2 ys \<Longrightarrow> consumed c c2 (xs @ ys)"
  by (simp add: consumed_def)

lemma io_return_Done [simp]: "io_return x c = (Done y, c') \<longleftrightarrow> y = x \<and> c' = c"
  by (auto simp: io_return_def)

lemma io_fail_Done [simp]: "io_fail e c \<noteq> (Done y, c')"
  by (simp add: io_fail_def)

lemma io_lift_simps [simp]: "io_lift (Inl e) = io_fail e" "io_lift (Inr x) = io_return x"
  by (simp_all add: io_lift_def)

end
