(* ===== verification/Socks.thy ===== *)
theory Socks
  imports IoMonad UdpRelay
begin

text \<open>
  proxy/src/socks.rs, the SOCKS5 inbound, and the SOCKS5 client of proxy/src/outbound.rs. Both
  handshakes are sequences of reads and writes on a connection. The bound port of a UDP association and
  the outcome of binding it are arguments. The relay of an association is one step per event of its
  \<open>select!\<close> loop.
\<close>

definition VERSION5 :: byte where "VERSION5 = 5"
definition AUTH_VERSION :: byte where "AUTH_VERSION = 1"
definition AUTH_NONE :: byte where "AUTH_NONE = 0"
definition AUTH_PASSWORD :: byte where "AUTH_PASSWORD = 2"
definition AUTH_NO_MATCH :: byte where "AUTH_NO_MATCH = 0xFF"
definition CMD_CONNECT :: byte where "CMD_CONNECT = 1"
definition SOCKS_CMD_UDP :: byte where "SOCKS_CMD_UDP = 3"
definition REP_SUCCESS :: byte where "REP_SUCCESS = 0"
definition REP_CMD_NOT_SUPPORTED :: byte where "REP_CMD_NOT_SUPPORTED = 7"
definition ATYP_IPV4 :: byte where "ATYP_IPV4 = 1"
definition ATYP_DOMAIN :: byte where "ATYP_DOMAIN = 3"
definition ATYP_IPV6 :: byte where "ATYP_IPV6 = 4"

lemmas socks_consts = VERSION5_def AUTH_VERSION_def AUTH_NONE_def AUTH_PASSWORD_def AUTH_NO_MATCH_def
  CMD_CONNECT_def SOCKS_CMD_UDP_def REP_SUCCESS_def REP_CMD_NOT_SUPPORTED_def ATYP_IPV4_def
  ATYP_DOMAIN_def ATYP_IPV6_def

definition invalid_data :: "string \<Rightarrow> io_error" where
  "invalid_data msg = IoMsg InvalidData msg"

section \<open>The server handshake\<close>

record socks_account =
  so_username :: string
  so_password :: string

definition account_for :: "socks_account list \<Rightarrow> bytes \<Rightarrow> bytes \<Rightarrow> socks_account option" where
  "account_for accounts u p =
     find (\<lambda>a. bytes_of_string (so_username a) = u \<and> bytes_of_string (so_password a) = p) accounts"

definition read_addr :: "(address \<times> u16) io" where
  "read_addr =
     io_bind io_read_u8 (\<lambda>atyp.
     io_bind
       (if atyp = ATYP_IPV4 then io_bind (io_read 6) (\<lambda>b. io_return (atyp # b))
        else if atyp = ATYP_IPV6 then io_bind (io_read 18) (\<lambda>b. io_return (atyp # b))
        else if atyp = ATYP_DOMAIN then
          io_bind io_read_u8 (\<lambda>len. io_bind (io_read (unat len + 2)) (\<lambda>b. io_return (atyp # len # b)))
        else io_fail (invalid_data ''socks: bad address type'')) (\<lambda>raw.
     io_lift (map_err (IoWrap InvalidData) (map_sum id fst (codec_read SOCKS raw)))))"

text \<open>The username/password exchange of the handshake.\<close>

definition socks_subnegotiation :: "socks_account list \<Rightarrow> unit io" where
  "socks_subnegotiation accounts =
     io_bind io_read_u8 (\<lambda>uver.
     if uver \<noteq> AUTH_VERSION then io_fail (invalid_data ''socks: bad auth version'')
     else io_bind io_read_u8 (\<lambda>ulen.
       io_bind (io_read (unat ulen)) (\<lambda>uname.
       io_bind io_read_u8 (\<lambda>plen.
       io_bind (io_read (unat plen)) (\<lambda>passwd.
       if account_for accounts uname passwd = None then
         io_bind (io_write [AUTH_VERSION, 1]) (\<lambda>_.
         io_fail (IoMsg PermissionDenied ''socks: auth failed''))
       else io_write [AUTH_VERSION, 0])))))"

text \<open>The request that ends the handshake, and the choice of the method that precedes it.\<close>

definition socks_request :: "(byte \<times> address \<times> u16) io" where
  "socks_request =
     io_bind io_read_u8 (\<lambda>rver.
     if rver \<noteq> VERSION5 then io_fail (invalid_data ''socks: bad request version'')
     else io_bind io_read_u8 (\<lambda>cmd.
       io_bind io_read_u8 (\<lambda>rsv.
       io_bind read_addr (\<lambda>(a, p). io_return (cmd, a, p)))))"

definition socks_select :: "socks_account list \<Rightarrow> bytes \<Rightarrow> (byte \<times> address \<times> u16) io" where
  "socks_select accounts methods =
     (let expected = (if accounts = [] then AUTH_NONE else AUTH_PASSWORD) in
      if expected \<notin> set methods then
        io_bind (io_write [VERSION5, AUTH_NO_MATCH]) (\<lambda>_.
        io_fail (invalid_data ''socks: no acceptable auth method''))
      else
        io_bind (io_write [VERSION5, expected]) (\<lambda>_.
        io_bind (if expected = AUTH_PASSWORD then socks_subnegotiation accounts else io_return ()) (\<lambda>_.
        socks_request)))"

definition handshake :: "socks_account list \<Rightarrow> (byte \<times> address \<times> u16) io" where
  "handshake accounts =
     io_bind io_read_u8 (\<lambda>ver.
     if ver \<noteq> VERSION5 then io_fail (invalid_data ''socks: unsupported version'')
     else io_bind io_read_u8 (\<lambda>nmethods.
       io_bind (io_read (unat nmethods)) (socks_select accounts)))"

section \<open>The handler\<close>

definition write_reply :: "byte \<Rightarrow> unit io" where
  "write_reply rep = io_write [VERSION5, rep, 0, ATYP_IPV4, 0, 0, 0, 0, 0, 0]"

definition write_reply_port :: "byte \<Rightarrow> u16 \<Rightarrow> unit io" where
  "write_reply_port rep p = io_write ([VERSION5, rep, 0, ATYP_IPV4, 0, 0, 0, 0] @ be16 p)"

datatype socks_flow =
    SoRoute proxy_decision
  | SoUdpAssociate ctx "nat option"

text \<open>\<open>bound\<close> is the outcome of binding the relay socket: its port.\<close>

definition socks_decode ::
  "socks_account list \<Rightarrow> u16 io_result \<Rightarrow> stats option \<Rightarrow> ctx \<Rightarrow> conn \<Rightarrow> socks_flow outcome \<times> conn \<times> stats option" where
  "socks_decode accounts bound st cx c =
     (case io_timeout ''socks handshake timeout'' (handshake accounts) c of
        (Blocked, c1) \<Rightarrow> (Blocked, c1, st)
      | (Fail e, c1) \<Rightarrow> (Fail e, c1, st)
      | (Done (cmd, a, p), c1) \<Rightarrow>
          (case user_counter cx st of (counter, st') \<Rightarrow>
           (case (if cmd = CMD_CONNECT then
                    io_bind (write_reply REP_SUCCESS) (\<lambda>_.
                    io_return (SoRoute \<lparr>pd_target = sniff_override (dest_tcp a p) [], pd_ctx = cx,
                       pd_link = RelayStream counter []\<rparr>))
                  else if cmd = SOCKS_CMD_UDP then
                    (case bound of
                       Inl e \<Rightarrow> io_bind (write_reply REP_CMD_NOT_SUPPORTED) (\<lambda>_. io_fail e)
                     | Inr bnd_port \<Rightarrow> io_bind (write_reply_port REP_SUCCESS bnd_port) (\<lambda>_.
                         io_return (SoUdpAssociate cx counter)))
                  else io_bind (write_reply REP_CMD_NOT_SUPPORTED) (\<lambda>_.
                    io_fail (invalid_data ''socks: unsupported command''))) c1 of
              (r, c2) \<Rightarrow> (r, c2, st'))))"

section \<open>UDP associations\<close>

definition decode_socks_udp :: "bytes \<Rightarrow> (destination \<times> bytes) option" where
  "decode_socks_udp d =
     (if length d < 3 then None
      else if d ! 2 \<noteq> 0 then None
      else case codec_read SOCKS (drop 3 d) of
        Inl _ \<Rightarrow> None
      | Inr ((a, p), b) \<Rightarrow> Some (dest_udp a p, b))"

definition encode_socks_udp :: "destination \<Rightarrow> bytes \<Rightarrow> bytes option" where
  "encode_socks_udp tgt payload =
     map_option (\<lambda>out. out @ payload) (res_ok (codec_write SOCKS [0, 0, 0] (address tgt) (port tgt)))"

record assoc =
  client :: "socket_addr option"
  egress_out :: "(socket_addr \<times> bytes) list"
  client_out :: "(socket_addr \<times> bytes) list"
  assoc_stats :: stats

datatype assoc_event =
    AIdle
  | AClient "io_error + socket_addr \<times> bytes"
  | AEgress "io_error + socket_addr \<times> bytes"
  | AControl read_event

definition assoc_count_up :: "nat option \<Rightarrow> nat \<Rightarrow> assoc \<Rightarrow> assoc" where
  "assoc_count_up c n s = (case c of None \<Rightarrow> s
     | Some a \<Rightarrow> s\<lparr>assoc_stats := add_up a (word_of_nat n) (assoc_stats s)\<rparr>)"

definition assoc_count_down :: "nat option \<Rightarrow> nat \<Rightarrow> assoc \<Rightarrow> assoc" where
  "assoc_count_down c n s = (case c of None \<Rightarrow> s
     | Some a \<Rightarrow> s\<lparr>assoc_stats := add_down a (word_of_nat n) (assoc_stats s)\<rparr>)"

text \<open>One turn of the loop; \<open>Some\<close> is its end. Errors of the two \<open>send_to\<close> calls are ignored.\<close>

definition socks_udp_step ::
  "resolver \<Rightarrow> nat option \<Rightarrow> assoc_event \<Rightarrow> assoc \<Rightarrow> unit io_result option \<times> assoc" where
  "socks_udp_step resolve c ev s = (case ev of
     AIdle \<Rightarrow> (Some (Inr ()), s)
   | AClient (Inl e) \<Rightarrow> (Some (Inl e), s)
   | AClient (Inr (from, d)) \<Rightarrow>
       let s = s\<lparr>client := Some from\<rparr>
       in (None, case decode_socks_udp d of
            None \<Rightarrow> s
          | Some (tgt, payload) \<Rightarrow>
              (case resolve_first resolve tgt of
                 Inl _ \<Rightarrow> s
               | Inr addr \<Rightarrow>
                   let s = assoc_count_up c (length payload) s
                   in s\<lparr>egress_out := egress_out s @ [(addr, payload)]\<rparr>))
   | AEgress (Inl e) \<Rightarrow> (Some (Inl e), s)
   | AEgress (Inr ((ip, p), payload)) \<Rightarrow>
       (None, case client s of
          None \<Rightarrow> s
        | Some addr \<Rightarrow>
            (case encode_socks_udp (dest_udp (Ip ip) p) payload of
               None \<Rightarrow> s
             | Some d \<Rightarrow>
                 let s = assoc_count_down c (length payload) s
                 in s\<lparr>client_out := client_out s @ [(addr, d)]\<rparr>))
   | AControl (RErr _) \<Rightarrow> (Some (Inr ()), s)
   | AControl (ROk d) \<Rightarrow> if d = [] then (Some (Inr ()), s) else (None, s))"

section \<open>The client handshake\<close>

definition discard_socks_bound_addr :: "byte \<Rightarrow> unit io" where
  "discard_socks_bound_addr atyp =
     (if atyp = ATYP_IPV4 then io_bind (io_read 6) (\<lambda>_. io_return ())
      else if atyp = ATYP_IPV6 then io_bind (io_read 18) (\<lambda>_. io_return ())
      else if atyp = ATYP_DOMAIN then
        io_bind (io_read 1) (\<lambda>len. io_bind (io_read (unat (hd len) + 2)) (\<lambda>_. io_return ()))
      else io_fail (invalid_data ''socks outbound bad reply address type''))"

definition socks5_authenticate :: "bytes \<Rightarrow> bytes \<Rightarrow> unit io" where
  "socks5_authenticate username password =
     (if 255 < length username then io_fail (IoMsg InvalidInput ''socks outbound username is too long'')
      else if 255 < length password then io_fail (IoMsg InvalidInput ''socks outbound password is too long'')
      else io_bind (io_write ([1, word_of_nat (length username)] @ username @ [word_of_nat (length password)] @ password)) (\<lambda>_.
        io_bind (io_read 2) (\<lambda>resp.
        if resp = [1, 0] then io_return ()
        else io_fail (IoMsg PermissionDenied ''socks outbound username/password rejected''))))"

definition socks5_connect :: "destination \<Rightarrow> unit io" where
  "socks5_connect dest =
     (case codec_write SOCKS [VERSION5, CMD_CONNECT, 0] (address dest) (port dest) of
        Inl e \<Rightarrow> io_fail (io_from_error e)
      | Inr req \<Rightarrow> io_bind (io_write req) (\<lambda>_.
          io_bind (io_read 4) (\<lambda>head.
          if head ! 0 \<noteq> VERSION5 then io_fail (invalid_data ''socks outbound bad reply version'')
          else if head ! 1 \<noteq> 0 then io_fail (IoMsg PermissionDenied ''socks outbound connect rejected'')
          else discard_socks_bound_addr (head ! 3))))"

definition socks5_handshake :: "destination \<Rightarrow> bytes \<Rightarrow> bytes \<Rightarrow> unit io" where
  "socks5_handshake dest username password =
     (let auth = (if username = [] \<and> password = [] then AUTH_NONE else AUTH_PASSWORD) in
      io_bind (io_write [VERSION5, 1, auth]) (\<lambda>_.
      io_bind (io_read 2) (\<lambda>resp.
      if resp \<noteq> [VERSION5, auth] then
        io_fail (IoMsg PermissionDenied ''socks outbound auth method rejected'')
      else
        io_bind (if auth = AUTH_PASSWORD then socks5_authenticate username password else io_return ()) (\<lambda>_.
        socks5_connect dest))))"

section \<open>Lemmas\<close>

lemma byte_for_socks:
  "byte_for (family SOCKS) a = (case a of Ip (V4 _) \<Rightarrow> 1 | Domain _ \<Rightarrow> 3 | Ip (V6 _) \<Rightarrow> 4)"
  by (simp add: byte_for_def SOCKS_def TROJAN_def)

lemma codec_read_socks:
  "canonical_addr a \<Longrightarrow> codec_read SOCKS (addr_wire SOCKS a @ be16 p @ r) = Inr ((a, p), r)"
  using codec_read_wire [of a SOCKS p r] by (simp add: SOCKS_def TROJAN_def)

lemma runs_read_addr:
  assumes "canonical_addr a"
  shows "runs read_addr (addr_wire SOCKS a @ be16 p @ r) (a, p) [] r"
proof -
  have parsed: "io_lift (map_err (IoWrap InvalidData) (map_sum id fst (codec_read SOCKS (addr_wire SOCKS a @ be16 p)))) = io_return (a, p)"
    using codec_read_socks [OF assms, of p "[]"] by simp
  obtain t w where w: "addr_wire SOCKS a = t # w" by (simp add: addr_wire_def)
  have step: "runs
     (if t = ATYP_IPV4 then io_bind (io_read 6) (\<lambda>b. io_return (t # b))
      else if t = ATYP_IPV6 then io_bind (io_read 18) (\<lambda>b. io_return (t # b))
      else if t = ATYP_DOMAIN then
        io_bind io_read_u8 (\<lambda>len. io_bind (io_read (unat len + 2)) (\<lambda>b. io_return (t # len # b)))
      else io_fail (invalid_data ''socks: bad address type'')) (w @ be16 p @ r) (addr_wire SOCKS a @ be16 p) [] r"
  proof (cases a)
    case (Ip ip)
    then show ?thesis using w
    proof (cases ip)
      case (V4 x)
      then have "t = ATYP_IPV4" "w = v4_octets x" using w Ip
        by (auto simp: addr_wire_def byte_for_socks ATYP_IPV4_def)
      then show ?thesis using w
        using runs_read_map [of "w @ be16 p" 6 "(#) t" r] by simp
    next
      case (V6 x)
      then have "t = ATYP_IPV6" "w = v6_octets x" using w Ip
        by (auto simp: addr_wire_def byte_for_socks ATYP_IPV6_def)
      then show ?thesis using w
        using runs_read_map [of "w @ be16 p" 18 "(#) t" r] by (simp add: ATYP_IPV4_def ATYP_IPV6_def)
    qed
  next
    case (Domain d)
    then have t: "t = ATYP_DOMAIN" "w = word_of_nat (length d) # bytes_of_string d" using w
      by (auto simp: addr_wire_def byte_for_socks ATYP_DOMAIN_def)
    have len: "unat (word_of_nat (length d) :: byte) = length d"
      using assms Domain by (simp add: canonical_addr_def unat_of_nat)
    have "runs (io_bind io_read_u8 (\<lambda>len. io_bind (io_read (unat len + 2)) (\<lambda>b. io_return (t # len # b))))
        (word_of_nat (length d) # (bytes_of_string d @ be16 p) @ r) (t # word_of_nat (length d) # bytes_of_string d @ be16 p) [] r"
      by (intro runs_bind_silent [OF runs_read_u8] runs_bind_silent [OF runs_read] runs_return) (simp add: len)
    then show ?thesis using w t by (simp add: ATYP_IPV4_def ATYP_IPV6_def ATYP_DOMAIN_def)
  qed
  have parse: "runs (io_lift (map_err (IoWrap InvalidData) (map_sum id fst (codec_read SOCKS (addr_wire SOCKS a @ be16 p))))) r (a, p) [] r"
    unfolding parsed by (rule runs_return)
  have "runs read_addr (t # w @ be16 p @ r) (a, p) [] r"
    unfolding read_addr_def
    by (rule runs_bind_silent [OF runs_read_u8], rule runs_bind_silent [OF step], rule parse)
  then show ?thesis by (simp add: w)
qed

section \<open>Client and server understand each other\<close>

text \<open>The bytes of both sides of a handshake that ends in a CONNECT.\<close>

definition socks_login :: "bytes \<Rightarrow> bytes \<Rightarrow> bytes" where
  "socks_login u pw =
     (if u = [] \<and> pw = [] then [] else [1, word_of_nat (length u)] @ u @ [word_of_nat (length pw)] @ pw)"

definition socks_client_bytes :: "bytes \<Rightarrow> bytes \<Rightarrow> address \<Rightarrow> u16 \<Rightarrow> bytes" where
  "socks_client_bytes u pw a p =
     [5, 1, if u = [] \<and> pw = [] then 0 else 2] @ socks_login u pw @ [5, 1, 0] @ addr_wire SOCKS a @ be16 p"

definition socks_hello_bytes :: "bytes \<Rightarrow> bytes \<Rightarrow> bytes" where
  "socks_hello_bytes u pw = (if u = [] \<and> pw = [] then [5, 0] else [5, 2, 1, 0])"

definition socks_reply_bytes :: bytes where
  "socks_reply_bytes = [5, 0, 0, 1, 0, 0, 0, 0, 0, 0]"

lemma unat_len8: "length xs \<le> 255 \<Longrightarrow> unat (word_of_nat (length xs) :: byte) = length xs"
  by (simp add: unat_of_nat)

lemma runs_subnegotiation:
  assumes "account_for accounts u pw \<noteq> None" and "length u \<le> 255" and "length pw \<le> 255"
  shows "runs (socks_subnegotiation accounts)
     (1 # word_of_nat (length u) # u @ word_of_nat (length pw) # pw @ r) () [1, 0] r"
  unfolding socks_subnegotiation_def
  apply (rule runs_bind_silent [OF runs_read_u8])
  apply (simp add: AUTH_VERSION_def)
  apply (rule runs_bind_silent [OF runs_read_u8])
  apply (rule runs_bind_silent [OF runs_read])
   apply (simp add: unat_len8 assms)
  apply (rule runs_bind_silent [OF runs_read_u8])
  apply (rule runs_bind_silent [OF runs_read])
   apply (simp add: unat_len8 assms)
  using assms(1) runs_write [of "[AUTH_VERSION, 0]"] by (auto simp: AUTH_VERSION_def)

text \<open>Who may log in: nobody has to when there are no accounts, otherwise the pair is an account.\<close>

definition may_login :: "socks_account list \<Rightarrow> bytes \<Rightarrow> bytes \<Rightarrow> bool" where
  "may_login accounts u pw \<longleftrightarrow>
     (if accounts = [] then u = [] \<and> pw = []
      else (u \<noteq> [] \<or> pw \<noteq> []) \<and> account_for accounts u pw \<noteq> None \<and> length u \<le> 255 \<and> length pw \<le> 255)"

lemma runs_login:
  assumes "may_login accounts u pw"
  shows "runs (if accounts = [] then io_return () else socks_subnegotiation accounts) (socks_login u pw @ r) ()
     (if u = [] \<and> pw = [] then [] else [1, 0]) r"
  using assms runs_subnegotiation [of accounts u pw r]
  by (auto simp: may_login_def socks_login_def runs_return split: if_splits)

lemma runs_request:
  assumes "canonical_addr a"
  shows "runs socks_request (5 # 1 # 0 # addr_wire SOCKS a @ be16 p @ r) (CMD_CONNECT, a, p) [] r"
  unfolding socks_request_def
  apply (rule runs_bind_silent [OF runs_read_u8])
  apply (simp add: VERSION5_def)
  apply (rule runs_bind_silent [OF runs_read_u8])
  apply (rule runs_bind_silent [OF runs_read_u8])
  apply (rule runs_bind_silent [OF runs_read_addr [OF assms]])
  by (simp add: runs_return CMD_CONNECT_def)

lemma runs_select:
  assumes "canonical_addr a" and "may_login accounts u pw"
  shows "runs (socks_select accounts [if u = [] \<and> pw = [] then 0 else 2])
     (socks_login u pw @ 5 # 1 # 0 # addr_wire SOCKS a @ be16 p @ r) (CMD_CONNECT, a, p) (socks_hello_bytes u pw) r"
proof -
  define expected where "expected = (if accounts = [] then AUTH_NONE else AUTH_PASSWORD)"
  have auth: "expected = (if u = [] \<and> pw = [] then 0 else 2)"
    using assms(2) by (auto simp: expected_def may_login_def AUTH_NONE_def AUTH_PASSWORD_def split: if_splits)
  have pw: "(expected = AUTH_PASSWORD) = (accounts \<noteq> [])"
    by (simp add: expected_def AUTH_NONE_def AUTH_PASSWORD_def)
  have login: "runs (io_bind (if expected = AUTH_PASSWORD then socks_subnegotiation accounts else io_return ()) (\<lambda>_. socks_request))
      (socks_login u pw @ 5 # 1 # 0 # addr_wire SOCKS a @ be16 p @ r) (CMD_CONNECT, a, p)
      ((if u = [] \<and> pw = [] then [] else [1, 0]) @ []) r"
    using runs_login [OF assms(2), of "5 # 1 # 0 # addr_wire SOCKS a @ be16 p @ r"]
    by (intro runs_then [OF _ runs_request [OF assms(1)]]) (auto simp: pw split: if_splits)
  have out: "[VERSION5, expected] @ (if u = [] \<and> pw = [] then [] else [1, 0]) @ [] = socks_hello_bytes u pw"
    by (simp add: auth socks_hello_bytes_def VERSION5_def)
  show ?thesis
    unfolding socks_select_def Let_def expected_def [symmetric] auth [symmetric]
    using runs_then [OF runs_write login, of "[VERSION5, expected]", unfolded out] by simp
qed

lemma runs_handshake:
  assumes "canonical_addr a" and "may_login accounts u pw"
  shows "runs (handshake accounts) (socks_client_bytes u pw a p @ r) (CMD_CONNECT, a, p) (socks_hello_bytes u pw) r"
proof -
  let ?m = "if u = [] \<and> pw = [] then 0 else 2 :: byte"
  have "runs (io_bind (io_read (unat (1 :: byte))) (socks_select accounts))
      ([?m] @ socks_login u pw @ 5 # 1 # 0 # addr_wire SOCKS a @ be16 p @ r) (CMD_CONNECT, a, p) (socks_hello_bytes u pw) r"
    by (rule runs_bind_silent [OF runs_read], simp, rule runs_select [OF assms])
  then have "runs (io_bind io_read_u8 (\<lambda>nmethods. io_bind (io_read (unat nmethods)) (socks_select accounts)))
      (1 # [?m] @ socks_login u pw @ 5 # 1 # 0 # addr_wire SOCKS a @ be16 p @ r) (CMD_CONNECT, a, p) (socks_hello_bytes u pw) r"
    by (rule runs_bind_silent [OF runs_read_u8])
  then have "runs (handshake accounts) (5 # 1 # [?m] @ socks_login u pw @ 5 # 1 # 0 # addr_wire SOCKS a @ be16 p @ r)
      (CMD_CONNECT, a, p) (socks_hello_bytes u pw) r"
    unfolding handshake_def by (intro runs_bind_silent [OF runs_read_u8]) (simp add: VERSION5_def)
  then show ?thesis by (simp add: socks_client_bytes_def)
qed

lemma runs_authenticate:
  assumes "length u \<le> 255" and "length pw \<le> 255"
  shows "runs (socks5_authenticate u pw) (1 # 0 # r) ()
     (1 # word_of_nat (length u) # u @ word_of_nat (length pw) # pw) r"
proof -
  let ?k = "io_bind (io_read 2) (\<lambda>resp. if resp = [1, 0] then io_return ()
        else io_fail (IoMsg PermissionDenied ''socks outbound username/password rejected''))"
  have "runs ?k ([1, 0] @ r) () [] r"
    by (rule runs_bind_silent [OF runs_read]) (simp_all add: runs_return)
  from runs_then [OF runs_write this, of "1 # word_of_nat (length u) # u @ word_of_nat (length pw) # pw"]
  show ?thesis using assms by (simp add: socks5_authenticate_def)
qed

lemma runs_connect:
  assumes "canonical_addr a"
  shows "runs (socks5_connect (dest_tcp a p)) (socks_reply_bytes @ r) () (5 # 1 # 0 # addr_wire SOCKS a @ be16 p) r"
proof -
  have w: "codec_write SOCKS [5, 1, 0] a p = Inr ([5, 1, 0] @ addr_wire SOCKS a @ be16 p)"
    using assms by (auto simp: codec_write_wire SOCKS_def TROJAN_def canonical_addr_def)
  have d: "runs (discard_socks_bound_addr 1) ([0, 0, 0, 0, 0, 0] @ r) () [] r"
    unfolding discard_socks_bound_addr_def ATYP_IPV4_def
    using runs_read_map [of "[0, 0, 0, 0, 0, 0]" 6 "\<lambda>_. ()" r] by simp
  have "runs (io_bind (io_read 4) (\<lambda>head.
          if head ! 0 \<noteq> VERSION5 then io_fail (invalid_data ''socks outbound bad reply version'')
          else if head ! 1 \<noteq> 0 then io_fail (IoMsg PermissionDenied ''socks outbound connect rejected'')
          else discard_socks_bound_addr (head ! 3))) ([5, 0, 0, 1] @ [0, 0, 0, 0, 0, 0] @ r) () [] r"
    by (rule runs_bind_silent [OF runs_read]) (use d in \<open>simp_all add: VERSION5_def\<close>)
  from runs_then [OF runs_write this, of "[5, 1, 0] @ addr_wire SOCKS a @ be16 p"] w
  show ?thesis
    by (simp add: socks5_connect_def dest_tcp_def VERSION5_def CMD_CONNECT_def socks_reply_bytes_def)
qed

lemma runs_client:
  assumes "canonical_addr a" and "length u \<le> 255" and "length pw \<le> 255"
  shows "runs (socks5_handshake (dest_tcp a p) u pw) (socks_hello_bytes u pw @ socks_reply_bytes @ r) ()
     (socks_client_bytes u pw a p) r"
proof -
  define auth where "auth = (if u = [] \<and> pw = [] then AUTH_NONE else AUTH_PASSWORD)"
  have pw: "(auth = AUTH_PASSWORD) = (\<not> (u = [] \<and> pw = []))"
    by (simp add: auth_def AUTH_NONE_def AUTH_PASSWORD_def)
  have login: "runs (io_bind (if auth = AUTH_PASSWORD then socks5_authenticate u pw else io_return ())
        (\<lambda>_. socks5_connect (dest_tcp a p)))
      ((if u = [] \<and> pw = [] then [] else [1, 0]) @ socks_reply_bytes @ r) ()
      (socks_login u pw @ 5 # 1 # 0 # addr_wire SOCKS a @ be16 p) r"
    using runs_authenticate [OF assms(2,3), of "socks_reply_bytes @ r"]
    by (intro runs_then [OF _ runs_connect [OF assms(1)]]) (auto simp: pw socks_login_def runs_return)
  have "runs (io_bind (io_read 2) (\<lambda>resp.
      if resp \<noteq> [VERSION5, auth] then io_fail (IoMsg PermissionDenied ''socks outbound auth method rejected'')
      else io_bind (if auth = AUTH_PASSWORD then socks5_authenticate u pw else io_return ())
        (\<lambda>_. socks5_connect (dest_tcp a p))))
      ([VERSION5, auth] @ (if u = [] \<and> pw = [] then [] else [1, 0]) @ socks_reply_bytes @ r) ()
      (socks_login u pw @ 5 # 1 # 0 # addr_wire SOCKS a @ be16 p) r"
    by (rule runs_bind_silent [OF runs_read]) (use login in simp_all)
  note run = runs_then [OF runs_write this, of "[VERSION5, 1, auth]"]
  have out: "[VERSION5, 1, auth] @ socks_login u pw @ 5 # 1 # 0 # addr_wire SOCKS a @ be16 p = socks_client_bytes u pw a p"
    by (simp add: socks_client_bytes_def auth_def AUTH_NONE_def AUTH_PASSWORD_def VERSION5_def)
  have inp: "[VERSION5, auth] @ (if u = [] \<and> pw = [] then [] else [1, 0]) @ socks_reply_bytes @ r =
      socks_hello_bytes u pw @ socks_reply_bytes @ r"
    by (simp add: socks_hello_bytes_def auth_def AUTH_NONE_def AUTH_PASSWORD_def VERSION5_def)
  show ?thesis using run
    unfolding out inp socks5_handshake_def Let_def auth_def [symmetric] .
qed

section \<open>Properties\<close>

text \<open>
  C15: The SOCKS5 inbound and the SOCKS5 outbound understand each other: there are bytes of the client
  and of the server such that the server, given the client's bytes in any cut, accepts the CONNECT to
  the client's target and writes exactly the server's bytes, and the client, given the server's bytes
  in any cut, completes its handshake and writes exactly the client's bytes. Whatever follows either
  side's bytes is left on the connection for the relay.
\<close>

theorem socks_interoperates:
  assumes "canonical_addr a" and "may_login accounts (bytes_of_string u) (bytes_of_string pw)"
  shows "\<exists>cbytes sbytes.
    (\<forall>c payload. delivers c (cbytes @ payload) \<longrightarrow> write_outcomes c = [] \<longrightarrow>
       (\<exists>c' counter st'. socks_decode accounts bound st cx c =
            (Done (SoRoute \<lparr>pd_target = dest_tcp a p, pd_ctx = cx, pd_link = RelayStream counter []\<rparr>), c', st') \<and>
          sent c' = sent c @ sbytes \<and> delivers c' payload)) \<and>
    (\<forall>c payload. delivers c (sbytes @ payload) \<longrightarrow> write_outcomes c = [] \<longrightarrow>
       (\<exists>c'. socks5_handshake (dest_tcp a p) (bytes_of_string u) (bytes_of_string pw) c = (Done (), c') \<and>
          sent c' = sent c @ cbytes \<and> delivers c' payload))"
proof (rule exI [of _ "socks_client_bytes (bytes_of_string u) (bytes_of_string pw) a p"],
    rule exI [of _ "socks_hello_bytes (bytes_of_string u) (bytes_of_string pw) @ socks_reply_bytes"],
    intro conjI allI impI)
  let ?u = "bytes_of_string u" and ?p = "bytes_of_string pw"
  fix c payload
  assume c: "delivers c (socks_client_bytes ?u ?p a p @ payload)" "write_outcomes c = []"
  from runs_timeout [OF runs_handshake [OF assms, of p payload], of "''socks handshake timeout''"] c
  obtain c1 where c1: "io_timeout ''socks handshake timeout'' (handshake accounts) c = (Done (CMD_CONNECT, a, p), c1)"
    "delivers c1 payload" "sent c1 = sent c @ socks_hello_bytes ?u ?p" "write_outcomes c1 = []"
    unfolding runs_def by blast
  obtain counter st' where uc: "user_counter cx st = (counter, st')" by fastforce
  have "sniff_override (dest_tcp a p) [] = dest_tcp a p" by (simp add: sniff_override_def)
  then show "\<exists>c' counter st'. socks_decode accounts bound st cx c =
            (Done (SoRoute \<lparr>pd_target = dest_tcp a p, pd_ctx = cx, pd_link = RelayStream counter []\<rparr>), c', st') \<and>
          sent c' = sent c @ socks_hello_bytes ?u ?p @ socks_reply_bytes \<and> delivers c' payload"
    using c1 uc
    by (simp add: socks_decode_def write_reply_def io_bind_def io_write_def write_all_ok io_return_def
        socks_reply_bytes_def socks_consts)
next
  let ?u = "bytes_of_string u" and ?p = "bytes_of_string pw"
  fix c payload
  assume c: "delivers c ((socks_hello_bytes ?u ?p @ socks_reply_bytes) @ payload)" "write_outcomes c = []"
  have "length ?u \<le> 255" "length ?p \<le> 255"
    using assms(2) by (auto simp: may_login_def bytes_of_string_def split: if_splits)
  from runs_client [OF assms(1) this, of p payload] c
  show "\<exists>c'. socks5_handshake (dest_tcp a p) ?u ?p c = (Done (), c') \<and>
          sent c' = sent c @ socks_client_bytes ?u ?p a p \<and> delivers c' payload"
    unfolding runs_def by auto
qed

definition sample_account :: socks_account where
  "sample_account = \<lparr>so_username = ''u'', so_password = ''p''\<rparr>"

lemma socks_interoperates_witness:
  "\<exists>cbytes sbytes.
    (\<forall>c payload. delivers c (cbytes @ payload) \<longrightarrow> write_outcomes c = [] \<longrightarrow>
       (\<exists>c' counter st'. socks_decode [sample_account] (Inr 0) None sample_ctx c =
            (Done (SoRoute \<lparr>pd_target = dest_tcp (Ip (V4 1)) 80, pd_ctx = sample_ctx, pd_link = RelayStream counter []\<rparr>), c', st') \<and>
          sent c' = sent c @ sbytes \<and> delivers c' payload)) \<and>
    (\<forall>c payload. delivers c (sbytes @ payload) \<longrightarrow> write_outcomes c = [] \<longrightarrow>
       (\<exists>c'. socks5_handshake (dest_tcp (Ip (V4 1)) 80) (bytes_of_string ''u'') (bytes_of_string ''p'') c = (Done (), c') \<and>
          sent c' = sent c @ cbytes \<and> delivers c' payload))"
proof -
  have a: "canonical_addr (Ip (V4 1))" by (simp add: canonical_addr_def)
  have l: "may_login [sample_account] (bytes_of_string ''u'') (bytes_of_string ''p'')" by code_simp
  show ?thesis by (rule socks_interoperates [OF a l])
qed

lemma subnegotiation_Done:
  assumes "socks_subnegotiation accounts c = (Done r, c')"
  shows "\<exists>u pw acc. account_for accounts u pw = Some acc \<and>
     consumed c c' ([1, word_of_nat (length u)] @ u @ [word_of_nat (length pw)] @ pw)"
proof -
  from assms [unfolded socks_subnegotiation_def] obtain v c1 where 1: "io_read_u8 c = (Done v, c1)"
    "(if v \<noteq> AUTH_VERSION then io_fail (invalid_data ''socks: bad auth version'')
     else io_bind io_read_u8 (\<lambda>ulen.
       io_bind (io_read (unat ulen)) (\<lambda>uname.
       io_bind io_read_u8 (\<lambda>plen.
       io_bind (io_read (unat plen)) (\<lambda>passwd.
       if account_for accounts uname passwd = None then
         io_bind (io_write [AUTH_VERSION, 1]) (\<lambda>_.
         io_fail (IoMsg PermissionDenied ''socks: auth failed''))
       else io_write [AUTH_VERSION, 0]))))) c1 = (Done r, c')" by (rule io_bind_Done)
  then have v: "v = 1" by (auto simp: AUTH_VERSION_def split: if_splits)
  with 1(2) obtain ulen c2 u c3 plen c4 pw c5 where 2: "io_read_u8 c1 = (Done ulen, c2)"
    "io_read (unat ulen) c2 = (Done u, c3)" "io_read_u8 c3 = (Done plen, c4)"
    "io_read (unat plen) c4 = (Done pw, c5)"
    "(if account_for accounts u pw = None then
         io_bind (io_write [AUTH_VERSION, 1]) (\<lambda>_.
         io_fail (IoMsg PermissionDenied ''socks: auth failed''))
       else io_write [AUTH_VERSION, 0]) c5 = (Done r, c')"
    by (auto simp: AUTH_VERSION_def elim!: io_bind_Done)
  obtain acc where acc: "account_for accounts u pw = Some acc" "consumed c5 c' []"
    using 2(5) by (auto dest: io_write_Done elim: io_bind_Done split: if_splits)
  have "consumed c c1 [1]" "consumed c1 c2 [ulen]" "consumed c2 c3 u" "consumed c3 c4 [plen]" "consumed c4 c5 pw"
    "length u = unat ulen" "length pw = unat plen"
    using 1(1) 2 v io_read_u8_Done io_read_Done by fast+
  then show ?thesis using acc
    by (intro exI [of _ u] exI [of _ pw] exI [of _ acc]) (simp add: consumed_def)
qed

text \<open>
  C16: An inbound with accounts serves nobody who did not log in: a request is accepted, for a CONNECT
  or a UDP association, only when the client offered methods and then sent the user name and the
  password of one of the accounts.
\<close>

theorem socks_requires_login:
  assumes "accounts \<noteq> []" and "socks_decode accounts bound st cx c = (Done f, c', st')"
  shows "\<exists>acc \<in> set accounts. \<exists>methods rest. AUTH_PASSWORD \<in> set methods \<and>
     stream_in (reads c) = [5, word_of_nat (length methods)] @ methods @
       [1, word_of_nat (length (so_username acc))] @ bytes_of_string (so_username acc) @
       [word_of_nat (length (so_password acc))] @ bytes_of_string (so_password acc) @ rest"
proof -
  obtain x c1 where h: "handshake accounts c = (Done x, c1)"
    using assms(2) by (auto simp: socks_decode_def io_timeout_def split: prod.splits outcome.splits)
  from h [unfolded handshake_def] obtain v c2 where v: "io_read_u8 c = (Done v, c2)"
    "(if v \<noteq> VERSION5 then io_fail (invalid_data ''socks: unsupported version'')
     else io_bind io_read_u8 (\<lambda>nmethods.
       io_bind (io_read (unat nmethods)) (socks_select accounts))) c2 = (Done x, c1)" by (rule io_bind_Done)
  then have 5: "v = 5" by (auto simp: VERSION5_def split: if_splits)
  with v(2) obtain n c3 ms c4 where m: "io_read_u8 c2 = (Done n, c3)" "io_read (unat n) c3 = (Done ms, c4)"
    "socks_select accounts ms c4 = (Done x, c1)"
    by (auto simp: VERSION5_def elim!: io_bind_Done)
  have pw: "AUTH_PASSWORD \<in> set ms"
  proof (rule ccontr)
    assume "AUTH_PASSWORD \<notin> set ms"
    then have "io_bind (io_write [VERSION5, AUTH_NO_MATCH]) (\<lambda>_.
        io_fail (invalid_data ''socks: no acceptable auth method'')) c4 = (Done x, c1)"
      using m(3) assms(1) by (simp add: socks_select_def)
    then show False by (auto elim: io_bind_Done)
  qed
  obtain c5 c6 y where s: "io_write [VERSION5, AUTH_PASSWORD] c4 = (Done (), c5)"
    "socks_subnegotiation accounts c5 = (Done y, c6)"
    using m(3) pw assms(1) by (auto simp: socks_select_def elim!: io_bind_Done)
  from subnegotiation_Done [OF s(2)] obtain u p acc where acc: "account_for accounts u p = Some acc"
    "consumed c5 c6 ([1, word_of_nat (length u)] @ u @ [word_of_nat (length p)] @ p)" by auto
  then have in_acc: "acc \<in> set accounts" "u = bytes_of_string (so_username acc)" "p = bytes_of_string (so_password acc)"
    by (auto simp: account_for_def find_Some_iff)
  have "consumed c c2 [5]" "consumed c2 c3 [n]" "consumed c3 c4 ms" "length ms = unat n" "consumed c4 c5 []"
    using v(1) 5 m s(1) io_read_u8_Done io_read_Done io_write_Done by fast+
  then have "stream_in (reads c) = [5, n] @ ms @ ([1, word_of_nat (length u)] @ u @ [word_of_nat (length p)] @ p) @ stream_in (reads c6)"
    and "n = word_of_nat (length ms)"
    using acc(2) by (simp_all add: consumed_def)
  then show ?thesis using in_acc pw
    by (intro bexI [of _ acc] exI [of _ ms] exI [of _ "stream_in (reads c6)"]) simp_all
qed

definition sample_login :: conn where
  "sample_login = empty_conn [ROk [5, 1, 2, 1, 1, 117, 1], ROk [112, 5, 1, 0, 1, 0, 0, 0, 1, 0, 80]]"

lemma socks_requires_login_witness:
  "\<exists>acc \<in> set [sample_account]. \<exists>methods rest. AUTH_PASSWORD \<in> set methods \<and>
     stream_in (reads sample_login) = [5, word_of_nat (length methods)] @ methods @
       [1, word_of_nat (length (so_username acc))] @ bytes_of_string (so_username acc) @
       [word_of_nat (length (so_password acc))] @ bytes_of_string (so_password acc) @ rest"
proof -
  have "case fst (socks_decode [sample_account] (Inr 0) None sample_ctx sample_login) of Done _ \<Rightarrow> True | _ \<Rightarrow> False"
    by code_simp
  then obtain f c' st' where "socks_decode [sample_account] (Inr 0) None sample_ctx sample_login = (Done f, c', st')"
    by (cases "socks_decode [sample_account] (Inr 0) None sample_ctx sample_login") (auto split: outcome.splits)
  from socks_requires_login [OF _ this] show ?thesis by blast
qed

text \<open>
  A UDP association carries a datagram to its target and the answer back: the client's datagram is
  sent, without its SOCKS header, to the address it names, and an answer from any address reaches the
  client that sent last, with a SOCKS header that decodes to that address and payload.
\<close>

lemma socks_udp_roundtrip:
  assumes "canonical_addr (Ip ip)" and "canonical_addr a" and "resolve_first resolve (dest_udp a p) = Inr dst"
    and "encode_socks_udp (dest_udp a p) d = Some dgram"
    and "socks_udp_step resolve c (AClient (Inr (from, dgram))) s = (r1, s1)"
    and "socks_udp_step resolve c (AEgress (Inr ((ip, q), answer))) s1 = (r2, s2)"
  shows "r1 = None \<and> r2 = None \<and> egress_out s2 = egress_out s @ [(dst, d)] \<and>
    (\<exists>w. client_out s2 = client_out s @ [(from, w)] \<and> decode_socks_udp w = Some (dest_udp (Ip ip) q, answer))"
proof -
  have wire: "encode_socks_udp (dest_udp b x) y = Some ([0, 0, 0] @ addr_wire SOCKS b @ be16 x @ y)"
    if "canonical_addr b" for b x y
    using that by (auto simp: encode_socks_udp_def dest_udp_def codec_write_wire SOCKS_def TROJAN_def canonical_addr_def)
  have dec: "decode_socks_udp ([0, 0, 0] @ addr_wire SOCKS b @ be16 x @ y) = Some (dest_udp b x, y)"
    if "canonical_addr b" for b x y
    using codec_read_socks [OF that, of x y] by (simp add: decode_socks_udp_def nth_Cons')
  have d: "decode_socks_udp dgram = Some (dest_udp a p, d)"
    using assms(4) wire [OF assms(2), of p d] dec [OF assms(2), of p d] by simp
  have s1: "r1 = None" "client s1 = Some from" "egress_out s1 = egress_out s @ [(dst, d)]" "client_out s1 = client_out s"
    using assms(3,5) d
    by (auto simp: socks_udp_step_def Let_def assoc_count_up_def split: option.splits)
  then show ?thesis
    using assms(6) wire [OF assms(1), of q answer] dec [OF assms(1), of q answer]
    by (auto simp: socks_udp_step_def Let_def assoc_count_down_def split: option.splits)
qed

definition sample_assoc :: assoc where
  "sample_assoc = \<lparr>client = None, egress_out = [], client_out = [], assoc_stats = stats_new\<rparr>"

definition sample_exchange :: assoc where
  "sample_exchange =
     snd (socks_udp_step (\<lambda>_. Inr []) None (AEgress (Inr ((V4 1, 53), [8])))
       (snd (socks_udp_step (\<lambda>_. Inr []) None
          (AClient (Inr ((V4 9, 9), [0, 0, 0] @ addr_wire SOCKS (Ip (V4 1)) @ be16 53 @ [7]))) sample_assoc)))"

lemma socks_udp_roundtrip_witness:
  "\<exists>w. client_out sample_exchange = [((V4 9, 9), w)] \<and> decode_socks_udp w = Some (dest_udp (Ip (V4 1)) 53, [8])"
proof -
  have a: "canonical_addr (Ip (V4 1))" by (simp add: canonical_addr_def)
  have e: "encode_socks_udp (dest_udp (Ip (V4 1)) 53) [7] = Some ([0, 0, 0] @ addr_wire SOCKS (Ip (V4 1)) @ be16 53 @ [7])"
    by code_simp
  have r: "resolve_first (\<lambda>_. Inr []) (dest_udp (Ip (V4 1)) 53) = Inr (V4 1, 53)" by code_simp
  show ?thesis
    using socks_udp_roundtrip [OF a a r e prod.collapse [symmetric] prod.collapse [symmetric],
        of None "(V4 9, 9)" sample_assoc 53 "[8]"]
    by (simp add: sample_exchange_def sample_assoc_def)
qed

end
