(* ===== verification/Http.thy ===== *)
theory Http
  imports ProxyIo
begin

text \<open>
  proxy/src/http.rs and proxy/src/dokodemo.rs: the HTTP proxy inbound (CONNECT tunnels, and plain requests
  rewritten for the origin) and the fixed-target inbound. The base64 decoder (crate base64) is an
  argument. A \<open>\&str\<close> slice \<open>get(..n)\<close> that is compared with ASCII text is \<open>take n\<close>: when the first \<open>n\<close>
  bytes of well-formed UTF-8 are ASCII, position \<open>n\<close> is a character boundary.
\<close>

section \<open>Heads\<close>

definition MAX_HEAD :: nat where "MAX_HEAD = 16384"

abbreviation cr :: char where "cr \<equiv> CHR 0x0D"
abbreviation lf :: char where "lf \<equiv> CHR 0x0A"
abbreviation crlf :: string where "crlf \<equiv> [cr, lf]"

definition invalid :: "string \<Rightarrow> io_error" where
  "invalid msg = IoMsg InvalidData msg"

text \<open>\<open>hay.windows(4).position(..)\<close>: the first index at which the terminator stands.\<close>

fun find_crlfcrlf :: "bytes \<Rightarrow> nat option" where
  "find_crlfcrlf [] = None"
| "find_crlfcrlf (b # bs) =
     (if take 4 (b # bs) = [13, 10, 13, 10] then Some 0 else map_option Suc (find_crlfcrlf bs))"

definition parse_head :: "bytes codec" where
  "parse_head b = (case find_crlfcrlf b of
     Some idx \<Rightarrow> Inr (take (idx + 4) b, drop (idx + 4) b)
   | None \<Rightarrow> Inl (Truncated 1 (length b)))"

text \<open>\<open>str::split\<close> at the two-character separator.\<close>

fun split_crlf :: "string \<Rightarrow> string list" where
  "split_crlf [] = [[]]"
| "split_crlf (c # cs) =
     (if c = cr \<and> (case cs of d # _ \<Rightarrow> d = lf | [] \<Rightarrow> False) then [] # split_crlf (drop 1 cs)
      else (case split_crlf cs of l # ls \<Rightarrow> (c # l) # ls | [] \<Rightarrow> [[c]]))"

text \<open>\<open>splitn(3, ' ')\<close>, of which the code takes three parts.\<close>

definition split3 :: "string \<Rightarrow> (string \<times> string option \<times> string option)" where
  "split3 s = (case split_once (CHR '' '') s of
     None \<Rightarrow> (s, None, None)
   | Some (a, r) \<Rightarrow> (case split_once (CHR '' '') r of
        None \<Rightarrow> (a, Some r, None)
      | Some (b, c) \<Rightarrow> (a, Some b, Some c)))"

fun header_value :: "string list \<Rightarrow> string \<Rightarrow> string option" where
  "header_value [] name = None"
| "header_value (l # ls) name = (case split_once (CHR '':'') l of
     Some (k, v) \<Rightarrow> if eq_ignore_ascii_case (trim k) name then Some (trim v) else header_value ls name
   | None \<Rightarrow> header_value ls name)"

definition split_rest :: "string \<Rightarrow> u16 \<Rightarrow> string \<times> string \<times> u16" where
  "split_rest rest default_port =
     (let idx = (case position (\<lambda>c. c \<in> set ''/?#'') rest of Some i \<Rightarrow> i | None \<Rightarrow> length rest);
          path = drop idx rest
      in (take idx rest, if path \<noteq> [] then path else ''/'', default_port))"

definition split_absolute :: "string \<Rightarrow> (string \<times> string \<times> u16) option" where
  "split_absolute target =
     (if 7 \<le> length target \<and> eq_ignore_ascii_case (take 7 target) ''http://'' then Some (split_rest (drop 7 target) 80)
      else if 8 \<le> length target \<and> eq_ignore_ascii_case (take 8 target) ''https://'' then Some (split_rest (drop 8 target) 443)
      else None)"

definition parse_authority :: "string \<Rightarrow> u16 \<Rightarrow> (address \<times> u16) io_result" where
  "parse_authority s0 default_port =
     (let s = trim s0 in
      case strip_prefix ''['' s of
        Some rest \<Rightarrow>
          (case position (\<lambda>c. c = CHR '']'') rest of
             None \<Rightarrow> Inl (invalid ''http: malformed ipv6 authority'')
           | Some e \<Rightarrow>
               (case strip_prefix '':'' (drop (e + 1) rest) of
                  Some p \<Rightarrow>
                    if p \<noteq> [] then
                      (case parse_u16 p of None \<Rightarrow> Inl (invalid ''http: bad port'')
                       | Some q \<Rightarrow> Inr (address_parse (take e rest), q))
                    else Inr (address_parse (take e rest), default_port)
                | None \<Rightarrow> Inr (address_parse (take e rest), default_port)))
      | None \<Rightarrow>
          (case rsplit_once (CHR '':'') s of
             Some (h, p) \<Rightarrow>
               if p \<noteq> [] \<and> list_all is_ascii_digit p then
                 (case parse_u16 p of None \<Rightarrow> Inl (invalid ''http: bad port'')
                  | Some q \<Rightarrow> Inr (address_parse h, q))
               else Inr (address_parse s, default_port)
           | None \<Rightarrow> Inr (address_parse s, default_port)))"

section \<open>Authentication\<close>

record http_account =
  ha_username :: string
  ha_password :: string

definition check_auth :: "(string \<Rightarrow> bytes option) \<Rightarrow> http_account list \<Rightarrow> string list \<Rightarrow> string option" where
  "check_auth base64_decode accounts headers =
     Option.bind (header_value headers ''proxy-authorization'') (\<lambda>value.
     Option.bind (if 6 \<le> length value \<and> eq_ignore_ascii_case (take 6 value) ''Basic ''
                  then Some (trim (drop 6 value)) else None) (\<lambda>encoded.
     Option.bind (base64_decode encoded) (\<lambda>decoded.
     Option.bind (from_utf8 decoded) (\<lambda>creds.
     Option.bind (split_once (CHR '':'') creds) (\<lambda>(u, p).
     map_option ha_username (find (\<lambda>a. ha_username a = u \<and> ha_password a = p) accounts))))))"

definition auth_required :: string where
  "auth_required =
     ''HTTP/1.1 407 Proxy Authentication Required'' @ crlf @
     ''Proxy-Authenticate: Basic realm='' @ [CHR 0x22] @ ''proxy'' @ [CHR 0x22] @ crlf @
     ''Connection: close'' @ crlf @ crlf"

definition established :: string where
  "established = ''HTTP/1.1 200 Connection Established'' @ crlf @ crlf"

section \<open>Rewriting a plain request\<close>

definition header_name :: "string \<Rightarrow> string" where
  "header_name line = trim (takeWhile (\<lambda>c. c \<noteq> CHR '':'') line)"

definition is_hop_header :: "string \<Rightarrow> bool" where
  "is_hop_header line \<longleftrightarrow>
     eq_ignore_ascii_case (header_name line) ''proxy-connection'' \<or>
     eq_ignore_ascii_case (header_name line) ''proxy-authorization'' \<or>
     eq_ignore_ascii_case (header_name line) ''connection''"

fun copy_headers :: "string list \<Rightarrow> bool \<Rightarrow> string \<times> bool" where
  "copy_headers [] host_seen = ([], host_seen)"
| "copy_headers (line # ls) host_seen =
     (if is_hop_header line then copy_headers ls host_seen
      else case copy_headers ls (host_seen \<or> eq_ignore_ascii_case (header_name line) ''host'') of
        (out, seen) \<Rightarrow> (line @ crlf @ out, seen))"

definition rewrite_request :: "string \<Rightarrow> string list \<Rightarrow> string option \<Rightarrow> bytes \<Rightarrow> bytes" where
  "rewrite_request new_req_line headers inject_host body =
     (case copy_headers headers False of (hs, host_seen) \<Rightarrow>
        bytes_of_string
          (new_req_line @ crlf @ hs @
           (case inject_host of
              Some authority \<Rightarrow> if host_seen then [] else ''Host: '' @ authority @ crlf
            | None \<Rightarrow> []) @
           ''Connection: close'' @ crlf @ crlf) @ body)"

text \<open>Where a plain request goes and what its first line becomes.\<close>

definition plain_target ::
  "string \<Rightarrow> string \<Rightarrow> string \<Rightarrow> string \<Rightarrow> string list \<Rightarrow> (address \<times> u16 \<times> string \<times> string option) io_result" where
  "plain_target request_line meth tgt version headers =
     (case split_absolute tgt of
        Some (authority, path, dport) \<Rightarrow>
          rbind (parse_authority authority dport) (\<lambda>(a, p).
          Inr (a, p, meth @ '' '' @ path @ '' '' @ version, Some authority))
      | None \<Rightarrow>
          rbind (ok_or (header_value headers ''host'') (invalid ''http: missing host'')) (\<lambda>host.
          rbind (parse_authority host 80) (\<lambda>(a, p). Inr (a, p, request_line, None))))"

section \<open>The handler\<close>

definition http_route ::
  "stats option \<Rightarrow> ctx \<Rightarrow> conn \<Rightarrow> string \<Rightarrow> string \<Rightarrow> string \<Rightarrow> string \<Rightarrow> string list \<Rightarrow> bytes \<Rightarrow>
   proxy_decision io_result \<times> conn \<times> stats option" where
  "http_route st cx c request_line meth tgt version headers body =
     (if eq_ignore_ascii_case meth ''CONNECT'' then
        (case parse_authority tgt 443 of
           Inl e \<Rightarrow> (Inl e, c, st)
         | Inr (a, p) \<Rightarrow>
             (case write_all (bytes_of_string established) c of
                (Inl e, c') \<Rightarrow> (Inl e, c', st)
              | (Inr _, c') \<Rightarrow>
                  (case user_counter cx st of (counter, st') \<Rightarrow>
                     (Inr \<lparr>pd_target = sniff_override (dest_tcp a p) body, pd_ctx = cx,
                           pd_link = RelayStream counter body\<rparr>, c', st'))))
      else
        (case plain_target request_line meth tgt version headers of
           Inl e \<Rightarrow> (Inl e, c, st)
         | Inr (a, p, new_req_line, inject_host) \<Rightarrow>
             (case user_counter cx st of (counter, st') \<Rightarrow>
                (Inr \<lparr>pd_target = dest_tcp a p, pd_ctx = cx,
                      pd_link = RelayStream counter (rewrite_request new_req_line headers inject_host body)\<rparr>, c, st'))))"

definition http_decode ::
  "(string \<Rightarrow> bytes option) \<Rightarrow> http_account list \<Rightarrow> stats option \<Rightarrow> ctx \<Rightarrow> conn \<Rightarrow>
   proxy_decision io_result \<times> conn \<times> stats option" where
  "http_decode base64_decode accounts st cx c0 =
     (case read_header MAX_HEAD parse_head (reads c0) of
        (Inl e, evs) \<Rightarrow> (Inl e, c0\<lparr>reads := evs\<rparr>, st)
      | (Inr (head, body), evs) \<Rightarrow>
        (let c = c0\<lparr>reads := evs\<rparr> in
         case from_utf8 head of
           None \<Rightarrow> (Inl (invalid ''http: non-utf8 head''), c, st)
         | Some ftext \<Rightarrow>
           (let lines = split_crlf ftext; request_line = hd lines; headers = takeWhile (\<lambda>l. l \<noteq> []) (tl lines) in
            case split3 request_line of
              (_, None, _) \<Rightarrow> (Inl (invalid ''http: missing target''), c, st)
            | (_, Some _, None) \<Rightarrow> (Inl (invalid ''http: missing version''), c, st)
            | (meth, Some tgt, Some version) \<Rightarrow>
                if accounts = [] then http_route st cx c request_line meth tgt version headers body
                else (case check_auth base64_decode accounts headers of
                    Some u \<Rightarrow> http_route st (with_user cx u (user_hash (bytes_of_string u))) c
                                request_line meth tgt version headers body
                  | None \<Rightarrow>
                      (case write_all (bytes_of_string auth_required) c of
                         (Inl e, c') \<Rightarrow> (Inl e, c', st)
                       | (Inr _, c') \<Rightarrow> (Inr (noop_decision cx), c', st))))))"

section \<open>The fixed-target inbound\<close>

record dokodemo =
  dk_address :: address
  dk_port :: u16

definition dokodemo_decode :: "dokodemo \<Rightarrow> stats option \<Rightarrow> ctx \<Rightarrow> conn \<Rightarrow> proxy_decision io_result \<times> conn \<times> stats option" where
  "dokodemo_decode d st cx c =
     (case user_counter cx st of (counter, st') \<Rightarrow>
        (Inr \<lparr>pd_target = dest_tcp (dk_address d) (dk_port d), pd_ctx = cx, pd_link = RelayStream counter []\<rparr>, c, st'))"

section \<open>Lemmas on heads\<close>

lemma find_crlfcrlf_Some:
  "find_crlfcrlf bs = Some i \<longleftrightarrow> i < length bs \<and> take 4 (drop i bs) = [13, 10, 13, 10] \<and>
     (\<forall>j < i. take 4 (drop j bs) \<noteq> [13, 10, 13, 10])"
proof (induction bs arbitrary: i)
  case Nil
  then show ?case by simp
next
  case (Cons b bs)
  show ?case
  proof (cases i)
    case 0
    then show ?thesis by auto
  next
    case (Suc k)
    then show ?thesis using Cons.IH [of k] by (auto simp: All_less_Suc2)
  qed
qed

lemma find_crlfcrlf_room: "find_crlfcrlf bs = Some i \<Longrightarrow> i + 4 \<le> length bs"
proof -
  assume "find_crlfcrlf bs = Some i"
  then have "length (take 4 (drop i bs)) = 4" by (simp add: find_crlfcrlf_Some)
  then show ?thesis by simp
qed

lemma find_crlfcrlf_prefix:
  assumes "find_crlfcrlf bs = Some i" and "take (i + 4) bs = take (i + 4) bs'" and "i + 4 \<le> length bs'"
  shows "find_crlfcrlf bs' = Some i"
proof -
  have same: "take 4 (drop j bs') = take 4 (drop j bs)" if "j \<le> i" for j
  proof -
    have "take 4 (drop j (take (i + 4) bs)) = take 4 (drop j bs)" for bs :: bytes
      using that by (simp add: drop_take)
    then show ?thesis using assms(2) by metis
  qed
  then show ?thesis using assms by (auto simp: find_crlfcrlf_Some)
qed

lemma incremental_parse_head: "incremental_codec parse_head"
  unfolding incremental_def
proof (intro conjI allI impI)
  fix bs x r assume p: "parse_head bs = Inr (x, r)"
  then obtain i where i: "find_crlfcrlf bs = Some i" "x = take (i + 4) bs" "r = drop (i + 4) bs"
    by (auto simp: parse_head_def split: option.splits)
  note room = find_crlfcrlf_room [OF i(1)]
  have "parse_head (x @ ext) = Inr (x, ext)" for ext
  proof -
    have "find_crlfcrlf (x @ ext) = Some i"
      using room i by (intro find_crlfcrlf_prefix [OF i(1)]) simp_all
    then show ?thesis using room i by (simp add: parse_head_def)
  qed
  then show "\<exists>c. bs = c @ r \<and> (\<forall>ext. parse_head (c @ ext) = Inr (x, ext))"
    using i by (intro exI [of _ x]) simp
next
  fix bs e ext assume "parse_head bs = Inl e" and "\<not> is_truncated e"
  then show "parse_head (bs @ ext) = Inl e" by (auto simp: parse_head_def split: option.splits)
qed

interpretation http_head: header_codec parse_head
  by unfold_locales (rule incremental_parse_head)

section \<open>Lemmas on lines\<close>

definition crlf_free :: "string \<Rightarrow> bool" where
  "crlf_free s \<longleftrightarrow> (\<forall>a b. s \<noteq> a @ crlf @ b)"

lemma crlf_free_Nil [simp]: "crlf_free []"
  by (simp add: crlf_free_def)

lemma crlf_free_Cons:
  "crlf_free (c # s) \<longleftrightarrow> crlf_free s \<and> \<not> (c = cr \<and> (case s of d # _ \<Rightarrow> d = lf | [] \<Rightarrow> False))"
proof
  assume *: "crlf_free (c # s)"
  have "crlf_free s" unfolding crlf_free_def
  proof (intro allI notI)
    fix a b assume "s = a @ crlf @ b"
    then have "c # s = (c # a) @ crlf @ b" by simp
    then show False using * unfolding crlf_free_def by blast
  qed
  moreover have "\<not> (c = cr \<and> (case s of d # _ \<Rightarrow> d = lf | [] \<Rightarrow> False))"
  proof
    assume "c = cr \<and> (case s of d # _ \<Rightarrow> d = lf | [] \<Rightarrow> False)"
    then obtain s' where "c # s = [] @ crlf @ s'" by (cases s) auto
    then show False using * unfolding crlf_free_def by blast
  qed
  ultimately show "crlf_free s \<and> \<not> (c = cr \<and> (case s of d # _ \<Rightarrow> d = lf | [] \<Rightarrow> False))" by blast
next
  assume *: "crlf_free s \<and> \<not> (c = cr \<and> (case s of d # _ \<Rightarrow> d = lf | [] \<Rightarrow> False))"
  show "crlf_free (c # s)" unfolding crlf_free_def
  proof (intro allI notI)
    fix a b assume "c # s = a @ crlf @ b"
    then show False using * by (cases a) (auto simp: crlf_free_def)
  qed
qed

lemma crlf_free_sub:
  assumes "crlf_free (a @ s @ b)"
  shows "crlf_free s"
  unfolding crlf_free_def
proof (intro allI notI)
  fix x y assume "s = x @ crlf @ y"
  then have "a @ s @ b = (a @ x) @ crlf @ (y @ b)" by simp
  then show False using assms unfolding crlf_free_def by blast
qed

lemma crlf_free_join:
  assumes "crlf_free a" and "crlf_free b" and "c \<noteq> cr" and "c \<noteq> lf"
  shows "crlf_free (a @ c # b)"
  using assms(1)
proof (induction a)
  case Nil
  then show ?case using assms by (simp add: crlf_free_Cons)
next
  case (Cons x a)
  then have "crlf_free (a @ c # b)" by (simp add: crlf_free_Cons)
  moreover have "\<not> (x = cr \<and> (case a @ c # b of d # _ \<Rightarrow> d = lf | [] \<Rightarrow> False))"
    using Cons.prems assms(4) by (cases a) (auto simp: crlf_free_Cons)
  ultimately show ?case by (simp add: crlf_free_Cons)
qed

lemma split_crlf_ne [simp]: "split_crlf s \<noteq> []"
  by (cases s) (auto split: list.splits)

lemma split_crlf_line: "crlf_free l \<Longrightarrow> split_crlf (l @ crlf @ t) = l # split_crlf t"
proof (induction l)
  case Nil
  then show ?case by simp
next
  case (Cons c l)
  then have "\<not> (c = cr \<and> (case l @ crlf @ t of d # _ \<Rightarrow> d = lf | [] \<Rightarrow> False))"
    by (cases l) (auto simp: crlf_free_Cons)
  then show ?case using Cons by (simp add: crlf_free_Cons)
qed

lemma split_crlf_head: "split_crlf cs = m # ms \<Longrightarrow> \<exists>k. cs = m @ k"
proof (induction cs arbitrary: m ms)
  case Nil
  then show ?case by simp
next
  case (Cons c cs)
  show ?case
  proof (cases "c = cr \<and> (case cs of d # _ \<Rightarrow> d = lf | [] \<Rightarrow> False)")
    case True
    then have "m = []" using Cons.prems by (simp del: One_nat_def)
    then show ?thesis by simp
  next
    case False
    obtain l ls where l: "split_crlf cs = l # ls" by (cases "split_crlf cs") auto
    then have "m = c # l" using Cons.prems unfolding split_crlf.simps(2) if_not_P [OF False] by simp
    then show ?thesis using Cons.IH [OF l] by auto
  qed
qed

lemma split_crlf_free: "l \<in> set (split_crlf s) \<Longrightarrow> crlf_free l"
proof (induction s arbitrary: l rule: split_crlf.induct)
  case 1
  then show ?case by simp
next
  case (2 c cs)
  show ?case
  proof (cases "c = cr \<and> (case cs of d # _ \<Rightarrow> d = lf | [] \<Rightarrow> False)")
    case True
    then show ?thesis using 2 by auto
  next
    case False
    obtain m ms where s: "split_crlf cs = m # ms" by (cases "split_crlf cs") auto
    have m: "\<exists>k. cs = m @ k" by (rule split_crlf_head [OF s])
    have "crlf_free (c # m)"
    proof -
      have "crlf_free m" using 2(2) [OF False] s by simp
      moreover have "\<not> (c = cr \<and> (case m of d # _ \<Rightarrow> d = lf | [] \<Rightarrow> False))"
        using False m by (cases m) auto
      ultimately show ?thesis by (simp add: crlf_free_Cons)
    qed
    then show ?thesis using 2(2) [OF False] 2(3) False s by auto
  qed
qed

definition join_lines :: "string list \<Rightarrow> string" where
  "join_lines ls = concat (map (\<lambda>l. l @ crlf) ls)"

lemma join_lines_simps [simp]:
  "join_lines [] = []" "join_lines (l # ls) = l @ crlf @ join_lines ls"
  "join_lines (ls @ ms) = join_lines ls @ join_lines ms"
  by (simp_all add: join_lines_def)

lemma split_join_lines:
  "(\<And>l. l \<in> set ls \<Longrightarrow> crlf_free l) \<Longrightarrow> split_crlf (join_lines ls @ t) = ls @ split_crlf t"
  using split_crlf_line by (induction ls) simp_all

lemma char13: "(word_of_nat (of_char c) :: byte) = 13 \<longleftrightarrow> c = cr" "(word_of_nat (of_char c) :: byte) = 10 \<longleftrightarrow> c = lf"
  using bytes_of_string_inj [of "[c]" "[cr]"] bytes_of_string_inj [of "[c]" "[lf]"]
  by (simp_all add: bytes_of_string_def)

text \<open>The head of a message made of non-empty lines ends where its lines end.\<close>

lemma terminator_at:
  "take 4 (bytes_of_string s @ b) = [13, 10, 13, 10] \<longleftrightarrow>
     take 4 (s @ string_of_bytes b) = [cr, lf, cr, lf]"
proof -
  have "bytes_of_string (s @ string_of_bytes b) = bytes_of_string s @ b" by simp
  moreover have "take 4 (bytes_of_string x) = bytes_of_string (take 4 x)" for x
    by (simp add: bytes_of_string_def take_map)
  moreover have "bytes_of_string [cr, lf, cr, lf] = [13, 10, 13, 10]" by code_simp
  ultimately show ?thesis by (metis bytes_of_string_inj)
qed

fun find_end :: "string \<Rightarrow> nat option" where
  "find_end [] = None"
| "find_end (c # s) = (if take 4 (c # s) = [cr, lf, cr, lf] then Some 0 else map_option Suc (find_end s))"

lemma find_end_bytes: "find_crlfcrlf (bytes_of_string s) = find_end s"
proof (induction s)
  case Nil
  then show ?case by simp
next
  case (Cons c s)
  have "take 4 (bytes_of_string (c # s)) = [13, 10, 13, 10] \<longleftrightarrow> take 4 (c # s) = [cr, lf, cr, lf]"
    using terminator_at [of "c # s" "[]"] by simp
  then show ?case using Cons by simp
qed

lemma find_end_line:
  assumes "crlf_free l" and "take 2 t \<noteq> crlf"
  shows "find_end (l @ crlf @ t) = map_option (\<lambda>i. length l + 2 + i) (find_end t)"
  using assms(1)
proof (induction l)
  case Nil
  have "take 4 (crlf @ t) \<noteq> [cr, lf, cr, lf]" using assms(2) by (simp add: numeral_eq_Suc)
  moreover have "take 4 (lf # t) \<noteq> [cr, lf, cr, lf]" by (simp add: numeral_eq_Suc)
  ultimately show ?case by (simp add: option.map_comp o_def)
next
  case (Cons c l)
  have "take 4 ((c # l) @ crlf @ t) \<noteq> [cr, lf, cr, lf]"
    using Cons.prems by (cases l) (auto simp: crlf_free_Cons numeral_eq_Suc)
  then show ?case using Cons by (auto simp: crlf_free_Cons option.map_comp o_def)
qed

lemma find_end_lines:
  assumes "\<And>l. l \<in> set ls \<Longrightarrow> crlf_free l" and "[] \<notin> set (tl ls)" and "ls \<noteq> []"
  shows "find_end (join_lines ls @ crlf @ t) = Some (length (join_lines ls) - 2)"
  using assms
proof (induction ls)
  case Nil
  then show ?case by simp
next
  case (Cons l ls)
  show ?case
  proof (cases ls)
    case Nil
    have "crlf_free l" using Cons.prems by simp
    then have "find_end (l @ crlf @ crlf @ t) = Some (length l)"
    proof (induction l)
      case Nil
      then show ?case by (simp add: numeral_eq_Suc)
    next
      case (Cons c l)
      have "take 4 ((c # l) @ crlf @ crlf @ t) \<noteq> [cr, lf, cr, lf]"
        using Cons.prems by (cases l) (auto simp: crlf_free_Cons numeral_eq_Suc)
      then show ?case using Cons by (simp add: crlf_free_Cons)
    qed
    then show ?thesis using Nil by simp
  next
    case (Cons m ms)
    have m: "m \<noteq> []" "crlf_free m" "crlf_free l" using Cons.prems local.Cons by auto
    then have "take 2 (join_lines ls @ crlf @ t) \<noteq> crlf"
      using local.Cons by (cases m) (auto simp: crlf_free_Cons numeral_eq_Suc split: list.splits)
    from find_end_line [OF m(3) this] show ?thesis
      using Cons.IH Cons.prems local.Cons by auto
  qed
qed

section \<open>Lemmas on rewriting\<close>

definition kept_headers :: "string list \<Rightarrow> string list" where
  "kept_headers hs = filter (\<lambda>l. \<not> is_hop_header l) hs"

lemma copy_headers_lines:
  "copy_headers hs seen =
     (join_lines (kept_headers hs), seen \<or> list_ex (\<lambda>l. eq_ignore_ascii_case (header_name l) ''host'') (kept_headers hs))"
  by (induction hs seen rule: copy_headers.induct) (auto simp: kept_headers_def)

definition host_line :: "string list \<Rightarrow> string option \<Rightarrow> string list" where
  "host_line hs inject = (case inject of None \<Rightarrow> []
     | Some authority \<Rightarrow> if list_ex (\<lambda>l. eq_ignore_ascii_case (header_name l) ''host'') (kept_headers hs) then []
                        else [''Host: '' @ authority])"

definition out_lines :: "string \<Rightarrow> string list \<Rightarrow> string option \<Rightarrow> string list" where
  "out_lines rl hs inject = rl # kept_headers hs @ host_line hs inject @ [''Connection: close'']"

lemma rewrite_request_lines:
  "rewrite_request rl hs inject body = bytes_of_string (join_lines (out_lines rl hs inject) @ crlf) @ body"
  by (auto simp: rewrite_request_def copy_headers_lines out_lines_def host_line_def split: option.splits)

lemma parse_head_lines:
  assumes "\<And>l. l \<in> set ls \<Longrightarrow> crlf_free l" and "[] \<notin> set (tl ls)" and "ls \<noteq> []"
  shows "parse_head (bytes_of_string (join_lines ls @ crlf) @ body) = Inr (bytes_of_string (join_lines ls @ crlf), body)"
proof -
  have "2 \<le> length (join_lines ls)" using assms(3) by (cases ls) auto
  moreover have "find_crlfcrlf (bytes_of_string (join_lines ls @ crlf) @ body) = Some (length (join_lines ls) - 2)"
    using find_end_bytes [of "join_lines ls @ crlf @ string_of_bytes body"] find_end_lines [OF assms, of "string_of_bytes body"]
    by simp
  ultimately show ?thesis by (simp add: parse_head_def)
qed

lemma split_head_lines:
  assumes "\<And>l. l \<in> set ls \<Longrightarrow> crlf_free l"
  shows "split_crlf (string_of_bytes (bytes_of_string (join_lines ls @ crlf))) = ls @ [[], []]"
  unfolding string_of_bytes_of_string using split_join_lines [of ls crlf] assms by simp

lemma close_line: "crlf_free ''Connection: close''" "is_hop_header ''Connection: close''"
proof -
  have "c \<in> set ''Connection: close'' \<Longrightarrow> c \<noteq> cr" for c by auto
  then show "crlf_free ''Connection: close''" unfolding crlf_free_def by (metis append_Cons in_set_conv_decomp)
  show "is_hop_header ''Connection: close''" by code_simp
qed

lemma host_line_ok:
  assumes "\<And>a. inject = Some a \<Longrightarrow> crlf_free a" and "l \<in> set (host_line hs inject)"
  shows "crlf_free l \<and> \<not> is_hop_header l \<and> l \<noteq> []"
proof -
  obtain a where a: "inject = Some a" "l = ''Host: '' @ a"
    using assms(2) by (auto simp: host_line_def split: option.splits if_splits)
  have "header_name l = trim ''Host''" by (simp add: a header_name_def)
  moreover have "\<not> eq_ignore_ascii_case (trim ''Host'') ''proxy-connection''"
    "\<not> eq_ignore_ascii_case (trim ''Host'') ''proxy-authorization''"
    "\<not> eq_ignore_ascii_case (trim ''Host'') ''connection''" by code_simp+
  moreover have "crlf_free (''Host:'' @ CHR '' '' # a)"
    using a(1) assms(1) by (intro crlf_free_join) (auto simp: crlf_free_Cons)
  ultimately show ?thesis by (simp add: a is_hop_header_def)
qed

lemma split_once_free:
  assumes "split_once c s = Some (a, b)" and "crlf_free s"
  shows "crlf_free a" "crlf_free b"
  using assms crlf_free_sub [of "[]" a "c # b"] crlf_free_sub [of "a @ [c]" b "[]"]
  by (auto simp: split_once_Some)

lemma split_rest_free:
  assumes "split_rest rest dport = (authority, path, d)" and "crlf_free rest"
  shows "crlf_free authority \<and> crlf_free path"
proof -
  define i where "i = (case position (\<lambda>c. c \<in> set ''/?#'') rest of Some i \<Rightarrow> i | None \<Rightarrow> length rest)"
  have "split_rest rest dport = (take i rest, if drop i rest \<noteq> [] then drop i rest else ''/'', dport)"
    unfolding split_rest_def Let_def i_def ..
  then have i: "authority = take i rest" "path = drop i rest \<or> path = ''/''"
    using assms(1) by (auto split: if_splits)
  have "crlf_free (take i rest)" "crlf_free (drop i rest)" "crlf_free ''/''"
    using crlf_free_sub [of "[]" "take i rest" "drop i rest"] crlf_free_sub [of "take i rest" "drop i rest" "[]"] assms(2)
    by (simp_all add: crlf_free_Cons)
  then show ?thesis using i by auto
qed

lemma split_absolute_free:
  assumes "split_absolute tgt = Some (authority, path, dport)" and "crlf_free tgt"
  shows "crlf_free authority \<and> crlf_free path"
proof -
  have d: "crlf_free (drop n tgt)" for n
    using crlf_free_sub [of "take n tgt" "drop n tgt" "[]"] assms(2) by simp
  obtain n p where "split_rest (drop n tgt) p = (authority, path, dport)"
    using assms(1) by (simp add: split_absolute_def split: if_splits)
  then show ?thesis using split_rest_free d by blast
qed

lemma plain_target_free:
  assumes "plain_target rl meth tgt version headers = Inr (a, p, line, inject)"
    and "split3 rl = (meth, Some tgt, Some version)" and "crlf_free rl"
  shows "crlf_free line \<and> line \<noteq> [] \<and> (\<forall>h. inject = Some h \<longrightarrow> crlf_free h)"
proof -
  obtain r where r: "split_once (CHR '' '') rl = Some (meth, r)" "split_once (CHR '' '') r = Some (tgt, version)"
    using assms(2) by (auto simp: split3_def split: option.splits)
  have free: "crlf_free meth" "crlf_free tgt" "crlf_free version"
    using split_once_free [OF r(1) assms(3)] split_once_free [OF r(2)] by auto
  have "rl \<noteq> []" using r(1) by (auto simp: split_once_Some)
  show ?thesis
  proof (cases "split_absolute tgt")
    case None
    then show ?thesis using assms(1,3) \<open>rl \<noteq> []\<close>
      by (auto simp: plain_target_def rbind_Inr_conv split: prod.splits)
  next
    case (Some apd)
    obtain authority path dport where apd: "apd = (authority, path, dport)" by (cases apd)
    note f = split_absolute_free [OF Some [unfolded apd] free(2)]
    have "line = meth @ CHR '' '' # path @ CHR '' '' # version" "inject = Some authority"
      using assms(1) Some apd by (auto simp: plain_target_def rbind_Inr_conv split: prod.splits)
    then show ?thesis using f free by (auto intro!: crlf_free_join)
  qed
qed

text \<open>
  A target in absolute form, read independently of the code: a scheme, whose default port is \<open>dport\<close>, the
  authority, and the rest, which starts at the first slash, question mark or hash.
\<close>

definition absolute_form :: "string \<Rightarrow> string \<Rightarrow> string \<Rightarrow> u16 \<Rightarrow> bool" where
  "absolute_form tgt authority rest dport \<longleftrightarrow>
     (\<exists>scheme. tgt = scheme @ authority @ rest \<and>
        (eq_ignore_ascii_case scheme ''http://'' \<and> dport = 80 \<or> eq_ignore_ascii_case scheme ''https://'' \<and> dport = 443)) \<and>
     list_all (\<lambda>c. c \<notin> set ''/?#'') authority \<and> (rest = [] \<or> hd rest \<in> set ''/?#'')"

lemma eq_ignore_length: "eq_ignore_ascii_case a b \<Longrightarrow> length a = length b"
  unfolding eq_ignore_ascii_case_def by (metis length_to_ascii_lowercase)

lemma split_rest_form:
  assumes "split_rest s dport = (authority, path, d)"
  shows "\<exists>rest. s = authority @ rest \<and> list_all (\<lambda>c. c \<notin> set ''/?#'') authority \<and> (rest = [] \<or> hd rest \<in> set ''/?#'') \<and>
    path = (if rest = [] then ''/'' else rest) \<and> d = dport"
proof (cases "position (\<lambda>c. c \<in> set ''/?#'') s")
  case None
  then have "\<forall>c \<in> set s. c \<notin> set ''/?#''" unfolding position_None .
  moreover have "authority = s" "path = ''/''" "d = dport"
    using assms unfolding split_rest_def Let_def None option.case by simp_all
  ultimately show ?thesis unfolding list_all_iff by (intro exI [of _ "[]"]) simp
next
  case (Some i)
  then have "i < length s" "s ! i \<in> set ''/?#''" "\<forall>j < i. s ! j \<notin> set ''/?#''"
    unfolding position_Some by blast+
  then have f: "list_all (\<lambda>c. c \<notin> set ''/?#'') (take i s)" "hd (drop i s) \<in> set ''/?#''" "drop i s \<noteq> []"
    unfolding list_all_length by (metis length_take min_less_iff_conj nth_take, metis hd_drop_conv_nth, simp)
  moreover have "authority = take i s" "path = drop i s" "d = dport"
    using assms f(3) unfolding split_rest_def Let_def Some option.case by simp_all
  ultimately show ?thesis by (intro exI [of _ "drop i s"]) simp
qed

lemma split_absolute_form:
  assumes "split_absolute tgt = Some (authority, path, dport)"
  shows "\<exists>rest. absolute_form tgt authority rest dport \<and> path = (if rest = [] then ''/'' else rest)"
proof -
  obtain n where n: "split_rest (drop n tgt) dport = (authority, path, dport)"
    "eq_ignore_ascii_case (take n tgt) ''http://'' \<and> dport = 80 \<or> eq_ignore_ascii_case (take n tgt) ''https://'' \<and> dport = 443"
  proof -
    have dp: "snd (snd (split_rest t q)) = q" for t q by (simp add: split_rest_def Let_def)
    from assms consider "eq_ignore_ascii_case (take 7 tgt) ''http://''" "split_rest (drop 7 tgt) 80 = (authority, path, dport)"
      | "eq_ignore_ascii_case (take 8 tgt) ''https://''" "split_rest (drop 8 tgt) 443 = (authority, path, dport)"
      by (auto simp: split_absolute_def split: if_splits)
    then show thesis using that [of 7] that [of 8] dp by cases (metis snd_conv)+
  qed
  from split_rest_form [OF n(1)] obtain rest where r: "drop n tgt = authority @ rest" "list_all (\<lambda>c. c \<notin> set ''/?#'') authority"
    "rest = [] \<or> hd rest \<in> set ''/?#''" "path = (if rest = [] then ''/'' else rest)" by blast
  have "tgt = take n tgt @ authority @ rest" using append_take_drop_id [of n tgt] r(1) by simp
  with n(2) r show ?thesis unfolding absolute_form_def by blast
qed

lemma split_absolute_None: "split_absolute tgt = None \<Longrightarrow> \<not> absolute_form tgt authority rest dport"
  using eq_ignore_length by (fastforce simp: split_absolute_def absolute_form_def split: if_splits)

text \<open>
  The lines of the relayed head and the destination of the flow for a request with the line \<open>rl\<close> (of method, target and
  version) and the headers \<open>hs\<close>. With a target in absolute form the flow goes to its authority, and the head
  has the method, the rest of the target or a slash, and the version, then the headers without the
  hop-by-hop ones, a Host header with the authority when there is none, and Connection: close. Otherwise the
  flow goes to the Host header and the request line stays as it is.
\<close>

definition end_to_end :: "string list \<Rightarrow> string list" where
  "end_to_end hs = filter (\<lambda>l. \<not> is_hop_header l) hs"

definition relayed_as :: "string \<Rightarrow> string \<Rightarrow> string \<Rightarrow> string \<Rightarrow> string list \<Rightarrow> destination \<Rightarrow> string list \<Rightarrow> bool" where
  "relayed_as rl meth tgt version hs dst ls \<longleftrightarrow>
     (\<exists>authority rest dport a p. absolute_form tgt authority rest dport \<and>
        parse_authority authority dport = Inr (a, p) \<and> dst = dest_tcp a p \<and>
        ls = [meth @ '' '' @ (if rest = [] then ''/'' else rest) @ '' '' @ version] @ end_to_end hs @
          (if \<exists>l \<in> set (end_to_end hs). eq_ignore_ascii_case (header_name l) ''host'' then [] else [''Host: '' @ authority]) @
          [''Connection: close'', [], []]) \<or>
     (\<nexists>authority rest dport. absolute_form tgt authority rest dport) \<and>
       (\<exists>host a p. header_value hs ''host'' = Some host \<and> parse_authority host 80 = Inr (a, p) \<and> dst = dest_tcp a p) \<and>
       ls = [rl] @ end_to_end hs @ [''Connection: close'', [], []]"

lemma plain_target_cases:
  assumes "plain_target rl meth tgt version hs = Inr (a, p, line, inject)"
  shows "(\<exists>authority rest dport. absolute_form tgt authority rest dport \<and> parse_authority authority dport = Inr (a, p) \<and>
       line = meth @ '' '' @ (if rest = [] then ''/'' else rest) @ '' '' @ version \<and> inject = Some authority) \<or>
     (\<nexists>authority rest dport. absolute_form tgt authority rest dport) \<and>
       (\<exists>host. header_value hs ''host'' = Some host \<and> parse_authority host 80 = Inr (a, p)) \<and> line = rl \<and> inject = None"
proof (cases "split_absolute tgt")
  case None
  then show ?thesis using assms split_absolute_None [OF None]
    by (auto simp: plain_target_def rbind_Inr_conv ok_or_Inr split: prod.splits)
next
  case (Some x)
  obtain authority path dport where x: "x = (authority, path, dport)" by (cases x)
  from split_absolute_form [OF Some [unfolded x]] obtain rest where
    "absolute_form tgt authority rest dport" "path = (if rest = [] then ''/'' else rest)" by blast
  moreover have "parse_authority authority dport = Inr (a, p)" "line = meth @ '' '' @ path @ '' '' @ version" "inject = Some authority"
    using assms Some x by (auto simp: plain_target_def rbind_Inr_conv split: prod.splits)
  ultimately show ?thesis by blast
qed

lemma plain_target_relayed:
  assumes "plain_target rl meth tgt version hs = Inr (a, p, line, inject)"
  shows "relayed_as rl meth tgt version hs (dest_tcp a p) (out_lines line hs inject @ [[], []])"
proof -
  note kept = out_lines_def host_line_def kept_headers_def end_to_end_def list_ex_iff
  from plain_target_cases [OF assms] show ?thesis
  proof (elim disjE exE conjE)
    fix authority rest dport
    assume *: "absolute_form tgt authority rest dport" "parse_authority authority dport = Inr (a, p)"
      "line = meth @ '' '' @ (if rest = [] then ''/'' else rest) @ '' '' @ version" "inject = Some authority"
    then show ?thesis unfolding relayed_as_def
      by (intro disjI1 exI [of _ authority] exI [of _ rest] exI [of _ dport] exI [of _ a] exI [of _ p]) (simp add: kept)
  qed (simp add: relayed_as_def kept)
qed

lemma relayed_as_headers:
  "relayed_as rl meth tgt version hs dst ls \<Longrightarrow> \<exists>rl' extra. ls = rl' # end_to_end hs @ extra @ [''Connection: close'', [], []]"
  unfolding relayed_as_def by (elim disjE exE conjE) (auto intro: exI [of _ "[]"])

section \<open>Properties\<close>

lemma write_all_Inr: "write_all bs c = (Inr x, c') \<Longrightarrow> sent c' = sent c @ bs"
  by (auto simp: write_all_def split: list.splits option.splits)

lemma http_decode_cases:
  assumes "http_decode dec accounts st cx c = (Inr d, c', st')"
  obtains (refused) c1 where "accounts \<noteq> []" "write_all (bytes_of_string auth_required) c1 = (Inr (), c')"
      "sent c1 = sent c" "d = noop_decision cx"
    | (routed) head body evs lines cx' meth tgt version where
      "read_header MAX_HEAD parse_head (reads c) = (Inr (head, body), evs)" "lines = split_crlf (string_of_bytes head)"
      "split3 (hd lines) = (meth, Some tgt, Some version)"
      "accounts = [] \<and> cx' = cx \<or>
        (\<exists>u. check_auth dec accounts (takeWhile (\<lambda>l. l \<noteq> []) (tl lines)) = Some u \<and>
          cx' = with_user cx u (user_hash (bytes_of_string u)))"
      "http_route st cx' (c\<lparr>reads := evs\<rparr>) (hd lines) meth tgt version (takeWhile (\<lambda>l. l \<noteq> []) (tl lines)) body
        = (Inr d, c', st')"
proof -
  obtain head body evs ftext where h: "read_header MAX_HEAD parse_head (reads c) = (Inr (head, body), evs)"
    "from_utf8 head = Some ftext"
    using assms by (auto simp: http_decode_def Let_def split: prod.splits sum.splits option.splits)
  then have ftext: "ftext = string_of_bytes head" by (simp add: from_utf8_Some)
  obtain meth tgt version where s: "split3 (hd (split_crlf ftext)) = (meth, Some tgt, Some version)"
    using assms h by (auto simp: http_decode_def Let_def split: prod.splits option.splits)
  note goal = assms [unfolded http_decode_def h(1) Let_def prod.case sum.case h(2) option.case s]
  show thesis
  proof (cases "accounts = []")
    case True
    then show thesis using routed [OF h(1) refl, of meth tgt version cx] goal s ftext by simp
  next
    case False
    show thesis
    proof (cases "check_auth dec accounts (takeWhile (\<lambda>l. l \<noteq> []) (tl (split_crlf ftext)))")
      case None
      then show thesis using refused [of "c\<lparr>reads := evs\<rparr>"] goal False by (auto split: prod.splits sum.splits)
    next
      case (Some u)
      then show thesis
        using routed [OF h(1) refl, of meth tgt version "with_user cx u (user_hash (bytes_of_string u))"] goal s ftext False
        by simp
    qed
  qed
qed

lemma check_auth_Some:
  assumes "check_auth dec accounts hs = Some u"
  shows "\<exists>v acc. header_value hs ''proxy-authorization'' = Some v \<and> eq_ignore_ascii_case (take 6 v) ''Basic '' \<and>
    acc \<in> set accounts \<and> dec (trim (drop 6 v)) = Some (bytes_of_string (ha_username acc @ '':'' @ ha_password acc)) \<and>
    ha_username acc = u"
proof -
  obtain v dd creds u' p acc where v: "header_value hs ''proxy-authorization'' = Some v"
    "eq_ignore_ascii_case (take 6 v) ''Basic ''" "dec (trim (drop 6 v)) = Some dd" "from_utf8 dd = Some creds"
    "split_once (CHR '':'') creds = Some (u', p)"
    "find (\<lambda>a. ha_username a = u' \<and> ha_password a = p) accounts = Some acc" "ha_username acc = u"
    using assms by (auto simp: check_auth_def bind_eq_Some_conv split: if_splits)
  have "acc \<in> set accounts" "ha_username acc = u'" "ha_password acc = p" using v(6) by (auto simp: find_Some_iff)
  then show ?thesis using v by (auto simp: from_utf8_Some split_once_Some dest!: arg_cong [of _ _ bytes_of_string])
qed

lemma http_route_ctx: "http_route st cx c rl meth tgt version hs body = (Inr d, c', st') \<Longrightarrow> pd_ctx d = cx"
  by (auto simp: http_route_def split: if_splits sum.splits prod.splits)

text \<open>
  C17: With accounts configured, a connection is given a usable target only when its request head carries
  a Proxy-Authorization header whose decoded value is the name and the password of an account, joined by
  a colon, and the flow is attributed to that account.
\<close>

theorem http_requires_credentials:
  assumes "accounts \<noteq> []" and "http_decode dec accounts st cx c = (Inr d, c', st')" and "is_valid (pd_target d)"
  shows "\<exists>head body evs v acc. read_header MAX_HEAD parse_head (reads c) = (Inr (head, body), evs) \<and>
    header_value (takeWhile (\<lambda>l. l \<noteq> []) (tl (split_crlf (string_of_bytes head)))) ''proxy-authorization'' = Some v \<and>
    eq_ignore_ascii_case (take 6 v) ''Basic '' \<and> acc \<in> set accounts \<and>
    dec (trim (drop 6 v)) = Some (bytes_of_string (ha_username acc @ '':'' @ ha_password acc)) \<and>
    user_email (pd_ctx d) = Some (ha_username acc)"
  using assms(2)
proof (cases rule: http_decode_cases)
  case refused
  then show ?thesis using assms(3) noop_not_valid by simp
next
  case (routed head body evs lines cx' meth tgt version)
  then obtain u where u: "check_auth dec accounts (takeWhile (\<lambda>l. l \<noteq> []) (tl lines)) = Some u"
    "cx' = with_user cx u (user_hash (bytes_of_string u))" using assms(1) by auto
  have "user_email (pd_ctx d) = Some u" using http_route_ctx [OF routed(5)] u(2) by (simp add: with_user_def)
  then show ?thesis using check_auth_Some [OF u(1)] routed(1,2) by auto
qed

definition sample_http :: "string \<Rightarrow> string list \<Rightarrow> conn" where
  "sample_http line hs = empty_conn [ROk (bytes_of_string (line @ crlf @ concat (map (\<lambda>h. h @ crlf) hs))), ROk (bytes_of_string (crlf @ ''body''))]"

definition sample_base64 :: "string \<Rightarrow> bytes option" where
  "sample_base64 s = (if s = ''dTpw'' then Some (bytes_of_string ''u:p'') else None)"

definition sample_http_auth :: "proxy_decision io_result \<times> conn \<times> stats option" where
  "sample_http_auth = http_decode sample_base64 [\<lparr>ha_username = ''u'', ha_password = ''p''\<rparr>] None sample_ctx
     (sample_http ''CONNECT h:443 HTTP/1.1'' [''proxy-authorization: Basic dTpw''])"

lemma http_requires_credentials_witness: "\<exists>d c' st'. sample_http_auth = (Inr d, c', st') \<and> user_email (pd_ctx d) = Some ''u''"
proof -
  have "case fst sample_http_auth of Inr d \<Rightarrow> is_valid (pd_target d) | Inl _ \<Rightarrow> False" by code_simp
  then obtain d c' st' where d: "sample_http_auth = (Inr d, c', st')" "is_valid (pd_target d)"
    by (metis prod.collapse sum.case_eq_if sum.collapse(2))
  from http_requires_credentials [OF _ d(1) [unfolded sample_http_auth_def] d(2)] d(1) show ?thesis by auto
qed

text \<open>The parts of a plain request: what was read, where the flow goes, and the relayed bytes.\<close>

lemma plain_request_parts:
  assumes "http_decode dec accounts st cx c = (Inr d, c', st')" and "sent c' = sent c"
  obtains head body evs counter rl hs meth tgt version a p line inject where
    "read_header MAX_HEAD parse_head (reads c) = (Inr (head, body), evs)" "rl = hd (split_crlf (string_of_bytes head))"
    "hs = takeWhile (\<lambda>l. l \<noteq> []) (tl (split_crlf (string_of_bytes head)))" "split3 rl = (meth, Some tgt, Some version)"
    "plain_target rl meth tgt version hs = Inr (a, p, line, inject)" "pd_target d = dest_tcp a p"
    "pd_link d = RelayStream counter (rewrite_request line hs inject body)"
  using assms(1)
proof (cases rule: http_decode_cases)
  case (refused c1)
  then have "sent c' = sent c @ bytes_of_string auth_required" using write_all_Inr by fastforce
  then show ?thesis using assms(2) by (simp add: auth_required_def)
next
  case (routed head body evs lines cx' meth tgt version)
  define hs where "hs = takeWhile (\<lambda>l. l \<noteq> []) (tl lines)"
  have plain: "\<not> eq_ignore_ascii_case meth ''CONNECT''"
  proof
    assume "eq_ignore_ascii_case meth ''CONNECT''"
    then have "sent c' = sent c @ bytes_of_string established"
      using routed(5) by (auto simp: http_route_def dest: write_all_Inr split: sum.splits prod.splits)
    then show False using assms(2) by (simp add: established_def)
  qed
  obtain a p line inject counter where t: "plain_target (hd lines) meth tgt version hs = Inr (a, p, line, inject)"
    "pd_target d = dest_tcp a p" "pd_link d = RelayStream counter (rewrite_request line hs inject body)"
    using routed(5) plain by (auto simp: http_route_def hs_def split: sum.splits prod.splits)
  show ?thesis using that [OF routed(1) refl refl] routed(2,3) t by (simp add: hs_def)
qed

lemma relayed_head:
  assumes "rl = hd (split_crlf s)" and "hs = takeWhile (\<lambda>l. l \<noteq> []) (tl (split_crlf s))"
    and "split3 rl = (meth, Some tgt, Some version)" and "plain_target rl meth tgt version hs = Inr (a, p, line, inject)"
  shows "\<exists>head'. rewrite_request line hs inject body = head' @ body \<and> parse_head (head' @ body) = Inr (head', body) \<and>
    split_crlf (string_of_bytes head') = out_lines line hs inject @ [[], []]"
proof -
  have ne: "split_crlf s \<noteq> []" by (cases s) (auto split: list.splits)
  have free: "crlf_free l" if "l \<in> set (split_crlf s)" for l using that split_crlf_free by blast
  have "crlf_free rl" using free hd_in_set [OF ne] assms(1) by blast
  note ln = plain_target_free [OF assms(4,3) this]
  have hs: "crlf_free l \<and> l \<noteq> []" if "l \<in> set hs" for l
    using that free [OF list.set_sel(2) [OF ne]] set_takeWhileD unfolding assms(2) by fast
  define out where "out = out_lines line hs inject"
  have out: "crlf_free l" if "l \<in> set out" for l
    using that ln hs host_line_ok [of inject l hs] close_line(1) by (auto simp: out_def out_lines_def kept_headers_def)
  have "[] \<notin> set (tl out)" "out \<noteq> []"
    using hs host_line_ok [of inject "[]" hs] ln by (auto simp: out_def out_lines_def kept_headers_def)
  from rewrite_request_lines [of line hs inject body] parse_head_lines [OF out this, of body] split_head_lines [of out, OF out]
  show ?thesis unfolding out_def by blast
qed

text \<open>
  C18: The rewriting of a plain request, in full. The relayed bytes parse back into a head and exactly the body bytes
  that came with the request. For a target in absolute form the flow goes to its authority, and the head's
  lines are the client's method, the rest of the target (a slash when there is none) and the client's
  version, then the client's headers in order without the hop-by-hop ones, a Host header with the authority
  when none was there, and Connection: close. For any other target the flow goes to the Host header, and the
  request line is the client's own. The rest of the target is kept as it is, so that http://h?q is relayed
  as the target ?q, which is not in origin form. (Nothing was written to the client, so that no tunnel or
  refusal is meant.)
\<close>

theorem http_plain_request_rewritten:
  assumes "http_decode dec accounts st cx c = (Inr d, c', st')" and "sent c' = sent c"
  shows "\<exists>head body evs counter head' rl meth tgt version.
    read_header MAX_HEAD parse_head (reads c) = (Inr (head, body), evs) \<and>
    rl = hd (split_crlf (string_of_bytes head)) \<and> split3 rl = (meth, Some tgt, Some version) \<and>
    pd_link d = RelayStream counter (head' @ body) \<and> parse_head (head' @ body) = Inr (head', body) \<and>
    relayed_as rl meth tgt version (takeWhile (\<lambda>l. l \<noteq> []) (tl (split_crlf (string_of_bytes head))))
      (pd_target d) (split_crlf (string_of_bytes head'))"
proof -
  from plain_request_parts [OF assms] obtain head body evs counter rl hs meth tgt version a p line inject where
    start: "read_header MAX_HEAD parse_head (reads c) = (Inr (head, body), evs)" "rl = hd (split_crlf (string_of_bytes head))"
      "hs = takeWhile (\<lambda>l. l \<noteq> []) (tl (split_crlf (string_of_bytes head)))" "split3 rl = (meth, Some tgt, Some version)"
    and t: "plain_target rl meth tgt version hs = Inr (a, p, line, inject)" and d: "pd_target d = dest_tcp a p"
    and link: "pd_link d = RelayStream counter (rewrite_request line hs inject body)" .
  from relayed_head [OF start(2-4) t, of body] obtain head' where
    h: "rewrite_request line hs inject body = head' @ body" "parse_head (head' @ body) = Inr (head', body)"
    and lines: "split_crlf (string_of_bytes head') = out_lines line hs inject @ [[], []]" by blast
  have "relayed_as rl meth tgt version hs (pd_target d) (split_crlf (string_of_bytes head'))"
    using plain_target_relayed [OF t] lines d by simp
  with start(1,2,4) link [unfolded h(1)] h(2) show ?thesis unfolding start(3) by blast
qed

definition sample_http_plain :: "proxy_decision io_result \<times> conn \<times> stats option" where
  "sample_http_plain = http_decode sample_base64 [] None sample_ctx
     (sample_http ''GET http://h/x HTTP/1.1'' [''Connection: keep-alive'', ''Accept: a''])"

lemma http_plain_request_rewritten_witness:
  "\<exists>d c' st' counter head' rl extra. sample_http_plain = (Inr d, c', st') \<and>
     pd_link d = RelayStream counter (head' @ bytes_of_string ''body'') \<and>
     split_crlf (string_of_bytes head') = rl # ''Accept: a'' # extra @ [''Connection: close'', [], []]"
proof -
  let ?c = "sample_http ''GET http://h/x HTTP/1.1'' [''Connection: keep-alive'', ''Accept: a'']"
  have p: "\<not> isl (fst sample_http_plain)" "sent (fst (snd sample_http_plain)) = []" by code_simp+
  then obtain d c' st' where d: "sample_http_plain = (Inr d, c', st')" "sent c' = []"
    by (metis prod.collapse sum.collapse(2))
  have b: "case fst (read_header MAX_HEAD parse_head (reads ?c)) of
      Inr (head, body) \<Rightarrow> body = bytes_of_string ''body'' \<and>
        end_to_end (takeWhile (\<lambda>l. l \<noteq> []) (tl (split_crlf (string_of_bytes head)))) = [''Accept: a'']
    | Inl _ \<Rightarrow> False" by code_simp
  have e: "sent (sample_http x y) = []" for x y by (simp add: sample_http_def empty_conn_def)
  from http_plain_request_rewritten [OF d(1) [unfolded sample_http_plain_def], unfolded e, OF d(2)]
  obtain head body evs counter head' rl meth tgt version where r: "read_header MAX_HEAD parse_head (reads ?c) = (Inr (head, body), evs)"
    "pd_link d = RelayStream counter (head' @ body)"
    "relayed_as rl meth tgt version (takeWhile (\<lambda>l. l \<noteq> []) (tl (split_crlf (string_of_bytes head)))) (pd_target d)
       (split_crlf (string_of_bytes head'))"
    by (elim exE conjE)
  from b r(1) have "body = bytes_of_string ''body''"
    "end_to_end (takeWhile (\<lambda>l. l \<noteq> []) (tl (split_crlf (string_of_bytes head)))) = [''Accept: a'']" by simp_all
  note eqs = this
  from relayed_as_headers [OF r(3), unfolded eqs(2) append.simps] obtain rl' extra where
    "split_crlf (string_of_bytes head') = rl' # ''Accept: a'' # extra @ [''Connection: close'', [], []]" by (elim exE)
  with d(1) r(2) [unfolded eqs(1)] show ?thesis by (intro exI conjI)
qed

text \<open>
  An absolute-form target with a query directly after the authority keeps the query as its whole path:
  the rewritten request line is not in origin form.
\<close>

lemma absolute_query_not_origin_form:
  "split_absolute ''http://h?q'' = Some (''h'', ''?q'', 80)"
  by code_simp

end
