(* ===== verification/Crypto.thy ===== *)
theory Crypto
  imports IoMonad
begin

text \<open>
  proxy/src/crypto.rs: AEAD kinds, keyed AEAD instances, the little-endian nonce counter and the key
  schedules shared by Shadowsocks and VMess. The cipher and hash crates are the fields of \<open>crypto_lib\<close>;
  an MD5 digest is a 128 bit word, as its type in the code is sixteen bytes. \<open>aead_laws\<close> states what the
  crates document of an AEAD: sealing under a key and nonce of the right size succeeds, appends a
  sixteen byte tag, and is undone by opening.
\<close>

section \<open>AEAD\<close>

datatype aead_kind = Aes128Gcm | Aes256Gcm | ChaCha20Poly1305 | XChaCha20Poly1305

definition key_size :: "aead_kind \<Rightarrow> nat" where
  "key_size k = (case k of Aes128Gcm \<Rightarrow> 16 | Aes256Gcm \<Rightarrow> 32 | ChaCha20Poly1305 \<Rightarrow> 32 | XChaCha20Poly1305 \<Rightarrow> 32)"

definition nonce_size :: "aead_kind \<Rightarrow> nat" where
  "nonce_size k = (case k of XChaCha20Poly1305 \<Rightarrow> 24 | _ \<Rightarrow> 12)"

definition TAG :: nat where "TAG = 16"

record crypto_lib =
  lib_seal :: "aead_kind \<Rightarrow> bytes \<Rightarrow> bytes \<Rightarrow> bytes \<Rightarrow> bytes option"
  lib_open :: "aead_kind \<Rightarrow> bytes \<Rightarrow> bytes \<Rightarrow> bytes \<Rightarrow> bytes option"
  lib_md5 :: "bytes \<Rightarrow> 128 word"
  lib_hkdf_sha1 :: "bytes \<Rightarrow> bytes \<Rightarrow> bytes \<Rightarrow> nat \<Rightarrow> bytes option"

record aead =
  ad_kind :: aead_kind
  ad_key :: bytes

text \<open>\<open>new_from_slice\<close> refuses a key of the wrong length, and nothing else.\<close>

definition aead_new :: "aead_kind \<Rightarrow> bytes \<Rightarrow> aead result" where
  "aead_new kd key =
     (if length key = key_size kd then Inr \<lparr>ad_kind = kd, ad_key = key\<rparr> else Inl (Crypto ''aead key''))"

definition aead_seal :: "crypto_lib \<Rightarrow> aead \<Rightarrow> bytes \<Rightarrow> bytes \<Rightarrow> bytes result" where
  "aead_seal L a nonce plain = ok_or (lib_seal L (ad_kind a) (ad_key a) nonce plain) (Crypto ''aead seal'')"

definition aead_open :: "crypto_lib \<Rightarrow> aead \<Rightarrow> bytes \<Rightarrow> bytes \<Rightarrow> bytes result" where
  "aead_open L a nonce ct = ok_or (lib_open L (ad_kind a) (ad_key a) nonce ct) (Crypto ''aead open'')"

definition aead_laws :: "crypto_lib \<Rightarrow> bool" where
  "aead_laws L \<longleftrightarrow> (\<forall>k key n p. length key = key_size k \<longrightarrow> length n = nonce_size k \<longrightarrow> length p \<le> 65535 \<longrightarrow>
     (\<exists>c. lib_seal L k key n p = Some c \<and> length c = length p + TAG \<and> lib_open L k key n c = Some p))"

section \<open>The nonce counter\<close>

record nonce_ctr =
  nc_buf :: bytes
  nc_size :: nat

definition nonce_new :: "nat \<Rightarrow> nonce_ctr" where
  "nonce_new sz = \<lparr>nc_buf = replicate 24 0, nc_size = min sz 24\<rparr>"

definition nonce_bytes :: "nonce_ctr \<Rightarrow> bytes" where
  "nonce_bytes n = (if nc_size n \<le> length (nc_buf n) then take (nc_size n) (nc_buf n) else nc_buf n)"

text \<open>The loop of \<open>inc\<close> over the first \<open>k\<close> bytes: add one, stop unless it carried.\<close>

fun inc_loop :: "nat \<Rightarrow> bytes \<Rightarrow> bytes" where
  "inc_loop (Suc k) (b # bs) = (b + 1) # (if b + 1 = 0 then inc_loop k bs else bs)"
| "inc_loop _ bs = bs"

definition nonce_inc :: "nonce_ctr \<Rightarrow> nonce_ctr" where
  "nonce_inc n = n\<lparr>nc_buf := inc_loop (nc_size n) (nc_buf n)\<rparr>"

section \<open>Key schedules\<close>

definition digest_bytes :: "128 word \<Rightarrow> bytes" where
  "digest_bytes w = be_bytes 16 (unat w)"

lemma length_digest [simp]: "length (digest_bytes w) = 16"
  by (simp add: digest_bytes_def)

function evp_loop :: "(bytes \<Rightarrow> 128 word) \<Rightarrow> bytes \<Rightarrow> nat \<Rightarrow> bytes \<Rightarrow> bytes \<Rightarrow> bytes" where
  "evp_loop md5 password key_len key prev =
     (if length key < key_len then
        let digest = digest_bytes (md5 (prev @ password))
        in evp_loop md5 password key_len (key @ digest) digest
      else key)"
  by pat_completeness auto
termination
  by (relation "measure (\<lambda>(_, _, key_len, key, _). key_len - length key)") (auto simp: Let_def)

declare evp_loop.simps [simp del]

definition evp_bytes_to_key :: "(bytes \<Rightarrow> 128 word) \<Rightarrow> bytes \<Rightarrow> nat \<Rightarrow> bytes" where
  "evp_bytes_to_key md5 password key_len = take key_len (evp_loop md5 password key_len [] [])"

definition hkdf_sha1 :: "crypto_lib \<Rightarrow> bytes \<Rightarrow> bytes \<Rightarrow> bytes \<Rightarrow> nat \<Rightarrow> bytes result" where
  "hkdf_sha1 L secret salt info n = ok_or (lib_hkdf_sha1 L secret salt info n) (Crypto ''hkdf expand'')"

section \<open>Lemmas\<close>

fun le_nat :: "bytes \<Rightarrow> nat" where
  "le_nat [] = 0"
| "le_nat (b # bs) = unat b + 256 * le_nat bs"

lemma le_nat_bound: "le_nat bs < 256 ^ length bs"
proof (induction bs)
  case (Cons b bs)
  have "unat b + 256 * le_nat bs < 256 + 256 * le_nat bs" by simp
  also have "\<dots> \<le> 256 * 256 ^ length bs" using Cons by linarith
  finally show ?case by simp
qed simp

lemma le_nat_inj: "length xs = length ys \<Longrightarrow> le_nat xs = le_nat ys \<Longrightarrow> xs = ys"
proof (induction xs ys rule: list_induct2)
  case (Cons x xs y ys)
  have e: "unat x + 256 * le_nat xs = unat y + 256 * le_nat ys" using Cons.prems by simp
  have "unat x = unat y" using arg_cong [OF e, of "\<lambda>n. n mod 256"] by simp
  moreover from this have "le_nat xs = le_nat ys" using e by simp
  ultimately show ?case using Cons.IH by (simp add: unsigned_word_eqI)
qed simp

lemma length_inc_loop [simp]: "length (inc_loop k bs) = length bs"
  by (induction k bs rule: inc_loop.induct) auto

lemma byte_succ: "unat (b + 1 :: byte) = (if b + 1 = 0 then 0 else unat b + 1)"
  using unatSuc [of b] by (auto simp: add.commute)

lemma byte_carry: "(b :: byte) + 1 = 0 \<Longrightarrow> unat b = 255"
  using unat_plus_if' [of b 1] unat_byte_bound [of b] by (auto split: if_splits)

lemma inc_loop_value: "le_nat (take k (inc_loop k bs)) = (le_nat (take k bs) + 1) mod 256 ^ min k (length bs)"
proof (induction k bs rule: inc_loop.induct)
  case (1 k b bs)
  show ?case
  proof (cases "b + 1 = 0")
    case True
    have "(unat b + 256 * le_nat (take k bs) + 1) mod 256 ^ Suc (min k (length bs)) =
        256 * ((le_nat (take k bs) + 1) mod 256 ^ min k (length bs))"
      using mult_mod_right [of 256 "le_nat (take k bs) + 1" "256 ^ min k (length bs)"] byte_carry [OF True]
      by (simp add: algebra_simps)
    then show ?thesis using 1 [OF True] True by simp
  next
    case False
    then have "unat (b + 1) = unat b + 1" using byte_succ [of b] by simp
    moreover have "le_nat ((b + 1) # take k bs) < 256 ^ Suc (min k (length bs))"
      using le_nat_bound [of "(b + 1) # take k bs"] by (simp add: min.commute)
    ultimately show ?thesis using False by simp
  qed
qed simp_all

definition nonce_ok :: "nonce_ctr \<Rightarrow> bool" where
  "nonce_ok n \<longleftrightarrow> length (nc_buf n) = 24 \<and> nc_size n \<le> 24"

lemma nonce_new_ok [simp]: "nonce_ok (nonce_new sz)"
  by (simp add: nonce_ok_def nonce_new_def)

lemma nonce_inc_ok [simp]: "nonce_ok n \<Longrightarrow> nonce_ok (nonce_inc n)" "nc_size (nonce_inc n) = nc_size n"
  by (simp_all add: nonce_ok_def nonce_inc_def)

lemma length_nonce_bytes: "nonce_ok n \<Longrightarrow> length (nonce_bytes n) = nc_size n"
  by (simp add: nonce_bytes_def nonce_ok_def)

lemma nonce_inc_value:
  "nonce_ok n \<Longrightarrow> le_nat (nonce_bytes (nonce_inc n)) = (le_nat (nonce_bytes n) + 1) mod 256 ^ nc_size n"
  using inc_loop_value [of "nc_size n" "nc_buf n"] by (simp add: nonce_bytes_def nonce_inc_def nonce_ok_def min_absorb1)

lemma nonce_iterate:
  "nonce_ok ((nonce_inc ^^ i) (nonce_new sz)) \<and> nc_size ((nonce_inc ^^ i) (nonce_new sz)) = min sz 24 \<and>
   le_nat (nonce_bytes ((nonce_inc ^^ i) (nonce_new sz))) = i mod 256 ^ min sz 24"
proof (induction i)
  case 0
  have "le_nat (replicate k 0) = 0" for k by (induction k) auto
  then show ?case by (simp add: nonce_ok_def nonce_new_def nonce_bytes_def)
next
  case (Suc i)
  then show ?case by (auto simp: nonce_inc_value mod_Suc_eq)
qed

lemma aead_seal_open:
  assumes "aead_laws L" and "length (ad_key a) = key_size (ad_kind a)" and "length n = nonce_size (ad_kind a)"
    and "length p \<le> 65535"
  obtains c where "aead_seal L a n p = Inr c" "length c = length p + TAG" "aead_open L a n c = Inr p"
  using assms unfolding aead_laws_def aead_seal_def aead_open_def ok_or_def by (metis option.simps(5))

text \<open>A cipher that only appends a tag, for examples.\<close>

definition sample_lib :: crypto_lib where
  "sample_lib = \<lparr>lib_seal = (\<lambda>_ _ _ p. Some (p @ replicate 16 0)),
     lib_open = (\<lambda>_ key _ c. if 16 \<le> length c then Some (take (length c - 16) c) else None),
     lib_md5 = (\<lambda>bs. word_of_nat (length bs)), lib_hkdf_sha1 = (\<lambda>secret _ _ n. Some (take n (secret @ replicate n 0)))\<rparr>"

lemma sample_lib_laws: "aead_laws sample_lib"
  by (simp add: aead_laws_def sample_lib_def TAG_def)

section \<open>Properties\<close>

text \<open>
  C19: The nonce counter of an AEAD stream counts in little-endian order and does not repeat: the nonces
  after \<open>i\<close> and \<open>j\<close> increments differ as long as both counts are below \<open>256\<close> to the power of the nonce
  size, and each is the little-endian encoding of its count.
\<close>

theorem nonce_unique:
  assumes "i < 256 ^ nonce_size k" and "j < 256 ^ nonce_size k" and "i \<noteq> j"
  shows "nonce_bytes ((nonce_inc ^^ i) (nonce_new (nonce_size k))) \<noteq> nonce_bytes ((nonce_inc ^^ j) (nonce_new (nonce_size k)))
    \<and> length (nonce_bytes ((nonce_inc ^^ i) (nonce_new (nonce_size k)))) = nonce_size k
    \<and> le_nat (nonce_bytes ((nonce_inc ^^ i) (nonce_new (nonce_size k)))) = i"
proof -
  have s: "min (nonce_size k) 24 = nonce_size k" by (simp add: nonce_size_def split: aead_kind.splits)
  note v = nonce_iterate [of _ "nonce_size k", unfolded s]
  show ?thesis using v [of i] v [of j] length_nonce_bytes assms by (metis mod_less)
qed

lemma nonce_unique_witness:
  "nonce_bytes ((nonce_inc ^^ 255) (nonce_new 12)) \<noteq> nonce_bytes ((nonce_inc ^^ 256) (nonce_new 12))"
  using nonce_unique [of 255 Aes128Gcm 256] by (simp add: nonce_size_def)

text \<open>
  C20: The key derivation loop ends for every password and length, and gives a key of exactly the
  requested length, which is a prefix of the chain of digests, each computed from the one before and
  the password.
\<close>

fun digest_chain :: "(bytes \<Rightarrow> 128 word) \<Rightarrow> bytes \<Rightarrow> nat \<Rightarrow> bytes \<Rightarrow> bytes" where
  "digest_chain md5 password 0 prev = []"
| "digest_chain md5 password (Suc n) prev =
     (let d = digest_bytes (md5 (prev @ password)) in d @ digest_chain md5 password n d)"

lemma length_digest_chain [simp]: "length (digest_chain md5 password n prev) = 16 * n"
  by (induction n arbitrary: prev) (auto simp: Let_def)

lemma evp_loop_chain:
  "\<exists>n. evp_loop md5 password key_len key prev = key @ digest_chain md5 password n prev \<and>
     key_len \<le> length key + 16 * n"
proof (induction md5 password key_len key prev rule: evp_loop.induct)
  case (1 md5 password key_len key prev)
  show ?case
  proof (cases "length key < key_len")
    case True
    define d where "d = digest_bytes (md5 (prev @ password))"
    from 1 [OF True d_def] obtain n where
      n: "evp_loop md5 password key_len (key @ d) d = (key @ d) @ digest_chain md5 password n d"
      "key_len \<le> length (key @ d) + 16 * n" by auto
    then show ?thesis using True
      by (intro exI [of _ "Suc n"]) (simp add: evp_loop.simps [of _ _ _ key prev] Let_def d_def [symmetric], simp add: d_def)
  next
    case False
    then show ?thesis by (intro exI [of _ 0]) (simp add: evp_loop.simps)
  qed
qed

theorem evp_bytes_to_key_spec:
  "length (evp_bytes_to_key md5 password key_len) = key_len \<and>
   (\<exists>n. evp_bytes_to_key md5 password key_len = take key_len (digest_chain md5 password n []))"
proof -
  obtain n where "evp_loop md5 password key_len [] [] = digest_chain md5 password n []" "key_len \<le> 16 * n"
    using evp_loop_chain [of md5 password key_len "[]" "[]"] by auto
  then show ?thesis by (auto simp: evp_bytes_to_key_def)
qed

end
