(* ===== verification/Framed.thy ===== *)
theory Framed
  imports IoMonad
begin

text \<open>
  \<open>relay_framed\<close> of proxy/src/io.rs and the traits \<open>ChunkRead\<close> and \<open>ChunkWrite\<close> of
  kernel/src/pipe/translation.rs. The relay is generic over the codec of each direction, as in the code.
  The locale \<open>chunk_codec\<close> is the contract of a codec: what a writer puts on the wire, a reader in step
  with it gets back, and after the writer has finished and closed the reader sees the end. Shadowsocks
  and VMess interpret it.

  One event of the relay is one turn of its \<open>select!\<close>: the idle token, a turn of the uplink loop (with
  whether the link still has its receiver), a chunk from the link, or the end of the link.
\<close>

section \<open>The relay\<close>

record ('d, 'e) framed =
  fr_conn :: conn
  fr_dec :: 'd
  fr_enc :: 'e
  fr_link :: "bytes list"
  fr_stats :: stats

datatype framed_event = FIdle | FUp bool | FDown bytes | FEof

definition tally_up :: "nat option \<Rightarrow> nat \<Rightarrow> stats \<Rightarrow> stats" where
  "tally_up c n st = (case c of None \<Rightarrow> st | Some a \<Rightarrow> add_up a (word_of_nat n) st)"

definition tally_down :: "nat option \<Rightarrow> nat \<Rightarrow> stats \<Rightarrow> stats" where
  "tally_down c n st = (case c of None \<Rightarrow> st | Some a \<Rightarrow> add_down a (word_of_nat n) st)"

definition framed_up ::
  "('d \<Rightarrow> (bytes option \<times> 'd) io) \<Rightarrow> nat option \<Rightarrow> bool \<Rightarrow> ('d, 'e) framed \<Rightarrow> unit io_result option \<times> ('d, 'e) framed" where
  "framed_up read_chunk c accepted s =
     (case read_chunk (fr_dec s) (fr_conn s) of
        (Blocked, cn) \<Rightarrow> (None, s\<lparr>fr_conn := cn\<rparr>)
      | (Fail e, cn) \<Rightarrow> (Some (Inl e), s\<lparr>fr_conn := cn\<rparr>)
      | (Done (None, d), cn) \<Rightarrow> (Some (Inr ()), s\<lparr>fr_conn := cn, fr_dec := d\<rparr>)
      | (Done (Some chunk, d), cn) \<Rightarrow>
          (let s = s\<lparr>fr_conn := cn, fr_dec := d\<rparr> in
           if chunk = [] then (None, s)
           else let s = s\<lparr>fr_stats := tally_up c (length chunk) (fr_stats s)\<rparr> in
             if accepted then (None, s\<lparr>fr_link := fr_link s @ [chunk]\<rparr>) else (Some (Inr ()), s)))"

definition framed_down ::
  "('e \<Rightarrow> bytes \<Rightarrow> 'e io) \<Rightarrow> nat option \<Rightarrow> bytes \<Rightarrow> ('d, 'e) framed \<Rightarrow> unit io_result option \<times> ('d, 'e) framed" where
  "framed_down write_chunk c data s =
     (let s = s\<lparr>fr_stats := tally_down c (length data) (fr_stats s)\<rparr> in
      case write_chunk (fr_enc s) data (fr_conn s) of
        (Blocked, cn) \<Rightarrow> (None, s\<lparr>fr_conn := cn\<rparr>)
      | (Fail e, cn) \<Rightarrow> (Some (Inl e), s\<lparr>fr_conn := cn\<rparr>)
      | (Done e, cn) \<Rightarrow> (None, s\<lparr>fr_conn := cn, fr_enc := e\<rparr>))"

definition framed_eof ::
  "('e \<Rightarrow> 'e io) \<Rightarrow> ('d, 'e) framed \<Rightarrow> unit io_result option \<times> ('d, 'e) framed" where
  "framed_eof finish s =
     (case finish (fr_enc s) (fr_conn s) of
        (Blocked, cn) \<Rightarrow> (None, s\<lparr>fr_conn := cn\<rparr>)
      | (Fail e, cn) \<Rightarrow> (Some (Inl e), s\<lparr>fr_conn := cn\<rparr>)
      | (Done e, cn) \<Rightarrow> (Some (Inr ()), s\<lparr>fr_conn := cn, fr_enc := e\<rparr>))"

fun framed_run ::
  "('d \<Rightarrow> (bytes option \<times> 'd) io) \<Rightarrow> ('e \<Rightarrow> bytes \<Rightarrow> 'e io) \<Rightarrow> ('e \<Rightarrow> 'e io) \<Rightarrow> nat option \<Rightarrow>
   framed_event list \<Rightarrow> ('d, 'e) framed \<Rightarrow> unit io_result option \<times> ('d, 'e) framed" where
  "framed_run rd wr fin c [] s = (None, s)"
| "framed_run rd wr fin c (ev # evs) s =
     (case (case ev of
              FIdle \<Rightarrow> (Some (Inl (IoMsg TimedOut ''idle'')), s)
            | FUp accepted \<Rightarrow> framed_up rd c accepted s
            | FDown data \<Rightarrow> framed_down wr c data s
            | FEof \<Rightarrow> framed_eof fin s) of
        (Some r, s') \<Rightarrow> (Some r, s')
      | (None, s') \<Rightarrow> framed_run rd wr fin c evs s')"

text \<open>The uplink first sends the payload that came with the header; a refused send ends the relay.\<close>

definition relay_framed ::
  "('d \<Rightarrow> (bytes option \<times> 'd) io) \<Rightarrow> ('e \<Rightarrow> bytes \<Rightarrow> 'e io) \<Rightarrow> ('e \<Rightarrow> 'e io) \<Rightarrow> nat option \<Rightarrow> bytes \<Rightarrow> bool \<Rightarrow>
   framed_event list \<Rightarrow> ('d, 'e) framed \<Rightarrow> unit io_result option \<times> ('d, 'e) framed" where
  "relay_framed rd wr fin c leftover accepted evs s =
     (if leftover = [] then framed_run rd wr fin c evs s
      else if \<not> accepted then (Some (Inr ()), s)
      else framed_run rd wr fin c evs (s\<lparr>fr_link := fr_link s @ [leftover]\<rparr>))"

text \<open>Reading where end of file is not an error: the first read of a chunk.\<close>

definition io_read_or_eof :: "nat \<Rightarrow> bytes option io" where
  "io_read_or_eof n = (\<lambda>c. case io_read n c of
     (Blocked, c') \<Rightarrow> (Blocked, c')
   | (Fail e, c') \<Rightarrow> if io_kind e = UnexpectedEof then (Done None, c') else (Fail e, c')
   | (Done b, c') \<Rightarrow> (Done (Some b), c'))"

section \<open>Lemmas\<close>

lemma runs_read_or_eof: "length b = n \<Longrightarrow> runs (io_read_or_eof n) (b @ r) (Some b) [] r"
  using runs_read [of b n r] unfolding runs_def io_read_or_eof_def by fastforce

lemma read_or_eof_eof:
  "reads c = ROk [] # evs \<Longrightarrow> 0 < n \<Longrightarrow> io_read_or_eof n c = (Done None, c\<lparr>reads := evs\<rparr>)"
  by (simp add: io_read_or_eof_def io_read_def read_exact_def read_exact_events.simps)

definition tally :: "nat option \<Rightarrow> stats \<Rightarrow> (u64 \<times> u64) option" where
  "tally c st = map_option (\<lambda>a. (up (cells st ! a), down (cells st ! a))) c"

definition tally_valid :: "nat option \<Rightarrow> stats \<Rightarrow> bool" where
  "tally_valid c st \<longleftrightarrow> (\<forall>a. c = Some a \<longrightarrow> a < length (cells st))"

lemma tally_simps [simp]:
  "tally_valid c st \<Longrightarrow> tally_valid c (tally_up c n st)"
  "tally_valid c st \<Longrightarrow> tally_valid c (tally_down c n st)"
  "tally_valid c st \<Longrightarrow> tally c (tally_up c n st) = map_option (\<lambda>(u, d). (u + word_of_nat n, d)) (tally c st)"
  "tally_valid c st \<Longrightarrow> tally c (tally_down c n st) = map_option (\<lambda>(u, d). (u, d + word_of_nat n)) (tally c st)"
  by (auto simp: tally_def tally_valid_def tally_up_def tally_down_def add_up_nth add_down_nth split: option.splits)

text \<open>\<open>reads_back rd r wire ds r'\<close>: reading chunks off \<open>wire\<close> from state \<open>r\<close> gives \<open>ds\<close>, using all of it.\<close>

fun reads_back :: "('s \<Rightarrow> (bytes option \<times> 's) io) \<Rightarrow> 's \<Rightarrow> bytes \<Rightarrow> bytes list \<Rightarrow> 's \<Rightarrow> bool" where
  "reads_back rd r wire [] r' \<longleftrightarrow> wire = [] \<and> r' = r"
| "reads_back rd r wire (d # ds) r' \<longleftrightarrow> (\<exists>o1 o2 r1. wire = o1 @ o2 \<and>
     (\<forall>rest. runs (rd r) (o1 @ rest) (Some d, r1) [] rest) \<and> reads_back rd r1 o2 ds r')"

lemma reads_back_append:
  "reads_back rd r w1 ds1 r1 \<Longrightarrow> reads_back rd r1 w2 ds2 r2 \<Longrightarrow> reads_back rd r (w1 @ w2) (ds1 @ ds2) r2"
proof (induction ds1 arbitrary: r w1)
  case (Cons d ds)
  then obtain o1 o2 r' where o: "w1 = o1 @ o2" "\<forall>rest. runs (rd r) (o1 @ rest) (Some d, r') [] rest"
    "reads_back rd r' o2 ds r1" by auto
  then have "reads_back rd r' (o2 @ w2) (ds @ ds2) r2" using Cons by blast
  then show ?case using o by auto
qed simp

text \<open>\<open>sends m out x\<close>: the step writes \<open>out\<close>, reads nothing and ends with \<open>x\<close>.\<close>

definition sends :: "'a io \<Rightarrow> bytes \<Rightarrow> 'a \<Rightarrow> bool" where
  "sends m out x \<longleftrightarrow> (\<forall>b. runs m b x out b)"

lemma sends_bind:
  assumes "sends m o1 x" and "sends (f x) o2 y"
  shows "sends (io_bind m f) (o1 @ o2) y"
  unfolding sends_def
proof
  fix b
  have "runs m b x o1 b" "runs (f x) b y o2 b" using assms by (simp_all add: sends_def)
  then show "runs (io_bind m f) b y (o1 @ o2) b" by (rule runs_bind)
qed

lemma sends_write: "sends (io_write w) w ()"
  by (simp add: sends_def runs_write)

lemma sends_return: "sends (io_return x) [] x"
  by (simp add: sends_def runs_return)

lemma reads_silent:
  assumes "runs m bs x [] bs'" and "delivers_then c bs evs" and "write_outcomes c = []"
  shows "\<exists>c'. m c = (Done x, c') \<and> sent c' = sent c"
  using runsD [OF assms] by auto

fun writes_as :: "('s \<Rightarrow> bytes \<Rightarrow> 's io) \<Rightarrow> 's \<Rightarrow> bytes list \<Rightarrow> bytes \<Rightarrow> 's \<Rightarrow> bool" where
  "writes_as wr w [] wire w' \<longleftrightarrow> wire = [] \<and> w' = w"
| "writes_as wr w (d # ds) wire w' \<longleftrightarrow> (\<exists>o1 o2 w1. wire = o1 @ o2 \<and> sends (wr w d) o1 w1 \<and> writes_as wr w1 ds o2 w')"

lemma sends_unique:
  assumes "sends m out x" and "sends m out' x'"
  shows "out = out' \<and> x = x'"
proof -
  have c: "delivers (empty_conn []) []" "write_outcomes (empty_conn []) = []"
    by (auto simp: delivers_then_def empty_conn_def)
  have "runs m [] x out []" "runs m [] x' out' []" using assms by (simp_all add: sends_def)
  from runsD [OF this(1) c] runsD [OF this(2) c] show ?thesis by auto
qed

lemma writes_as_unique: "writes_as wr w ms o1 w1 \<Longrightarrow> writes_as wr w ms o2 w2 \<Longrightarrow> o1 = o2 \<and> w1 = w2"
proof (induction ms arbitrary: w o1 o2)
  case (Cons m ms)
  then obtain a1 a2 v b1 b2 v' where a: "o1 = a1 @ a2" "sends (wr w m) a1 v" "writes_as wr v ms a2 w1"
    "o2 = b1 @ b2" "sends (wr w m) b1 v'" "writes_as wr v' ms b2 w2" by auto
  have "a1 = b1" "v = v'" using sends_unique [OF a(2,5)] by simp_all
  then show ?case using Cons.IH [of v a2 b2] a by simp
qed simp

lemma framed_run_append:
  "framed_run rd wr fin c (es @ es') s =
     (case framed_run rd wr fin c es s of (None, s') \<Rightarrow> framed_run rd wr fin c es' s' | (Some r, s') \<Rightarrow> (Some r, s'))"
  by (induction es arbitrary: s) (auto split: prod.splits option.splits)

text \<open>
  A run of transfers: turns of the uplink and chunks of the link, in any order. \<open>relayed\<close> is what such a
  run has put on the link and on the counter.
\<close>

definition transfers :: "framed_event list \<Rightarrow> bool" where
  "transfers es \<longleftrightarrow> (\<forall>ev \<in> set es. ev = FUp True \<or> (\<exists>d. ev = FDown d))"

definition up_turns :: "framed_event list \<Rightarrow> nat" where
  "up_turns es = length (filter (\<lambda>ev. ev = FUp True) es)"

fun down_data :: "framed_event list \<Rightarrow> bytes" where
  "down_data [] = []"
| "down_data (FDown d # es) = d @ down_data es"
| "down_data (_ # es) = down_data es"

definition relayed :: "nat option \<Rightarrow> ('d, 'e) framed \<Rightarrow> bytes list \<Rightarrow> bytes \<Rightarrow> ('d, 'e) framed \<Rightarrow> bool" where
  "relayed c s us dd s' \<longleftrightarrow> fr_link s' = fr_link s @ us \<and> tally_valid c (fr_stats s') \<and>
     tally c (fr_stats s') =
       map_option (\<lambda>(u, d). (u + word_of_nat (length (concat us)), d + word_of_nat (length dd))) (tally c (fr_stats s))"

lemma relayed_refl: "tally_valid c (fr_stats s) \<Longrightarrow> relayed c s [] [] s"
  by (simp add: relayed_def case_prod_unfold option.map_ident)

lemma relayed_trans: "relayed c s us dd s1 \<Longrightarrow> relayed c s1 us' dd' s2 \<Longrightarrow> relayed c s (us @ us') (dd @ dd') s2"
  by (auto simp: relayed_def option.map_comp case_prod_unfold o_def algebra_simps intro!: option.map_cong)

lemma framed_up_chunk:
  assumes "runs (rd (fr_dec s)) bs (Some d, r1) [] bs'" and "d \<noteq> []" and "delivers_then (fr_conn s) bs evs"
    and "write_outcomes (fr_conn s) = []" and "tally_valid c (fr_stats s)"
  shows "\<exists>s'. framed_up rd c True s = (None, s') \<and> relayed c s [d] [] s' \<and> fr_dec s' = r1 \<and> fr_enc s' = fr_enc s \<and>
    delivers_then (fr_conn s') bs' evs \<and> write_outcomes (fr_conn s') = [] \<and> sent (fr_conn s') = sent (fr_conn s)"
proof -
  from runsD [OF assms(1,3,4)] obtain cn where "rd (fr_dec s) (fr_conn s) = (Done (Some d, r1), cn)"
    "delivers_then cn bs' evs" "sent cn = sent (fr_conn s)" "write_outcomes cn = []" by auto
  then show ?thesis using assms(2,5) by (simp add: framed_up_def relayed_def Let_def)
qed

lemma framed_down_chunk:
  assumes "sends (wr (fr_enc s) data) out e'" and "delivers_then (fr_conn s) bs evs"
    and "write_outcomes (fr_conn s) = []" and "tally_valid c (fr_stats s)"
  shows "\<exists>s'. framed_down wr c data s = (None, s') \<and> relayed c s [] data s' \<and> fr_dec s' = fr_dec s \<and> fr_enc s' = e' \<and>
    delivers_then (fr_conn s') bs evs \<and> write_outcomes (fr_conn s') = [] \<and> sent (fr_conn s') = sent (fr_conn s) @ out"
proof -
  have "runs (wr (fr_enc s) data) bs e' out bs" using assms(1) by (simp add: sends_def)
  from runsD [OF this assms(2,3)] obtain cn where "wr (fr_enc s) data (fr_conn s) = (Done e', cn)"
    "delivers_then cn bs evs" "sent cn = sent (fr_conn s) @ out" "write_outcomes cn = []" by auto
  then show ?thesis using assms(4) by (simp add: framed_down_def relayed_def Let_def)
qed

section \<open>The contract of a chunk codec\<close>

locale chunk_codec =
  fixes read_chunk :: "'s \<Rightarrow> (bytes option \<times> 's) io"
    and write_chunk :: "'s \<Rightarrow> bytes \<Rightarrow> 's io"
    and finish :: "'s \<Rightarrow> 's io"
    and in_step :: "'s \<Rightarrow> 's \<Rightarrow> bool"
  assumes write_read: "in_step w r \<Longrightarrow> \<exists>w' r' out ds. sends (write_chunk w d) out w' \<and>
      reads_back read_chunk r out ds r' \<and> concat ds = d \<and> [] \<notin> set ds \<and> in_step w' r'"
    and finish_end: "in_step w r \<Longrightarrow> \<exists>w' out. sends (finish w) out w' \<and>
      (\<forall>c evs. delivers_then c out (ROk [] # evs) \<longrightarrow> write_outcomes c = [] \<longrightarrow>
        (\<exists>r' c'. read_chunk r c = (Done (None, r'), c') \<and> sent c' = sent c))"
begin

lemma writes_read:
  "in_step w r \<Longrightarrow> \<exists>wire w' r' ds. writes_as write_chunk w ms wire w' \<and> reads_back read_chunk r wire ds r' \<and>
     concat ds = concat ms \<and> [] \<notin> set ds \<and> in_step w' r'"
proof (induction ms arbitrary: w r)
  case Nil
  then show ?case by (intro exI [of _ "[]"] exI [of _ w] exI [of _ r]) simp
next
  case (Cons m ms)
  from write_read [OF Cons.prems, of m] obtain w1 r1 o1 ds1 where 1: "sends (write_chunk w m) o1 w1"
    "reads_back read_chunk r o1 ds1 r1" "concat ds1 = m" "[] \<notin> set ds1" "in_step w1 r1" by blast
  from Cons.IH [OF 1(5)] obtain o2 w2 r2 ds2 where 2: "writes_as write_chunk w1 ms o2 w2"
    "reads_back read_chunk r1 o2 ds2 r2" "concat ds2 = concat ms" "[] \<notin> set ds2" "in_step w2 r2" by blast
  have "writes_as write_chunk w (m # ms) (o1 @ o2) w2" using 1(1) 2(1) by auto
  moreover have "reads_back read_chunk r (o1 @ o2) (ds1 @ ds2) r2" using 1(2) 2(2) by (rule reads_back_append)
  ultimately show ?case using 1 2 by (intro exI [of _ "o1 @ o2"] exI [of _ w2] exI [of _ r2] exI [of _ "ds1 @ ds2"]) simp
qed

lemma framed_transfers:
  assumes "transfers es" and "reads_back read_chunk (fr_dec s) wire us d'" and "[] \<notin> set us" and "up_turns es = length us"
    and "in_step (fr_enc s) r" and "delivers_then (fr_conn s) (wire @ rest) evs" and "write_outcomes (fr_conn s) = []"
    and "tally_valid c (fr_stats s)"
  shows "\<exists>s' out ds r'. framed_run read_chunk write_chunk finish c es s = (None, s') \<and> relayed c s us (down_data es) s' \<and>
    fr_dec s' = d' \<and> delivers_then (fr_conn s') rest evs \<and> write_outcomes (fr_conn s') = [] \<and>
    sent (fr_conn s') = sent (fr_conn s) @ out \<and> reads_back read_chunk r out ds r' \<and> concat ds = down_data es \<and>
    in_step (fr_enc s') r'"
  using assms
proof (induction es arbitrary: s us wire r)
  case Nil
  then show ?case using relayed_refl by (auto simp: up_turns_def intro!: exI [of _ "[]"])
next
  case (Cons ev es)
  have es: "transfers es" using Cons.prems(1) by (simp add: transfers_def)
  consider (up) "ev = FUp True" | (down) d where "ev = FDown d" using Cons.prems(1) by (auto simp: transfers_def)
  then show ?case
  proof cases
    case up
    then obtain u us' where us: "us = u # us'" "up_turns es = length us'"
      using Cons.prems(4) by (cases us) (auto simp: up_turns_def)
    then obtain o1 o2 r1 where o: "wire = o1 @ o2" "\<forall>rest. runs (read_chunk (fr_dec s)) (o1 @ rest) (Some u, r1) [] rest"
      "reads_back read_chunk r1 o2 us' d'" using Cons.prems(2) by auto
    obtain s1 where s1: "framed_up read_chunk c True s = (None, s1)" "relayed c s [u] [] s1" "fr_dec s1 = r1"
      "fr_enc s1 = fr_enc s" "delivers_then (fr_conn s1) (o2 @ rest) evs" "write_outcomes (fr_conn s1) = []"
      "sent (fr_conn s1) = sent (fr_conn s)"
      using framed_up_chunk [of read_chunk s "o1 @ o2 @ rest" u r1 "o2 @ rest" evs c] o us Cons.prems by auto
    have "tally_valid c (fr_stats s1)" using s1(2) by (simp add: relayed_def)
    then show ?thesis
      using Cons.IH [of s1 o2 us' r] es o(3) us Cons.prems(3,5) s1 up relayed_trans [OF s1(2), of us' "down_data es"]
      by fastforce
  next
    case (down d)
    from write_read [OF Cons.prems(5), of d] obtain w' r' out ds where w: "sends (write_chunk (fr_enc s) d) out w'"
      "reads_back read_chunk r out ds r'" "concat ds = d" "[] \<notin> set ds" "in_step w' r'" by blast
    from framed_down_chunk [of write_chunk s d out w', OF w(1) Cons.prems(6,7,8)]
    obtain s1 where s1: "framed_down write_chunk c d s = (None, s1)" "relayed c s [] d s1" "fr_dec s1 = fr_dec s"
      "fr_enc s1 = w'" "delivers_then (fr_conn s1) (wire @ rest) evs" "write_outcomes (fr_conn s1) = []"
      "sent (fr_conn s1) = sent (fr_conn s) @ out" by blast
    have "tally_valid c (fr_stats s1)" using s1(2) by (simp add: relayed_def)
    moreover have "up_turns es = length us" using Cons.prems(4) down by (simp add: up_turns_def)
    ultimately obtain s' out' ds' r'' where t: "framed_run read_chunk write_chunk finish c es s1 = (None, s')"
      "relayed c s1 us (down_data es) s'" "fr_dec s' = d'" "delivers_then (fr_conn s') rest evs"
      "write_outcomes (fr_conn s') = []" "sent (fr_conn s') = sent (fr_conn s1) @ out'"
      "reads_back read_chunk r' out' ds' r''" "concat ds' = down_data es" "in_step (fr_enc s') r''"
      using Cons.IH [of s1 wire us r'] es Cons.prems(2,3) s1 w(5) by auto
    have "reads_back read_chunk r (out @ out') (ds @ ds') r''" using w(2) t(7) by (rule reads_back_append)
    then show ?thesis using t s1 down w(3) relayed_trans [OF s1(2) t(2)]
      by (intro exI [of _ s'] exI [of _ "out @ out'"] exI [of _ "ds @ ds'"] exI [of _ r'']) simp
  qed
qed

text \<open>What a client puts on the wire when it sends the messages \<open>ms\<close> and finishes.\<close>

lemma client_wire:
  assumes "in_step w r" and "writes_as write_chunk w ms wire w1" and "sends (finish w1) fin w2"
  shows "\<exists>us d'. concat us = concat ms \<and> [] \<notin> set us \<and> reads_back read_chunk r wire us d' \<and>
    (\<forall>c evs. delivers_then c fin (ROk [] # evs) \<longrightarrow> write_outcomes c = [] \<longrightarrow>
      (\<exists>r' c'. read_chunk d' c = (Done (None, r'), c') \<and> sent c' = sent c))"
proof -
  from writes_read [OF assms(1), of ms] obtain wire' w' d' us where us: "writes_as write_chunk w ms wire' w'"
    "reads_back read_chunk r wire' us d'" "concat us = concat ms" "[] \<notin> set us" "in_step w' d'" by blast
  have eq: "wire' = wire \<and> w' = w1" using writes_as_unique [OF us(1) assms(2)] .
  obtain fin' w'' where f: "sends (finish w1) fin' w''" and
    e: "\<forall>c evs. delivers_then c fin' (ROk [] # evs) \<longrightarrow> write_outcomes c = [] \<longrightarrow>
      (\<exists>r' c'. read_chunk d' c = (Done (None, r'), c') \<and> sent c' = sent c)"
    using finish_end [OF us(5)] eq by blast
  have "fin' = fin" using sends_unique [OF f assms(3)] by simp
  then show ?thesis using us eq e by blast
qed

text \<open>
  The relay of a client that has sent the chunks \<open>us\<close>, finished and closed. Its last uplink turn ends the
  relay: what comes \<open>later\<close> has no effect.
\<close>

lemma framed_relay:
  assumes "reads_back read_chunk (fr_dec s) wire us d'" and "[] \<notin> set us"
    and ends: "\<forall>c evs. delivers_then c fin (ROk [] # evs) \<longrightarrow> write_outcomes c = [] \<longrightarrow>
      (\<exists>r' c'. read_chunk d' c = (Done (None, r'), c') \<and> sent c' = sent c)"
    and "in_step (fr_enc s) r" and "delivers_then (fr_conn s) (wire @ fin) (ROk [] # evs)"
    and "write_outcomes (fr_conn s) = []" and "tally_valid c (fr_stats s)"
    and "transfers es" and "up_turns es = length us"
  shows "\<exists>s' out ds r'. framed_run read_chunk write_chunk finish c (es @ FUp True # later) s = (Some (Inr ()), s') \<and>
       relayed c s us (down_data es) s' \<and> sent (fr_conn s') = sent (fr_conn s) @ out \<and>
       reads_back read_chunk r out ds r' \<and> concat ds = down_data es"
proof -
  from framed_transfers [OF assms(8,1,2,9,4,5,6,7)]
  obtain s1 out ds r' where s1: "framed_run read_chunk write_chunk finish c es s = (None, s1)"
    "relayed c s us (down_data es) s1" "fr_dec s1 = d'" "delivers_then (fr_conn s1) fin (ROk [] # evs)"
    "write_outcomes (fr_conn s1) = []" "sent (fr_conn s1) = sent (fr_conn s) @ out"
    "reads_back read_chunk r out ds r'" "concat ds = down_data es" by auto
  then obtain r2 cn where "read_chunk d' (fr_conn s1) = (Done (None, r2), cn)" "sent cn = sent (fr_conn s1)"
    using ends by blast
  then have "framed_run read_chunk write_chunk finish c (es @ FUp True # later) s =
      (Some (Inr ()), s1\<lparr>fr_conn := cn, fr_dec := r2\<rparr>)" and "sent cn = sent (fr_conn s) @ out"
    using s1 by (simp_all add: framed_run_append framed_up_def)
  then show ?thesis using s1
    by (intro exI [of _ "s1\<lparr>fr_conn := cn, fr_dec := r2\<rparr>"] exI [of _ out] exI [of _ ds] exI [of _ r']) (simp add: relayed_def)
qed

end

end
