(* ===== verification/Shadowsocks.thy ===== *)
theory Shadowsocks
  imports Crypto Framed
begin

text \<open>
  proxy/src/shadowsocks.rs, the TCP side: users, the AEAD chunk codec and the inbound handler. Random
  bytes (the server's salt) are arguments. The codec interprets the contract \<open>chunk_codec\<close>, so the
  relay theorem of Framed applies to it.
\<close>

section \<open>Methods and users\<close>

definition SUBKEY_INFO :: bytes where "SUBKEY_INFO = bytes_of_string ''ss-subkey''"

definition MAX_CHUNK :: nat where "MAX_CHUNK = 0x3FFF"

definition method_kind :: "string \<Rightarrow> aead_kind option" where
  "method_kind name =
     (if name = ''aes-128-gcm'' \<or> name = ''AEAD_AES_128_GCM'' then Some Aes128Gcm
      else if name = ''aes-256-gcm'' \<or> name = ''AEAD_AES_256_GCM'' then Some Aes256Gcm
      else if name = ''chacha20-ietf-poly1305'' \<or> name = ''chacha20-poly1305'' \<or> name = ''AEAD_CHACHA20_POLY1305''
        then Some ChaCha20Poly1305
      else if name = ''xchacha20-ietf-poly1305'' \<or> name = ''xchacha20-poly1305'' then Some XChaCha20Poly1305
      else None)"

record ss_user =
  su_master :: bytes
  su_email :: string
  su_level :: u32

record shadowsocks =
  ss_kind :: aead_kind
  ss_users :: "ss_user list"

definition build_ss_users :: "crypto_lib \<Rightarrow> aead_kind \<Rightarrow> (string \<times> string \<times> u32) list \<Rightarrow> ss_user list" where
  "build_ss_users L kd us =
     map (\<lambda>(pw, email, lvl). \<lparr>su_master = evp_bytes_to_key (lib_md5 L) (bytes_of_string pw) (key_size kd),
                              su_email = email, su_level = lvl\<rparr>) us"

definition shadowsocks_new :: "crypto_lib \<Rightarrow> aead_kind \<Rightarrow> (string \<times> string \<times> u32) list \<Rightarrow> shadowsocks" where
  "shadowsocks_new L kd us = \<lparr>ss_kind = kd, ss_users = build_ss_users L kd us\<rparr>"

definition ss_set_users :: "crypto_lib \<Rightarrow> (string \<times> string \<times> u32) list \<Rightarrow> shadowsocks \<Rightarrow> shadowsocks" where
  "ss_set_users L us s = s\<lparr>ss_users := build_ss_users L (ss_kind s) us\<rparr>"

section \<open>The chunk codec\<close>

record ss_chunks =
  sc_aead :: aead
  sc_nonce :: nonce_ctr

definition chunk_len :: "bytes \<Rightarrow> nat io_result" where
  "chunk_len lenpt = (case lenpt of
     hi # lo # _ \<Rightarrow> Inr (unat hi * 256 + unat lo)
   | _ \<Rightarrow> Inl (IoMsg InvalidData ''len''))"

definition ss_open :: "crypto_lib \<Rightarrow> ss_chunks \<Rightarrow> bytes \<Rightarrow> bytes io_result" where
  "ss_open L s ct = map_err (IoWrap InvalidData) (aead_open L (sc_aead s) (nonce_bytes (sc_nonce s)) ct)"

definition ss_seal :: "crypto_lib \<Rightarrow> ss_chunks \<Rightarrow> bytes \<Rightarrow> bytes io_result" where
  "ss_seal L s pt = map_err (IoWrap KindOther) (aead_seal L (sc_aead s) (nonce_bytes (sc_nonce s)) pt)"

definition ss_advance :: "ss_chunks \<Rightarrow> ss_chunks" where
  "ss_advance s = s\<lparr>sc_nonce := nonce_inc (sc_nonce s)\<rparr>"

definition ss_read_payload :: "crypto_lib \<Rightarrow> ss_chunks \<Rightarrow> bytes \<Rightarrow> (bytes \<times> ss_chunks) io" where
  "ss_read_payload L s lenpt =
     io_bind (io_lift (chunk_len lenpt)) (\<lambda>len.
     io_bind (io_read (len + TAG)) (\<lambda>payct.
     io_bind (io_lift (ss_open L s payct)) (\<lambda>pay.
     io_return (pay, ss_advance s))))"

definition ss_read_chunk :: "crypto_lib \<Rightarrow> ss_chunks \<Rightarrow> (bytes option \<times> ss_chunks) io" where
  "ss_read_chunk L s =
     io_bind (io_read_or_eof (2 + TAG)) (\<lambda>r. case r of
       None \<Rightarrow> io_return (None, s)
     | Some lenct \<Rightarrow>
         io_bind (io_lift (ss_open L s lenct)) (\<lambda>lenpt.
         io_bind (ss_read_payload L (ss_advance s) lenpt) (\<lambda>(pay, s'). io_return (Some pay, s'))))"

text \<open>\<open>slice::chunks\<close>.\<close>

function chunks :: "nat \<Rightarrow> 'a list \<Rightarrow> 'a list list" where
  "chunks n xs = (if xs = [] \<or> n = 0 then [] else take n xs # chunks n (drop n xs))"
  by pat_completeness auto
termination
  by (relation "measure (\<lambda>(_, xs). length xs)") auto

declare chunks.simps [simp del]

fun ss_write_pieces :: "crypto_lib \<Rightarrow> ss_chunks \<Rightarrow> bytes list \<Rightarrow> ss_chunks io" where
  "ss_write_pieces L s [] = io_return s"
| "ss_write_pieces L s (piece # ps) =
     (let len = (if length piece \<le> 65535 then word_of_nat (length piece) else 0) :: u16 in
      io_bind (io_lift (ss_seal L s (be16 len))) (\<lambda>lenct.
      io_bind (io_lift (ss_seal L (ss_advance s) piece)) (\<lambda>payct.
      io_bind (io_write (lenct @ payct)) (\<lambda>_.
      ss_write_pieces L (ss_advance (ss_advance s)) ps))))"

definition ss_write_chunks :: "crypto_lib \<Rightarrow> ss_chunks \<Rightarrow> bytes \<Rightarrow> ss_chunks io" where
  "ss_write_chunks L s data = ss_write_pieces L s (chunks MAX_CHUNK data)"

text \<open>The default \<open>finish\<close> of \<open>ChunkWrite\<close>: nothing is written, the connection just closes.\<close>

definition ss_finish :: "ss_chunks \<Rightarrow> ss_chunks io" where
  "ss_finish s = io_return s"

section \<open>The handler\<close>

definition ss_subkey :: "crypto_lib \<Rightarrow> aead_kind \<Rightarrow> bytes \<Rightarrow> bytes \<Rightarrow> aead result" where
  "ss_subkey L kd master salt =
     rbind (hkdf_sha1 L master salt SUBKEY_INFO (key_size kd)) (\<lambda>subkey. aead_new kd subkey)"

definition ss_start :: "aead_kind \<Rightarrow> aead \<Rightarrow> ss_chunks" where
  "ss_start kd a = \<lparr>sc_aead = a, sc_nonce = nonce_new (nonce_size kd)\<rparr>"

text \<open>Trial decryption of the first length chunk: the first user whose subkey opens it.\<close>

fun ss_match :: "crypto_lib \<Rightarrow> aead_kind \<Rightarrow> bytes \<Rightarrow> bytes \<Rightarrow> ss_user list \<Rightarrow> (ss_user \<times> ss_chunks \<times> bytes) option" where
  "ss_match L kd salt lenct [] = None"
| "ss_match L kd salt lenct (user # us) =
     (case ss_subkey L kd (su_master user) salt of
        Inl _ \<Rightarrow> ss_match L kd salt lenct us
      | Inr a \<Rightarrow>
          (case aead_open L a (nonce_bytes (nonce_new (nonce_size kd))) lenct of
             Inr lenpt \<Rightarrow> Some (user, ss_advance (ss_start kd a), lenpt)
           | Inl _ \<Rightarrow> ss_match L kd salt lenct us))"

definition ss_accept ::
  "crypto_lib \<Rightarrow> aead_kind \<Rightarrow> ss_user \<Rightarrow> bytes \<Rightarrow> ss_chunks \<Rightarrow> bytes \<Rightarrow> ctx \<Rightarrow> nat option \<Rightarrow>
   (proxy_decision \<times> ss_chunks \<times> ss_chunks) io" where
  "ss_accept L kd user ssalt s lenpt cx counter =
     io_bind (ss_read_payload L s lenpt) (\<lambda>(plain, s').
     io_bind (io_lift (map_err (IoWrap InvalidData) (codec_read SHADOWSOCKS plain))) (\<lambda>((a, p), leftover).
     io_bind (io_write ssalt) (\<lambda>_.
     io_bind (io_lift (map_err (IoWrap KindOther) (ss_subkey L kd (su_master user) ssalt))) (\<lambda>da.
     io_return (\<lparr>pd_target = dest_tcp a p, pd_ctx = cx, pd_link = RelayFramed counter leftover\<rparr>, s', ss_start kd da)))))"

definition ss_decode ::
  "crypto_lib \<Rightarrow> shadowsocks \<Rightarrow> bytes \<Rightarrow> stats option \<Rightarrow> ctx \<Rightarrow> conn \<Rightarrow>
   (proxy_decision \<times> ss_chunks \<times> ss_chunks) outcome \<times> conn \<times> stats option" where
  "ss_decode L ss ssalt st cx c =
     (case io_timeout ''handshake timeout''
             (io_bind (io_read (key_size (ss_kind ss))) (\<lambda>salt.
              io_bind (io_read (2 + TAG)) (\<lambda>lenct. io_return (salt, lenct)))) c of
        (Blocked, c1) \<Rightarrow> (Blocked, c1, st)
      | (Fail e, c1) \<Rightarrow> (Fail e, c1, st)
      | (Done (salt, lenct), c1) \<Rightarrow>
          (case ss_match L (ss_kind ss) salt lenct (ss_users ss) of
             None \<Rightarrow> (Fail (IoMsg InvalidData ''ss auth failed''), c1, st)
           | Some (user, s, lenpt) \<Rightarrow>
               (let cx' = with_user cx (su_email user) (user_hash (bytes_of_string (su_email user))) in
                case user_counter cx' st of (counter, st') \<Rightarrow>
                  (case ss_accept L (ss_kind ss) user ssalt s lenpt cx' counter c1 of (r, c2) \<Rightarrow> (r, c2, st')))))"

section \<open>Lemmas on the codec\<close>

lemma chunks_Nil [simp]: "chunks n [] = []"
  by (simp add: chunks.simps)

lemma concat_chunks: "0 < n \<Longrightarrow> concat (chunks n xs) = xs"
proof (induction n xs rule: chunks.induct)
  case (1 n xs)
  then show ?case by (cases "xs = []") (simp_all add: chunks.simps [of n xs])
qed

lemma chunks_bounds: "p \<in> set (chunks n xs) \<Longrightarrow> p \<noteq> [] \<and> length p \<le> n"
proof (induction n xs rule: chunks.induct)
  case (1 n xs)
  then show ?case by (cases "xs = [] \<or> n = 0") (auto simp: chunks.simps [of n xs])
qed

lemma delivers_nothing: "delivers_then c [] evs \<Longrightarrow> reads c = evs"
proof -
  assume "delivers_then c [] evs"
  then obtain ds where ds: "reads c = map ROk ds @ evs" "[] \<notin> set ds" "concat ds = []" by (auto simp: delivers_then_def)
  then have "ds = []" by (cases ds) auto
  then show ?thesis using ds by simp
qed

definition ss_ok :: "crypto_lib \<Rightarrow> ss_chunks \<Rightarrow> bool" where
  "ss_ok L s \<longleftrightarrow> aead_laws L \<and> length (ad_key (sc_aead s)) = key_size (ad_kind (sc_aead s)) \<and>
     nonce_ok (sc_nonce s) \<and> nc_size (sc_nonce s) = nonce_size (ad_kind (sc_aead s))"

definition ss_in_step :: "crypto_lib \<Rightarrow> ss_chunks \<Rightarrow> ss_chunks \<Rightarrow> bool" where
  "ss_in_step L w r \<longleftrightarrow> ss_ok L w \<and> r = w"

lemma ss_advance_ok [simp]: "ss_ok L s \<Longrightarrow> ss_ok L (ss_advance s)"
  by (simp add: ss_ok_def ss_advance_def)

lemma ss_seal_open:
  assumes "ss_ok L s" and "length p \<le> 65535"
  obtains c where "ss_seal L s p = Inr c" "length c = length p + TAG" "ss_open L s c = Inr p"
    "aead_open L (sc_aead s) (nonce_bytes (sc_nonce s)) c = Inr p"
proof -
  have n: "length (nonce_bytes (sc_nonce s)) = nonce_size (ad_kind (sc_aead s))"
    using assms(1) length_nonce_bytes by (auto simp: ss_ok_def)
  obtain c where "aead_seal L (sc_aead s) (nonce_bytes (sc_nonce s)) p = Inr c" "length c = length p + TAG"
    "aead_open L (sc_aead s) (nonce_bytes (sc_nonce s)) c = Inr p"
    using assms n by (auto simp: ss_ok_def elim: aead_seal_open)
  then show thesis by (intro that) (simp_all add: ss_seal_def ss_open_def map_err_def)
qed

lemma chunk_len_be16: "length p \<le> 65535 \<Longrightarrow> chunk_len (be16 (word_of_nat (length p))) = Inr (length p)"
proof -
  assume p: "length p \<le> 65535"
  obtain hi lo where b: "be16 (word_of_nat (length p)) = [hi, lo]"
    by (simp add: be16_def numeral_2_eq_2)
  have "be_nat [hi, lo] = length p"
    using p by (simp add: b [symmetric] be16_def be_nat_be_bytes unat_of_nat)
  moreover have "be_nat [hi, lo] = unat hi * 256 + unat lo" by (simp add: be_nat_def)
  ultimately show ?thesis by (simp add: chunk_len_def b)
qed

lemma runs_lift: "r = Inr x \<Longrightarrow> runs (io_lift r) b x [] b"
  by (simp add: runs_return)

lemma runs_read_payload:
  assumes "ss_ok L s" and "length p \<le> 65535" and "ss_seal L s p = Inr ct"
  shows "runs (ss_read_payload L s (be16 (word_of_nat (length p)))) (ct @ rest) (p, ss_advance s) [] rest"
proof -
  obtain c where c: "ss_seal L s p = Inr c" "length c = length p + TAG" "ss_open L s c = Inr p"
    using ss_seal_open [OF assms(1,2)] by blast
  show ?thesis unfolding ss_read_payload_def
    apply (rule runs_bind_silent [OF runs_lift [OF chunk_len_be16 [OF assms(2)]]])
    apply (rule runs_bind_silent [OF runs_read])
    using c assms(3) apply simp
    apply (rule runs_bind_silent [OF runs_lift])
    using c assms(3) apply simp
    by (rule runs_return)
qed

lemma ss_piece:
  assumes "ss_ok L s" and "length piece \<le> 65535"
  shows "\<exists>lenct payct. ss_seal L s (be16 (word_of_nat (length piece))) = Inr lenct \<and>
    ss_seal L (ss_advance s) piece = Inr payct \<and>
    (\<forall>rest. runs (ss_read_chunk L s) ((lenct @ payct) @ rest) (Some piece, ss_advance (ss_advance s)) [] rest)"
proof -
  obtain lenct where l: "ss_seal L s (be16 (word_of_nat (length piece))) = Inr lenct" "length lenct = 2 + TAG"
    "ss_open L s lenct = Inr (be16 (word_of_nat (length piece)))"
    using ss_seal_open [OF assms(1), of "be16 (word_of_nat (length piece))"] by auto
  obtain payct where p: "ss_seal L (ss_advance s) piece = Inr payct"
    using ss_seal_open [OF ss_advance_ok [OF assms(1)] assms(2)] by blast
  have "runs (ss_read_chunk L s) ((lenct @ payct) @ rest) (Some piece, ss_advance (ss_advance s)) [] rest" for rest
    unfolding ss_read_chunk_def append_assoc
    apply (rule runs_bind_silent [OF runs_read_or_eof [OF l(2)]])
    apply simp
    apply (rule runs_bind_silent [OF runs_lift [OF l(3)]])
    apply (rule runs_bind_silent [OF runs_read_payload [OF ss_advance_ok [OF assms(1)] assms(2) p]])
    by (simp add: runs_return)
  then show ?thesis using l p by blast
qed

lemma ss_pieces:
  assumes "ss_ok L s" and "\<And>p. p \<in> set ps \<Longrightarrow> length p \<le> 65535"
  shows "\<exists>s' out. sends (ss_write_pieces L s ps) out s' \<and> reads_back (ss_read_chunk L) s out ps s' \<and> ss_ok L s'"
  using assms
proof (induction ps arbitrary: s)
  case Nil
  then show ?case by (intro exI [of _ s] exI [of _ "[]"]) (simp add: sends_def runs_return)
next
  case (Cons p ps)
  have p: "length p \<le> 65535" using Cons.prems(2) by simp
  from ss_piece [OF Cons.prems(1) p] obtain lenct payct where
    c: "ss_seal L s (be16 (word_of_nat (length p))) = Inr lenct" "ss_seal L (ss_advance s) p = Inr payct"
    "\<forall>rest. runs (ss_read_chunk L s) ((lenct @ payct) @ rest) (Some p, ss_advance (ss_advance s)) [] rest" by blast
  obtain s' out where t: "sends (ss_write_pieces L (ss_advance (ss_advance s)) ps) out s'"
    "reads_back (ss_read_chunk L) (ss_advance (ss_advance s)) out ps s'" "ss_ok L s'"
    using Cons.IH [OF ss_advance_ok [OF ss_advance_ok [OF Cons.prems(1)]]] Cons.prems(2) by auto
  have "runs (ss_write_pieces L s (p # ps)) b s' ((lenct @ payct) @ out) b" for b
  proof -
    have "ss_write_pieces L s (p # ps) =
        io_bind (io_write (lenct @ payct)) (\<lambda>_. ss_write_pieces L (ss_advance (ss_advance s)) ps)"
      using p c(1,2) by (simp add: Let_def io_bind_def io_return_def)
    then show ?thesis using runs_then [OF runs_write, of _ b s' out b "lenct @ payct"] t(1) by (simp add: sends_def)
  qed
  then have "sends (ss_write_pieces L s (p # ps)) ((lenct @ payct) @ out) s'" by (simp add: sends_def)
  moreover have "reads_back (ss_read_chunk L) s ((lenct @ payct) @ out) (p # ps) s'"
    using t(2) c(3) unfolding reads_back.simps by blast
  ultimately show ?case using t(3) by blast
qed

interpretation ss: chunk_codec "ss_read_chunk L" "ss_write_chunks L" ss_finish "ss_in_step L" for L
proof unfold_locales
  fix w r and d :: bytes assume "ss_in_step L w r"
  then have ok: "ss_ok L w" "r = w" by (simp_all add: ss_in_step_def)
  have small: "length p \<le> 65535" if "p \<in> set (chunks MAX_CHUNK d)" for p
    using chunks_bounds [OF that] by (simp add: MAX_CHUNK_def)
  have d: "concat (chunks MAX_CHUNK d) = d" "[] \<notin> set (chunks MAX_CHUNK d)"
    using concat_chunks [of MAX_CHUNK d] chunks_bounds [of "[]" MAX_CHUNK d] by (auto simp: MAX_CHUNK_def)
  from ss_pieces [OF ok(1) small] show "\<exists>w' r' out ds. sends (ss_write_chunks L w d) out w' \<and>
      reads_back (ss_read_chunk L) r out ds r' \<and> concat ds = d \<and> [] \<notin> set ds \<and> ss_in_step L w' r'"
    using ok(2) d unfolding ss_write_chunks_def ss_in_step_def by blast
next
  fix w r assume "ss_in_step L w r"
  have "ss_read_chunk L r c = (Done (None, r), c\<lparr>reads := evs\<rparr>)" if "delivers_then c [] (ROk [] # evs)" for c evs
  proof -
    have "reads c = ROk [] # evs" using that by (rule delivers_nothing)
    then show ?thesis by (simp add: ss_read_chunk_def io_bind_def read_or_eof_eof TAG_def io_return_def)
  qed
  then show "\<exists>w' out. sends (ss_finish w) out w' \<and>
      (\<forall>c evs. delivers_then c out (ROk [] # evs) \<longrightarrow> write_outcomes c = [] \<longrightarrow>
        (\<exists>r' c'. ss_read_chunk L r c = (Done (None, r'), c') \<and> sent c' = sent c))"
    by (intro exI [of _ w] exI [of _ "[]"]) (simp add: ss_finish_def sends_return)
qed

section \<open>Properties\<close>

text \<open>
  C21: A Shadowsocks relay carries both directions of a flow, for every interleaving of them. When the
  client has written the messages \<open>ms\<close> and closed, the link receives the payload that came with the
  header followed by exactly the bytes of \<open>ms\<close>, the client can decrypt exactly the bytes the link gave
  before the client's end of stream was seen, and the counter grows by these amounts. The payload that came
  with the header is not counted, and what the link gives after the client's end of stream (\<open>later\<close>)
  never reaches the client.
\<close>

theorem ss_relay_transfers:
  assumes "ss_ok L (fr_dec s)" and "ss_ok L (fr_enc s)" and "writes_as (ss_write_chunks L) (fr_dec s) ms wire w1"
    and "delivers_then (fr_conn s) wire (ROk [] # evs)" and "write_outcomes (fr_conn s) = []"
    and "tally_valid c (fr_stats s)"
  shows "\<exists>us. concat us = concat ms \<and> (\<forall>es later. transfers es \<longrightarrow> up_turns es = length us \<longrightarrow>
    (\<exists>s' out ds r'. relay_framed (ss_read_chunk L) (ss_write_chunks L) ss_finish c leftover True (es @ FUp True # later) s
         = (Some (Inr ()), s') \<and>
       concat (fr_link s') = concat (fr_link s) @ leftover @ concat ms \<and>
       sent (fr_conn s') = sent (fr_conn s) @ out \<and>
       reads_back (ss_read_chunk L) (fr_enc s) out ds r' \<and> concat ds = down_data es \<and>
       tally c (fr_stats s') = map_option (\<lambda>(u, d). (u + word_of_nat (length (concat ms)),
          d + word_of_nat (length (down_data es)))) (tally c (fr_stats s))))"
proof -
  define s0 where "s0 = (if leftover = [] then s else s\<lparr>fr_link := fr_link s @ [leftover]\<rparr>)"
  have s0: "fr_dec s0 = fr_dec s" "fr_enc s0 = fr_enc s" "fr_conn s0 = fr_conn s" "fr_stats s0 = fr_stats s"
    "concat (fr_link s0) = concat (fr_link s) @ leftover"
    by (simp_all add: s0_def)
  have start: "relay_framed rd wr fin c leftover True es s = framed_run rd wr fin c es s0" for rd wr fin es
    by (simp add: relay_framed_def s0_def)
  have fin: "sends (ss_finish w1) [] w1" by (simp add: ss_finish_def sends_def runs_return)
  have step: "ss_in_step L (fr_dec s) (fr_dec s0)" "ss_in_step L (fr_enc s0) (fr_enc s)"
    using assms(1,2) s0 by (simp_all add: ss_in_step_def)
  from ss.client_wire [OF step(1) assms(3) fin] obtain us d' where us: "concat us = concat ms" "[] \<notin> set us"
    "reads_back (ss_read_chunk L) (fr_dec s0) wire us d'"
    "\<forall>c evs. delivers_then c [] (ROk [] # evs) \<longrightarrow> write_outcomes c = [] \<longrightarrow>
      (\<exists>r' c'. ss_read_chunk L d' c = (Done (None, r'), c') \<and> sent c' = sent c)" by blast
  have d: "delivers_then (fr_conn s0) (wire @ []) (ROk [] # evs)" "write_outcomes (fr_conn s0) = []" "tally_valid c (fr_stats s0)"
    using assms(4,5,6) s0 by simp_all
  show ?thesis
  proof (intro exI [of _ us] conjI allI impI us(1))
    fix es later assume "transfers es" "up_turns es = length us"
    with ss.framed_relay [OF us(3,2,4) step(2) d] obtain s' out ds r' where
      r: "framed_run (ss_read_chunk L) (ss_write_chunks L) ss_finish c (es @ FUp True # later) s0 = (Some (Inr ()), s')"
      "relayed c s0 us (down_data es) s'" "sent (fr_conn s') = sent (fr_conn s0) @ out"
      "reads_back (ss_read_chunk L) (fr_enc s) out ds r'" "concat ds = down_data es" by blast
    then show "\<exists>s' out ds r'. relay_framed (ss_read_chunk L) (ss_write_chunks L) ss_finish c leftover True
          (es @ FUp True # later) s = (Some (Inr ()), s') \<and>
       concat (fr_link s') = concat (fr_link s) @ leftover @ concat ms \<and>
       sent (fr_conn s') = sent (fr_conn s) @ out \<and>
       reads_back (ss_read_chunk L) (fr_enc s) out ds r' \<and> concat ds = down_data es \<and>
       tally c (fr_stats s') = map_option (\<lambda>(u, d). (u + word_of_nat (length (concat ms)),
          d + word_of_nat (length (down_data es)))) (tally c (fr_stats s))"
      using us(1) s0 unfolding start
      by (intro exI [of _ s'] exI [of _ out] exI [of _ ds] exI [of _ r']) (simp add: relayed_def)
  qed
qed

definition sample_chunks :: ss_chunks where
  "sample_chunks = ss_start Aes128Gcm \<lparr>ad_kind = Aes128Gcm, ad_key = replicate 16 0\<rparr>"

definition sample_framed :: "bytes \<Rightarrow> (ss_chunks, ss_chunks) framed" where
  "sample_framed wire = \<lparr>fr_conn = empty_conn ((if wire = [] then [] else [ROk wire]) @ [ROk []]), fr_dec = sample_chunks,
     fr_enc = sample_chunks, fr_link = [], fr_stats = stats_new\<rparr>"

lemma sample_chunks_ok: "ss_ok sample_lib sample_chunks"
  by (simp add: ss_ok_def sample_lib_laws sample_chunks_def ss_start_def key_size_def nonce_size_def)
     (simp add: nonce_new_def)

lemma ss_relay_transfers_witness:
  "\<exists>wire us. concat us = ([1, 2] :: bytes) \<and> (\<forall>es later. transfers es \<longrightarrow> up_turns es = length us \<longrightarrow>
    (\<exists>s'. relay_framed (ss_read_chunk sample_lib) (ss_write_chunks sample_lib) ss_finish None [9] True
       (es @ FUp True # later) (sample_framed wire) = (Some (Inr ()), s') \<and> concat (fr_link s') = [9, 1, 2]))"
proof -
  have "ss_in_step sample_lib sample_chunks sample_chunks" using sample_chunks_ok by (simp add: ss_in_step_def)
  from ss.writes_read [OF this, of "[[1, 2]]"] obtain wire w1 where
    w: "writes_as (ss_write_chunks sample_lib) sample_chunks [[1, 2]] wire w1" by blast
  have d: "delivers_then (fr_conn (sample_framed wire)) wire (ROk [] # [])"
    by (auto simp: delivers_then_def sample_framed_def empty_conn_def intro!: exI [of _ "if wire = [] then [] else [wire]"])
  have f: "fr_dec (sample_framed wire) = sample_chunks" "fr_enc (sample_framed wire) = sample_chunks"
    "write_outcomes (fr_conn (sample_framed wire)) = []" "fr_link (sample_framed wire) = []"
    by (simp_all add: sample_framed_def empty_conn_def)
  have "tally_valid None (fr_stats (sample_framed wire))" by (simp add: tally_valid_def)
  from ss_relay_transfers [of sample_lib "sample_framed wire" "[[1, 2]]" wire w1 "[]" None "[9]", unfolded f,
      OF sample_chunks_ok sample_chunks_ok w d refl this]
  obtain us where us: "concat us = concat [[1, 2 :: byte]]" "\<forall>es later. transfers es \<longrightarrow> up_turns es = length us \<longrightarrow>
    (\<exists>s'. relay_framed (ss_read_chunk sample_lib) (ss_write_chunks sample_lib) ss_finish None [9] True
       (es @ FUp True # later) (sample_framed wire) = (Some (Inr ()), s') \<and>
       concat (fr_link s') = concat [] @ [9] @ concat [[1, 2]])" by blast
  then show ?thesis by (intro exI [of _ wire] exI [of _ us]) simp
qed

end
