(* ===== verification/OutboundProxy.thy ===== *)
theory OutboundProxy
  imports Shadowsocks Socks
begin

text \<open>
  proxy/src/outbound.rs: the concrete outbounds. \<open>process\<close> runs up to the copy loop (dialing and the
  handshake with an upstream proxy); the loops are \<open>splice\<close> of Copy and \<open>ss_out_run\<close>. The dialer is an
  argument that gives the connection or an error; random salts are arguments.
\<close>

section \<open>The Shadowsocks client codec\<close>

definition SS_MAX_CHUNK :: nat where "SS_MAX_CHUNK = 0x3FFF"

definition ss_chunk_len :: "bytes \<Rightarrow> nat io_result" where
  "ss_chunk_len lenpt = (case lenpt of
     hi # lo # _ \<Rightarrow>
       (let len = unat hi * 256 + unat lo in
        if SS_MAX_CHUNK < len then Inl (IoMsg InvalidData ''shadowsocks chunk too large'') else Inr len)
   | _ \<Rightarrow> Inl (IoMsg InvalidData ''shadowsocks chunk length''))"

definition out_open :: "crypto_lib \<Rightarrow> ss_chunks \<Rightarrow> bytes \<Rightarrow> bytes io_result" where
  "out_open L s ct = map_err io_from_error (aead_open L (sc_aead s) (nonce_bytes (sc_nonce s)) ct)"

definition out_seal :: "crypto_lib \<Rightarrow> ss_chunks \<Rightarrow> bytes \<Rightarrow> bytes io_result" where
  "out_seal L s pt = map_err io_from_error (aead_seal L (sc_aead s) (nonce_bytes (sc_nonce s)) pt)"

definition out_read_chunk :: "crypto_lib \<Rightarrow> ss_chunks \<Rightarrow> (bytes option \<times> ss_chunks) io" where
  "out_read_chunk L s =
     io_bind (io_read_or_eof (2 + TAG)) (\<lambda>r. case r of
       None \<Rightarrow> io_return (None, s)
     | Some lenct \<Rightarrow>
         io_bind (io_lift (out_open L s lenct)) (\<lambda>lenpt.
         io_bind (io_lift (ss_chunk_len lenpt)) (\<lambda>len.
         io_bind (io_read (len + TAG)) (\<lambda>payct.
         io_bind (io_lift (out_open L (ss_advance s) payct)) (\<lambda>pay.
         io_return (Some pay, ss_advance (ss_advance s)))))))"

fun out_write_pieces :: "crypto_lib \<Rightarrow> ss_chunks \<Rightarrow> bytes list \<Rightarrow> ss_chunks io" where
  "out_write_pieces L s [] = io_return s"
| "out_write_pieces L s (piece # ps) =
     (if 65535 < length piece then io_fail (IoMsg InvalidInput ''shadowsocks chunk too large'')
      else
      io_bind (io_lift (out_seal L s (be16 (word_of_nat (length piece))))) (\<lambda>lenct.
      io_bind (io_lift (out_seal L (ss_advance s) piece)) (\<lambda>payct.
      io_bind (io_write (lenct @ payct)) (\<lambda>_.
      out_write_pieces L (ss_advance (ss_advance s)) ps))))"

definition out_write_chunks :: "crypto_lib \<Rightarrow> ss_chunks \<Rightarrow> bytes \<Rightarrow> ss_chunks io" where
  "out_write_chunks L s data = out_write_pieces L s (chunks SS_MAX_CHUNK data)"

section \<open>The Shadowsocks outbound\<close>

record ss_outbound =
  sob_server :: destination
  sob_kind :: aead_kind
  sob_master :: bytes

definition ss_outbound_new :: "crypto_lib \<Rightarrow> address \<Rightarrow> u16 \<Rightarrow> string \<Rightarrow> string \<Rightarrow> string + ss_outbound" where
  "ss_outbound_new L server p password cipher =
     rbind (ok_or (method_kind cipher) ''unsupported shadowsocks cipher'') (\<lambda>kd.
     Inr \<lparr>sob_server = dest_tcp server p, sob_kind = kd,
          sob_master = evp_bytes_to_key (lib_md5 L) (bytes_of_string password) (key_size kd)\<rparr>)"

definition ss_subkey_out :: "crypto_lib \<Rightarrow> ss_outbound \<Rightarrow> bytes \<Rightarrow> ss_chunks io_result" where
  "ss_subkey_out L ob salt =
     map_err io_from_error
       (rbind (hkdf_sha1 L (sob_master ob) salt SUBKEY_INFO (key_size (sob_kind ob))) (\<lambda>subkey.
        rbind (aead_new (sob_kind ob) subkey) (\<lambda>a. Inr (ss_start (sob_kind ob) a))))"

text \<open>The uplink's start: the salt, then the target's address as the first chunk.\<close>

definition ss_out_hello :: "crypto_lib \<Rightarrow> ss_outbound \<Rightarrow> bytes \<Rightarrow> destination \<Rightarrow> ss_chunks io" where
  "ss_out_hello L ob salt tgt =
     io_bind (io_write salt) (\<lambda>_.
     io_bind (io_lift (ss_subkey_out L ob salt)) (\<lambda>s.
     io_bind (io_lift (map_err io_from_error (codec_write SHADOWSOCKS [] (address tgt) (port tgt)))) (\<lambda>first.
     out_write_chunks L s first)))"

text \<open>The downlink's start: the server's salt.\<close>

definition ss_out_salt :: "crypto_lib \<Rightarrow> ss_outbound \<Rightarrow> ss_chunks io" where
  "ss_out_salt L ob =
     io_bind (io_read (key_size (sob_kind ob))) (\<lambda>salt. io_lift (ss_subkey_out L ob salt))"

text \<open>
  The copy loop: a chunk of the link goes up, the end of the link ends it, and a downlink turn reads the
  salt or, after it, one chunk (with whether the link still takes it).
\<close>

datatype ss_out_event = OIdle | OUp bytes | OUpEof | ODown bool

record ss_out =
  so_conn :: conn
  so_enc :: ss_chunks
  so_dec :: "ss_chunks option"
  so_link :: "bytes list"

definition ss_out_step :: "crypto_lib \<Rightarrow> ss_outbound \<Rightarrow> ss_out_event \<Rightarrow> ss_out \<Rightarrow> unit io_result option \<times> ss_out" where
  "ss_out_step L ob ev s = (case ev of
     OIdle \<Rightarrow> (Some (Inl (IoMsg TimedOut ''idle'')), s)
   | OUp data \<Rightarrow> (case out_write_chunks L (so_enc s) data (so_conn s) of
         (Blocked, c) \<Rightarrow> (None, s\<lparr>so_conn := c\<rparr>)
       | (Fail e, c) \<Rightarrow> (Some (Inl e), s\<lparr>so_conn := c\<rparr>)
       | (Done e, c) \<Rightarrow> (None, s\<lparr>so_conn := c, so_enc := e\<rparr>))
   | OUpEof \<Rightarrow> (Some (Inr ()), s)
   | ODown accepted \<Rightarrow> (case so_dec s of
         None \<Rightarrow> (case ss_out_salt L ob (so_conn s) of
             (Blocked, c) \<Rightarrow> (None, s\<lparr>so_conn := c\<rparr>)
           | (Fail e, c) \<Rightarrow> (Some (Inl e), s\<lparr>so_conn := c\<rparr>)
           | (Done d, c) \<Rightarrow> (None, s\<lparr>so_conn := c, so_dec := Some d\<rparr>))
       | Some d \<Rightarrow> (case out_read_chunk L d (so_conn s) of
             (Blocked, c) \<Rightarrow> (None, s\<lparr>so_conn := c\<rparr>)
           | (Fail e, c) \<Rightarrow> (Some (Inl e), s\<lparr>so_conn := c\<rparr>)
           | (Done (None, d'), c) \<Rightarrow> (Some (Inr ()), s\<lparr>so_conn := c, so_dec := Some d'\<rparr>)
           | (Done (Some data, d'), c) \<Rightarrow>
               (let s = s\<lparr>so_conn := c, so_dec := Some d'\<rparr> in
                if accepted then (None, s\<lparr>so_link := so_link s @ [data]\<rparr>) else (Some (Inr ()), s)))))"

fun ss_out_run :: "crypto_lib \<Rightarrow> ss_outbound \<Rightarrow> ss_out_event list \<Rightarrow> ss_out \<Rightarrow> unit io_result option \<times> ss_out" where
  "ss_out_run L ob [] s = (None, s)"
| "ss_out_run L ob (ev # evs) s = (case ss_out_step L ob ev s of
     (Some r, s') \<Rightarrow> (Some r, s') | (None, s') \<Rightarrow> ss_out_run L ob evs s')"

section \<open>The outbounds\<close>

record socks_outbound =
  kob_server :: destination
  kob_username :: string
  kob_password :: string

definition socks_outbound_new :: "address \<Rightarrow> u16 \<Rightarrow> string \<Rightarrow> string \<Rightarrow> socks_outbound" where
  "socks_outbound_new server p u pw = \<lparr>kob_server = dest_tcp server p, kob_username = u, kob_password = pw\<rparr>"

datatype outbound = Freedom | Blackhole | OShadowsocks ss_outbound | OSocks socks_outbound

text \<open>Where a flow stands when its copy loop starts: dropped, spliced with a stream, or framed.\<close>

datatype egress = EDrop | ESplice conn | EShadowsocks ss_outbound ss_out

type_synonym dialer = "destination \<Rightarrow> conn io_result"

definition process :: "crypto_lib \<Rightarrow> dialer \<Rightarrow> bytes \<Rightarrow> outbound \<Rightarrow> destination \<Rightarrow> egress outcome" where
  "process L dial salt ob tgt = (case ob of
     Freedom \<Rightarrow> if \<not> is_valid tgt then Done EDrop
       else (case dial tgt of Inl e \<Rightarrow> Fail e | Inr stream \<Rightarrow> Done (ESplice stream))
   | Blackhole \<Rightarrow> Done EDrop
   | OShadowsocks ss \<Rightarrow> (case dial (sob_server ss) of
         Inl e \<Rightarrow> Fail e
       | Inr stream \<Rightarrow> (case ss_out_hello L ss salt tgt stream of
           (Blocked, _) \<Rightarrow> Blocked | (Fail e, _) \<Rightarrow> Fail e
         | (Done s, c) \<Rightarrow> Done (EShadowsocks ss \<lparr>so_conn = c, so_enc = s, so_dec = None, so_link = []\<rparr>)))
   | OSocks so \<Rightarrow> (case dial (kob_server so) of
         Inl e \<Rightarrow> Fail e
       | Inr stream \<Rightarrow> (case socks5_handshake tgt (bytes_of_string (kob_username so)) (bytes_of_string (kob_password so)) stream of
           (Blocked, _) \<Rightarrow> Blocked | (Fail e, _) \<Rightarrow> Fail e
         | (Done _, c) \<Rightarrow> Done (ESplice c))))"

section \<open>Lemmas\<close>

definition hkdf_laws :: "crypto_lib \<Rightarrow> bool" where
  "hkdf_laws L \<longleftrightarrow> (\<forall>secret salt info n. n \<le> 64 \<longrightarrow> (\<exists>k. lib_hkdf_sha1 L secret salt info n = Some k \<and> length k = n))"

lemma sample_lib_hkdf: "hkdf_laws sample_lib"
  by (auto simp: hkdf_laws_def sample_lib_def min_def)

lemma key_size_small: "key_size k \<le> 64"
  by (simp add: key_size_def split: aead_kind.splits)

lemma subkey_ok:
  assumes "hkdf_laws L"
  obtains a where "ss_subkey L kd m salt = Inr a" "ad_kind a = kd" "length (ad_key a) = key_size kd"
proof -
  obtain k where "lib_hkdf_sha1 L m salt SUBKEY_INFO (key_size kd) = Some k" "length k = key_size kd"
    using assms key_size_small [of kd] unfolding hkdf_laws_def by blast
  then show thesis
    by (intro that [of "\<lparr>ad_kind = kd, ad_key = k\<rparr>"]) (simp_all add: ss_subkey_def hkdf_sha1_def aead_new_def rbind_def ok_or_def)
qed

lemma start_ok: "aead_laws L \<Longrightarrow> ad_kind a = kd \<Longrightarrow> length (ad_key a) = key_size kd \<Longrightarrow> ss_ok L (ss_start kd a)"
  by (simp add: ss_ok_def ss_start_def) (simp add: nonce_new_def nonce_size_def split: aead_kind.splits)

lemma subkey_out: "ss_subkey L (sob_kind ob) (sob_master ob) salt = Inr a \<Longrightarrow>
    ss_subkey_out L ob salt = Inr (ss_start (sob_kind ob) a)"
  by (auto simp: ss_subkey_def ss_subkey_out_def rbind_def map_err_def split: sum.splits)

text \<open>Without failures the client's codec writes what the server's codec writes.\<close>

lemma out_seal_ok: "ss_seal L s p = Inr c \<Longrightarrow> out_seal L s p = Inr c"
  by (auto simp: ss_seal_def out_seal_def map_err_def split: sum.splits)

lemma out_pieces_sends:
  assumes "sends (ss_write_pieces L s ps) out s'" and "ss_ok L s" and "\<And>p. p \<in> set ps \<Longrightarrow> length p \<le> 65535"
  shows "out_write_pieces L s ps = ss_write_pieces L s ps"
  using assms(2,3)
proof (induction ps arbitrary: s)
  case (Cons p ps)
  have p: "length p \<le> 65535" using Cons.prems(2) by simp
  from ss_piece [OF Cons.prems(1) p] obtain lenct payct where
    c: "ss_seal L s (be16 (word_of_nat (length p))) = Inr lenct" "ss_seal L (ss_advance s) p = Inr payct" by blast
  have "out_write_pieces L (ss_advance (ss_advance s)) ps = ss_write_pieces L (ss_advance (ss_advance s)) ps"
    using Cons.IH [OF ss_advance_ok [OF ss_advance_ok [OF Cons.prems(1)]]] Cons.prems(2) by simp
  then show ?case using p c out_seal_ok [OF c(1)] out_seal_ok [OF c(2)] by (simp add: Let_def)
qed simp

lemma chunks_single: "xs \<noteq> [] \<Longrightarrow> length xs \<le> n \<Longrightarrow> chunks n xs = [xs]"
  using chunks.simps [of n xs] by (cases n) auto

text \<open>The first chunk of a flow: the salt, and the sealed address.\<close>

definition ss_address :: "address \<Rightarrow> u16 \<Rightarrow> bytes" where
  "ss_address a p = addr_wire SHADOWSOCKS a @ be16 p"

lemma ss_address_codec:
  assumes "canonical_addr a"
  shows "codec_write SHADOWSOCKS [] a p = Inr (ss_address a p)" "codec_read SHADOWSOCKS (ss_address a p) = Inr ((a, p), [])"
    "ss_address a p \<noteq> []" "length (ss_address a p) \<le> 300"
  using assms codec_read_wire [OF assms, of SHADOWSOCKS p "[]"]
  by (auto simp: ss_address_def codec_write_wire SHADOWSOCKS_def TROJAN_def canonical_addr_def addr_wire_def
      split: address.splits ip_addr.splits)

lemma hello_sends:
  assumes "ss_subkey_out L ob salt = Inr s" and "ss_ok L s" and "canonical_addr a"
    and "ss_seal L s (be16 (word_of_nat (length (ss_address a p)))) = Inr lenct"
    and "ss_seal L (ss_advance s) (ss_address a p) = Inr payct"
  shows "sends (ss_out_hello L ob salt (dest_tcp a p)) (salt @ lenct @ payct) (ss_advance (ss_advance s))"
proof -
  note codec = ss_address_codec [OF assms(3), of p]
  have "out_write_chunks L s (ss_address a p) =
      io_bind (io_write (lenct @ payct)) (\<lambda>_. io_return (ss_advance (ss_advance s)))"
    using codec(3,4) out_seal_ok [OF assms(4)] out_seal_ok [OF assms(5)]
    by (simp add: out_write_chunks_def chunks_single SS_MAX_CHUNK_def io_bind_def io_return_def)
  then have "ss_out_hello L ob salt (dest_tcp a p) =
      io_bind (io_write salt) (\<lambda>_. io_bind (io_write (lenct @ payct)) (\<lambda>_. io_return (ss_advance (ss_advance s))))"
    using codec(1) assms(1) by (simp add: ss_out_hello_def dest_tcp_def map_err_def io_bind_def io_return_def)
  moreover have "runs (io_bind (io_write salt) (\<lambda>_. io_bind (io_write (lenct @ payct)) (\<lambda>_. io_return (ss_advance (ss_advance s)))))
      b (ss_advance (ss_advance s)) (salt @ (lenct @ payct) @ []) b" for b
    by (rule runs_then [OF runs_write runs_then [OF runs_write runs_return]])
  ultimately show ?thesis by (simp add: sends_def)
qed

lemma runs_accept:
  assumes "ss_ok L s" and "canonical_addr a" and "ss_seal L s (ss_address a p) = Inr payct"
    and "ss_subkey L kd (su_master user) ssalt = Inr da"
  shows "runs (ss_accept L kd user ssalt s (be16 (word_of_nat (length (ss_address a p)))) cx counter) (payct @ rest)
    (\<lparr>pd_target = dest_tcp a p, pd_ctx = cx, pd_link = RelayFramed counter []\<rparr>, ss_advance s, ss_start kd da) ssalt rest"
    (is "runs _ _ ?r _ _")
proof -
  note codec = ss_address_codec [OF assms(2), of p]
  have len: "length (ss_address a p) \<le> 65535" using codec(4) by simp
  have w: "runs (io_bind (io_write ssalt) (\<lambda>_. io_return ?r)) rest ?r ssalt rest"
    using runs_then [of "io_write ssalt" rest "()" ssalt rest "io_return ?r" ?r "[]" rest] runs_write runs_return by fastforce
  show ?thesis
    unfolding ss_accept_def
    by (rule runs_bind_silent [OF runs_read_payload [OF assms(1) len assms(3)]])
       (use w codec(2) assms(4) in \<open>simp add: map_err_def io_bind_def io_return_def\<close>)
qed

lemma match_after:
  "ss_match L kd salt lenct pre = None \<Longrightarrow> ss_match L kd salt lenct (pre @ us) = ss_match L kd salt lenct us"
  by (induction pre) (auto split: sum.splits)

section \<open>Properties\<close>

text \<open>
  C22: The Shadowsocks outbound and the Shadowsocks inbound understand each other. What the outbound
  writes to open a flow to an address is decoded by an inbound of the same method that knows the same
  master key, provided no earlier user's key opens the first chunk: the flow gets exactly that address
  and is attributed to that user, both uplink codecs are left in the same state, and from the salt the inbound
  answers with the outbound derives the inbound's downlink codec.
\<close>

theorem ss_interoperates:
  assumes "aead_laws L" and "hkdf_laws L" and "canonical_addr a"
    and "length salt = key_size (sob_kind ob)" and "length ssalt = key_size (sob_kind ob)"
    and "ss_kind ss = sob_kind ob" and "ss_users ss = pre @ user # post" and "su_master user = sob_master ob"
    and first: "\<And>wire s. sends (ss_out_hello L ob salt (dest_tcp a p)) wire s \<Longrightarrow>
      ss_match L (sob_kind ob) salt (take (2 + TAG) (drop (length salt) wire)) pre = None"
  shows "\<exists>wire up. sends (ss_out_hello L ob salt (dest_tcp a p)) wire up \<and> ss_ok L up \<and>
    (\<forall>c payload evs. delivers_then c (wire @ payload) evs \<longrightarrow> write_outcomes c = [] \<longrightarrow>
      (\<exists>c' counter st' down. ss_decode L ss ssalt st cx c =
           (Done (\<lparr>pd_target = dest_tcp a p, pd_ctx = with_user cx (su_email user) (user_hash (bytes_of_string (su_email user))),
                   pd_link = RelayFramed counter []\<rparr>, up, down), c', st') \<and>
         sent c' = sent c @ ssalt \<and> delivers_then c' payload evs \<and> ss_ok L down \<and>
         (\<forall>rest. runs (ss_out_salt L ob) (ssalt @ rest) down [] rest)))"
proof -
  let ?k = "sob_kind ob" and ?m = "sob_master ob" and ?a = "ss_address a p"
  obtain ka where ka: "ss_subkey L ?k ?m salt = Inr ka" "ad_kind ka = ?k" "length (ad_key ka) = key_size ?k"
    using subkey_ok [OF assms(2)] by blast
  obtain kd where kd: "ss_subkey L ?k ?m ssalt = Inr kd" "ad_kind kd = ?k" "length (ad_key kd) = key_size ?k"
    using subkey_ok [OF assms(2)] by blast
  define s where "s = ss_start ?k ka"
  have ok: "ss_ok L s" "ss_ok L (ss_start ?k kd)" using start_ok [OF assms(1) ka(2,3)] start_ok [OF assms(1) kd(2,3)] by (simp_all add: s_def)
  have len: "length ?a \<le> 65535" using ss_address_codec(4) [OF assms(3), of p] by simp
  obtain lenct where l: "ss_seal L s (be16 (word_of_nat (length ?a))) = Inr lenct" "length lenct = 2 + TAG"
    "aead_open L ka (nonce_bytes (nonce_new (nonce_size ?k))) lenct = Inr (be16 (word_of_nat (length ?a)))"
    using ss_seal_open [OF ok(1), of "be16 (word_of_nat (length ?a))"] by (auto simp: s_def ss_start_def)
  obtain payct where p: "ss_seal L (ss_advance s) ?a = Inr payct"
    using ss_seal_open [OF ss_advance_ok [OF ok(1)] len] by blast
  have hello: "sends (ss_out_hello L ob salt (dest_tcp a p)) (salt @ lenct @ payct) (ss_advance (ss_advance s))"
    using hello_sends [OF _ ok(1) assms(3) l(1) p] subkey_out [OF ka(1)] by (simp add: s_def)
  have "ss_match L ?k salt lenct pre = None" using first [OF hello] l(2) by simp
  then have m: "ss_match L ?k salt lenct (ss_users ss) = Some (user, ss_advance s, be16 (word_of_nat (length ?a)))"
    using match_after [of L ?k salt lenct pre "user # post"] ka(1) l(3) assms(7,8) by (simp add: s_def)
  let ?cx = "with_user cx (su_email user) (user_hash (bytes_of_string (su_email user)))"
  obtain counter st' where uc: "user_counter ?cx st = (counter, st')" by fastforce
  let ?r = "(\<lparr>pd_target = dest_tcp a p, pd_ctx = ?cx, pd_link = RelayFramed counter []\<rparr>, ss_advance (ss_advance s), ss_start ?k kd)"
  note acc = runs_accept [OF ss_advance_ok [OF ok(1)] assms(3) p kd(1) [folded assms(8)], of ?cx counter]
  have salt: "runs (ss_out_salt L ob) (ssalt @ rest) (ss_start ?k kd) [] rest" for rest
    unfolding ss_out_salt_def
    by (rule runs_bind_silent [OF runs_read [OF assms(5)]]) (rule runs_lift [OF subkey_out [OF kd(1)]])
  have "\<exists>c'. ss_decode L ss ssalt st cx c = (Done ?r, c', st') \<and> sent c' = sent c @ ssalt \<and> delivers_then c' payload evs"
    if c: "delivers_then c ((salt @ lenct @ payct) @ payload) evs" "write_outcomes c = []" for c payload evs
  proof -
    have "runs (io_timeout ''handshake timeout'' (io_bind (io_read (key_size (ss_kind ss))) (\<lambda>salt.
        io_bind (io_read (2 + TAG)) (\<lambda>lenct. io_return (salt, lenct))))) (salt @ lenct @ payct @ payload) (salt, lenct) [] (payct @ payload)"
      using assms(4,6) l(2)
      by (intro runs_timeout runs_bind_silent [OF runs_read] runs_bind_silent [OF runs_read] runs_return) simp_all
    from runsD [OF this, of c evs] c obtain c1 where c1: "io_timeout ''handshake timeout'' (io_bind (io_read (key_size (ss_kind ss))) (\<lambda>salt.
        io_bind (io_read (2 + TAG)) (\<lambda>lenct. io_return (salt, lenct)))) c = (Done (salt, lenct), c1)"
      "delivers_then c1 (payct @ payload) evs" "sent c1 = sent c" "write_outcomes c1 = []" by auto
    from runsD [OF acc c1(2,4)] c1 m uc assms(6) show ?thesis by (auto simp: ss_decode_def Let_def)
  qed
  then show ?thesis using hello ok salt
    by (intro exI [of _ "salt @ lenct @ payct"] exI [of _ "ss_advance (ss_advance s)"]) fastforce
qed

definition sample_ss_outbound :: ss_outbound where
  "sample_ss_outbound = \<lparr>sob_server = dest_tcp (Ip (V4 1)) 8388, sob_kind = Aes128Gcm, sob_master = replicate 16 7\<rparr>"

definition sample_ss :: shadowsocks where
  "sample_ss = \<lparr>ss_kind = Aes128Gcm, ss_users = [\<lparr>su_master = replicate 16 7, su_email = ''u'', su_level = 0\<rparr>]\<rparr>"

lemma ss_interoperates_witness:
  "\<exists>wire up. sends (ss_out_hello sample_lib sample_ss_outbound (replicate 16 1) (dest_tcp (Ip (V4 5)) 80)) wire up \<and>
    (\<forall>c payload evs. delivers_then c (wire @ payload) evs \<longrightarrow> write_outcomes c = [] \<longrightarrow>
      (\<exists>c' d down st'. ss_decode sample_lib sample_ss (replicate 16 2) None sample_ctx c = (Done (d, up, down), c', st') \<and>
         pd_target d = dest_tcp (Ip (V4 5)) 80 \<and> user_email (pd_ctx d) = Some ''u''))"
proof -
  have a: "canonical_addr (Ip (V4 5))" by (simp add: canonical_addr_def)
  have k: "length (replicate 16 1 :: bytes) = key_size (sob_kind sample_ss_outbound)"
    "length (replicate 16 2 :: bytes) = key_size (sob_kind sample_ss_outbound)"
    "ss_kind sample_ss = sob_kind sample_ss_outbound"
    "ss_users sample_ss = [] @ \<lparr>su_master = replicate 16 7, su_email = ''u'', su_level = 0\<rparr> # []"
    "su_master \<lparr>su_master = replicate 16 7, su_email = ''u'', su_level = 0\<rparr> = sob_master sample_ss_outbound"
    by (simp_all add: sample_ss_outbound_def sample_ss_def key_size_def)
  from ss_interoperates [OF sample_lib_laws sample_lib_hkdf a k, of 80 None sample_ctx]
  show ?thesis by (fastforce simp: with_user_def)
qed

text \<open>A decision that a decoder made to drop a flow is dropped by the direct outbound without dialing.\<close>

lemma noop_decision_dropped: "process L dial salt Freedom (pd_target (noop_decision cx)) = Done EDrop"
  by (simp add: process_def noop_not_valid)

end
