(* ===== verification/SsUdp.thy ===== *)
theory SsUdp
  imports OutboundProxy UdpRelay
begin

text \<open>
  The UDP side of proxy/src/shadowsocks.rs (a datagram is a salt and one sealed text, an address and the
  payload; one session per source address) and \<open>freedom_udp\<close> of proxy/src/udp.rs, the direct egress of a
  session. A session's link is the list of the packets put on it. Random salts are arguments.
\<close>

section \<open>Datagrams\<close>

definition ss_udp_encode :: "crypto_lib \<Rightarrow> aead_kind \<Rightarrow> bytes \<Rightarrow> bytes \<Rightarrow> destination \<Rightarrow> bytes \<Rightarrow> bytes option" where
  "ss_udp_encode L kd master salt tgt payload =
     Option.bind (res_ok (ss_subkey L kd master salt)) (\<lambda>a.
     Option.bind (res_ok (codec_write SHADOWSOCKS [] (address tgt) (port tgt))) (\<lambda>plain.
     Option.bind (res_ok (aead_seal L a (replicate (nonce_size kd) 0) (plain @ payload))) (\<lambda>ct.
     Some (salt @ ct))))"

fun udp_trial :: "crypto_lib \<Rightarrow> aead_kind \<Rightarrow> bytes \<Rightarrow> bytes \<Rightarrow> ss_user list \<Rightarrow> (bytes \<times> string \<times> destination \<times> bytes) option" where
  "udp_trial L kd salt ct [] = None"
| "udp_trial L kd salt ct (user # us) =
     (case ss_subkey L kd (su_master user) salt of
        Inl _ \<Rightarrow> udp_trial L kd salt ct us
      | Inr a \<Rightarrow> (case aead_open L a (replicate (nonce_size kd) 0) ct of
           Inl _ \<Rightarrow> udp_trial L kd salt ct us
         | Inr plain \<Rightarrow> (case codec_read SHADOWSOCKS plain of
              Inl _ \<Rightarrow> udp_trial L kd salt ct us
            | Inr ((addr, p), pb) \<Rightarrow> Some (su_master user, su_email user, dest_udp addr p, pb))))"

definition udp_decode :: "crypto_lib \<Rightarrow> shadowsocks \<Rightarrow> bytes \<Rightarrow> (bytes \<times> string \<times> destination \<times> bytes) option" where
  "udp_decode L ss dgram =
     (if length dgram < key_size (ss_kind ss) then None
      else udp_trial L (ss_kind ss) (take (key_size (ss_kind ss)) dgram) (drop (key_size (ss_kind ss)) dgram) (ss_users ss))"

section \<open>Sessions\<close>

record ss_session =
  ses_master :: bytes
  ses_counter :: "nat option"
  ses_link :: "(destination \<times> bytes) list"

record ss_server =
  srv_sessions :: "socket_addr \<rightharpoonup> ss_session"
  srv_out :: "(socket_addr \<times> bytes) list"
  srv_stats :: "stats option"

datatype ss_udp_event =
    SDgram "io_error + socket_addr \<times> bytes" bool
  | SReply socket_addr bytes destination bytes
  | SReap socket_addr

definition srv_count :: "(nat \<Rightarrow> u64 \<Rightarrow> stats \<Rightarrow> stats) \<Rightarrow> nat option \<Rightarrow> nat \<Rightarrow> ss_server \<Rightarrow> ss_server" where
  "srv_count add c n s = (case c of None \<Rightarrow> s
     | Some a \<Rightarrow> s\<lparr>srv_stats := map_option (add a (word_of_nat n)) (srv_stats s)\<rparr>)"

text \<open>The session of a source address: the one there is, or a new one for the decoded user.\<close>

definition srv_session :: "ctx \<Rightarrow> socket_addr \<Rightarrow> bytes \<Rightarrow> string \<Rightarrow> ss_server \<Rightarrow> ss_session \<times> ss_server" where
  "srv_session cx from master email s = (case srv_sessions s from of
     Some ses \<Rightarrow> (ses, s)
   | None \<Rightarrow>
       (case user_counter (with_user cx email (user_hash (bytes_of_string email))) (srv_stats s) of (counter, st) \<Rightarrow>
          let ses = \<lparr>ses_master = master, ses_counter = counter, ses_link = []\<rparr>
          in (ses, s\<lparr>srv_sessions := (srv_sessions s)(from \<mapsto> ses), srv_stats := st\<rparr>)))"

text \<open>
  One turn of \<open>serve_udp\<close>: a datagram (with whether the session's egress still takes packets), a reply on a
  session's link (with the salt of its encryption), or the end of a session's downlink.
\<close>

definition serve_udp_step :: "crypto_lib \<Rightarrow> shadowsocks \<Rightarrow> ctx \<Rightarrow> ss_udp_event \<Rightarrow> ss_server \<Rightarrow> io_error option \<times> ss_server" where
  "serve_udp_step L ss cx ev s = (case ev of
     SDgram (Inl e) _ \<Rightarrow> (Some e, s)
   | SDgram (Inr (from, dgram)) alive \<Rightarrow> (case udp_decode L ss dgram of
         None \<Rightarrow> (None, s)
       | Some (master, email, tgt, payload) \<Rightarrow>
           (case srv_session cx from master email s of (ses, s1) \<Rightarrow>
              let s2 = srv_count add_up (ses_counter ses) (length payload) s1
              in (None, if alive
                   then s2\<lparr>srv_sessions := (srv_sessions s2)(from \<mapsto> ses\<lparr>ses_link := ses_link ses @ [(tgt, payload)]\<rparr>)\<rparr>
                   else s2)))
   | SReply from salt src data \<Rightarrow> (case srv_sessions s from of
         None \<Rightarrow> (None, s)
       | Some ses \<Rightarrow>
           (let s1 = srv_count add_down (ses_counter ses) (length data) s
            in (None, case ss_udp_encode L (ss_kind ss) (ses_master ses) salt src data of
                  None \<Rightarrow> s1 | Some d \<Rightarrow> s1\<lparr>srv_out := srv_out s1 @ [(from, d)]\<rparr>)))
   | SReap from \<Rightarrow> (None, s\<lparr>srv_sessions := (srv_sessions s)(from := None)\<rparr>))"

section \<open>Direct egress\<close>

text \<open>
  \<open>freedom_udp\<close>: a packet of the link is resolved and sent, and any failure ends the egress; a received
  datagram goes back on the link tagged with its source.
\<close>

datatype freedom_event =
    FreeIdle
  | FreeSend destination bytes "io_error option"
  | FreeLinkEnd
  | FreeRecv "io_error + socket_addr \<times> bytes" bool

record freedom_state =
  fu_sent :: "(socket_addr \<times> bytes) list"
  fu_link :: "(destination \<times> bytes) list"

definition freedom_udp_step :: "resolver \<Rightarrow> freedom_event \<Rightarrow> freedom_state \<Rightarrow> unit io_result option \<times> freedom_state" where
  "freedom_udp_step resolve ev s = (case ev of
     FreeIdle \<Rightarrow> (Some (Inr ()), s)
   | FreeSend tgt data outcome \<Rightarrow> (case resolve_first resolve tgt of
         Inl e \<Rightarrow> (Some (Inl e), s)
       | Inr addr \<Rightarrow> (case outcome of Some e \<Rightarrow> (Some (Inl e), s)
           | None \<Rightarrow> (None, s\<lparr>fu_sent := fu_sent s @ [(addr, data)]\<rparr>)))
   | FreeLinkEnd \<Rightarrow> (Some (Inr ()), s)
   | FreeRecv (Inl e) _ \<Rightarrow> (Some (Inl e), s)
   | FreeRecv (Inr ((ip, p), data)) accepted \<Rightarrow>
       if accepted then (None, s\<lparr>fu_link := fu_link s @ [(dest_udp (Ip ip) p, data)]\<rparr>) else (Some (Inr ()), s))"

section \<open>Lemmas\<close>

lemma udp_trial_after:
  "udp_trial L kd salt ct pre = None \<Longrightarrow> udp_trial L kd salt ct (pre @ us) = udp_trial L kd salt ct us"
  by (induction pre) (auto split: sum.splits)

section \<open>Properties\<close>

text \<open>
  A UDP datagram sealed for a Shadowsocks server with a user's master key decodes there to exactly
  its target and payload and to that user, provided no earlier user's key opens it.
\<close>

lemma ss_udp_roundtrip:
  assumes "aead_laws L" and "hkdf_laws L" and "canonical_addr a" and "length salt = key_size (ss_kind ss)"
    and "length payload \<le> 65000" and "ss_users ss = pre @ user # post"
    and "\<And>ct. ss_udp_encode L (ss_kind ss) (su_master user) salt (dest_udp a p) payload = Some (salt @ ct) \<Longrightarrow>
      udp_trial L (ss_kind ss) salt ct pre = None"
  shows "\<exists>d. ss_udp_encode L (ss_kind ss) (su_master user) salt (dest_udp a p) payload = Some d \<and>
    udp_decode L ss d = Some (su_master user, su_email user, dest_udp a p, payload)"
proof -
  let ?k = "ss_kind ss"
  obtain ka where ka: "ss_subkey L ?k (su_master user) salt = Inr ka" "ad_kind ka = ?k" "length (ad_key ka) = key_size ?k"
    using subkey_ok [OF assms(2)] by blast
  have "length (ss_address a p @ payload) \<le> 65535"
    using assms(5) ss_address_codec(4) [OF assms(3), of p] by simp
  then obtain ct where ct: "aead_seal L ka (replicate (nonce_size ?k) 0) (ss_address a p @ payload) = Inr ct"
    "aead_open L ka (replicate (nonce_size ?k) 0) ct = Inr (ss_address a p @ payload)"
    using aead_seal_open [OF assms(1), of ka "replicate (nonce_size ?k) 0" "ss_address a p @ payload"] ka by auto
  have e: "ss_udp_encode L ?k (su_master user) salt (dest_udp a p) payload = Some (salt @ ct)"
    using ka(1) ct(1) ss_address_codec(1) [OF assms(3), of p] by (simp add: ss_udp_encode_def dest_udp_def res_ok_def)
  have "codec_read SHADOWSOCKS (ss_address a p @ payload) = Inr ((a, p), payload)"
    using codec_read_wire [OF assms(3), of SHADOWSOCKS p payload] by (simp add: ss_address_def SHADOWSOCKS_def TROJAN_def)
  then have "udp_trial L ?k salt ct (user # post) = Some (su_master user, su_email user, dest_udp a p, payload)"
    using ka(1) ct(2) by simp
  then show ?thesis using e assms(4,6) assms(7) [OF e] udp_trial_after by (simp add: udp_decode_def)
qed

definition sample_two_users :: shadowsocks where
  "sample_two_users = \<lparr>ss_kind = Aes128Gcm, ss_users =
     [\<lparr>su_master = replicate 16 1, su_email = ''a'', su_level = 0\<rparr>, \<lparr>su_master = replicate 16 2, su_email = ''b'', su_level = 0\<rparr>]\<rparr>"

text \<open>For examples, a cipher whose tag is the key, so that only the right key opens a text.\<close>

definition keyed_lib :: crypto_lib where
  "keyed_lib = sample_lib\<lparr>lib_seal := \<lambda>_ key _ p. Some (p @ take 16 key),
     lib_open := \<lambda>_ key _ c. if 16 \<le> length c \<and> drop (length c - 16) c = take 16 key then Some (take (length c - 16) c) else None\<rparr>"

lemma keyed_lib_laws: "aead_laws keyed_lib" "hkdf_laws keyed_lib"
  using sample_lib_hkdf by (auto simp: aead_laws_def hkdf_laws_def keyed_lib_def TAG_def key_size_def split: aead_kind.splits)

lemma ss_udp_roundtrip_witness:
  "\<exists>d. ss_udp_encode keyed_lib Aes128Gcm (replicate 16 2) (replicate 16 0) (dest_udp (Ip (V4 5)) 53) [9] = Some d \<and>
    udp_decode keyed_lib sample_two_users d = Some (replicate 16 2, ''b'', dest_udp (Ip (V4 5)) 53, [9])"
proof -
  let ?a = "\<lparr>su_master = replicate 16 1, su_email = ''a'', su_level = 0\<rparr> :: ss_user"
  let ?b = "\<lparr>su_master = replicate 16 2, su_email = ''b'', su_level = 0\<rparr> :: ss_user"
  have a: "canonical_addr (Ip (V4 5))" by (simp add: canonical_addr_def)
  have u: "ss_users sample_two_users = [?a] @ ?b # []" "ss_kind sample_two_users = Aes128Gcm"
    "length (replicate 16 0 :: bytes) = key_size (ss_kind sample_two_users)" "length [9 :: byte] \<le> 65000"
    by (simp_all add: sample_two_users_def key_size_def)
  have e: "ss_udp_encode keyed_lib Aes128Gcm (replicate 16 2) (replicate 16 0) (dest_udp (Ip (V4 5)) 53) [9] =
      Some (replicate 16 0 @ [1, 0, 0, 0, 5, 0, 53, 9] @ replicate 16 2)"
    "udp_trial keyed_lib Aes128Gcm (replicate 16 0) ([1, 0, 0, 0, 5, 0, 53, 9] @ replicate 16 2) [?a] = None" by code_simp+
  have f: "udp_trial keyed_lib (ss_kind sample_two_users) (replicate 16 0) ct [?a] = None"
    if "ss_udp_encode keyed_lib (ss_kind sample_two_users) (su_master ?b) (replicate 16 0) (dest_udp (Ip (V4 5)) 53) [9] = Some (replicate 16 0 @ ct)" for ct
    using that e unfolding u(2) by simp
  from ss_udp_roundtrip [OF keyed_lib_laws a u(3,4,1) f] show ?thesis by (simp add: u(2))
qed

text \<open>
  A Shadowsocks UDP server works by source address: a datagram that decodes from a source with a live
  session is put on that session's link and counted on the counter of the user who opened the session,
  and answers are sealed with that user's key, whoever sent the datagram. (The server does not look at
  the user the datagram decoded to.)
\<close>

lemma ss_udp_session_owner:
  assumes "srv_sessions s from = Some ses" and "udp_decode L ss dgram = Some (master, email, tgt, payload)"
    and "ses_counter ses = Some a" and "srv_stats s = Some st"
  shows "serve_udp_step L ss cx (SDgram (Inr (from, dgram)) True) s =
      (None, s\<lparr>srv_sessions := (srv_sessions s)(from \<mapsto> ses\<lparr>ses_link := ses_link ses @ [(tgt, payload)]\<rparr>),
               srv_stats := Some (add_up a (word_of_nat (length payload)) st)\<rparr>) \<and>
    (\<forall>salt src data d. ss_udp_encode L (ss_kind ss) (ses_master ses) salt src data = Some d \<longrightarrow>
      srv_out (snd (serve_udp_step L ss cx (SReply from salt src data)
        (snd (serve_udp_step L ss cx (SDgram (Inr (from, dgram)) True) s)))) = srv_out s @ [(from, d)])"
  using assms by (simp add: serve_udp_step_def srv_session_def srv_count_def Let_def)

definition sample_dgram :: "byte \<Rightarrow> bytes" where
  "sample_dgram k = the (ss_udp_encode keyed_lib Aes128Gcm (replicate 16 k) (replicate 16 0) (dest_udp (Ip (V4 5)) 53) [9])"

definition sample_server :: ss_server where
  "sample_server = snd (serve_udp_step keyed_lib sample_two_users sample_ctx (SDgram (Inr ((V4 7, 7), sample_dgram 1)) True)
     \<lparr>srv_sessions = (\<lambda>_. None), srv_out = [], srv_stats = Some stats_new\<rparr>)"

lemma ss_udp_second_user:
  "udp_decode keyed_lib sample_two_users (sample_dgram 2) = Some (replicate 16 2, ''b'', dest_udp (Ip (V4 5)) 53, [9]) \<and>
   (\<exists>ses a st. srv_sessions sample_server (V4 7, 7) = Some ses \<and> ses_counter ses = Some a \<and> srv_stats sample_server = Some st \<and>
      tag (cells st ! a) = ''a'' \<and>
      srv_stats (snd (serve_udp_step keyed_lib sample_two_users sample_ctx (SDgram (Inr ((V4 7, 7), sample_dgram 2)) True) sample_server))
        = Some (add_up a 1 st))"
proof -
  have d: "udp_decode keyed_lib sample_two_users (sample_dgram 2) = Some (replicate 16 2, ''b'', dest_udp (Ip (V4 5)) 53, [9])"
    by code_simp
  have c: "map_option ses_counter (srv_sessions sample_server (V4 7, 7)) = Some (Some 0)"
    "map_option (\<lambda>st. tag (cells st ! 0)) (srv_stats sample_server) = Some ''a''" by code_simp+
  then obtain ses st where s: "srv_sessions sample_server (V4 7, 7) = Some ses" "ses_counter ses = Some 0"
    "srv_stats sample_server = Some st" "tag (cells st ! 0) = ''a''" by auto
  show ?thesis using d s ss_udp_session_owner [OF s(1) d s(2,3), of sample_ctx] by auto
qed

end
