(* ===== verification/VmessBody.thy ===== *)
theory VmessBody
  imports Shadowsocks
begin

text \<open>
  proxy/src/vmess/body.rs: the VMess chunk codec, with length masking and padding. The SHAKE128 output is
  an argument, the stream of bytes for a seed; the state keeps the position in it. Padding bytes are
  random, an argument indexed by that position and the index in the padding. The codec interprets the
  contract \<open>chunk_codec\<close>.
\<close>

type_synonym xof = "bytes \<Rightarrow> nat \<Rightarrow> byte"
type_synonym rand_src = "nat \<Rightarrow> nat \<Rightarrow> byte"

record body =
  bd_aead :: "aead option"
  bd_iv :: bytes
  bd_count :: u16
  bd_shake :: "nat option"
  bd_padding :: bool

definition body_new :: "aead option \<Rightarrow> bytes \<Rightarrow> bool \<Rightarrow> bool \<Rightarrow> body" where
  "body_new a iv masking global_padding =
     \<lparr>bd_aead = a, bd_iv = iv, bd_count = 0, bd_shake = (if masking then Some 0 else None), bd_padding = global_padding\<rparr>"

definition next_u16 :: "xof \<Rightarrow> bytes \<Rightarrow> nat \<Rightarrow> u16 \<times> nat" where
  "next_u16 X iv pos = (word_of_be [X iv pos, X iv (pos + 1)], pos + 2)"

definition overhead :: "body \<Rightarrow> nat" where
  "overhead b = (if bd_aead b \<noteq> None then TAG else 0)"

definition chunk_nonce :: "body \<Rightarrow> bytes" where
  "chunk_nonce b = be16 (bd_count b) @ take 10 (drop 2 (bd_iv b))"

definition next_padding :: "xof \<Rightarrow> body \<Rightarrow> nat \<times> body" where
  "next_padding X b =
     (if bd_padding b then
        (case bd_shake b of None \<Rightarrow> (0, b)
         | Some pos \<Rightarrow> (case next_u16 X (bd_iv b) pos of (v, pos') \<Rightarrow> (unat (v mod 64), b\<lparr>bd_shake := Some pos'\<rparr>)))
      else (0, b))"

definition mask_size :: "xof \<Rightarrow> u16 \<Rightarrow> body \<Rightarrow> u16 \<times> body" where
  "mask_size X sz b = (case bd_shake b of
     Some pos \<Rightarrow> (case next_u16 X (bd_iv b) pos of (v, pos') \<Rightarrow> (v XOR sz, b\<lparr>bd_shake := Some pos'\<rparr>))
   | None \<Rightarrow> (sz, b))"

definition seal_piece :: "crypto_lib \<Rightarrow> bytes \<Rightarrow> body \<Rightarrow> (bytes \<times> body) io_result" where
  "seal_piece L piece b =
     rbind (case bd_aead b of
              Some a \<Rightarrow> map_err (IoWrap KindOther) (aead_seal L a (chunk_nonce b) piece)
            | None \<Rightarrow> Inr piece) (\<lambda>ct. Inr (ct, b\<lparr>bd_count := bd_count b + 1\<rparr>))"

definition open_piece :: "crypto_lib \<Rightarrow> bytes \<Rightarrow> body \<Rightarrow> (bytes \<times> body) io_result" where
  "open_piece L ct b =
     rbind (case bd_aead b of
              Some a \<Rightarrow> map_err (IoWrap InvalidData) (aead_open L a (chunk_nonce b) ct)
            | None \<Rightarrow> Inr ct) (\<lambda>plain. Inr (plain, b\<lparr>bd_count := bd_count b + 1\<rparr>))"

definition encode_frame :: "xof \<Rightarrow> rand_src \<Rightarrow> bytes \<Rightarrow> nat \<Rightarrow> body \<Rightarrow> bytes \<times> body" where
  "encode_frame X R ct padding b =
     (let sz = length ct + padding
      in case mask_size X (if sz \<le> 65535 then word_of_nat sz else 65535) b of (masked, b') \<Rightarrow>
         (be16 masked @ ct @ map (R (case bd_shake b of Some pos \<Rightarrow> pos | None \<Rightarrow> 0)) [0..<padding], b'))"

definition vm_read_body :: "xof \<Rightarrow> crypto_lib \<Rightarrow> body \<Rightarrow> u16 \<Rightarrow> (bytes option \<times> body) io" where
  "vm_read_body X L b prefixed =
     (case next_padding X b of (padding, b1) \<Rightarrow>
      case mask_size X prefixed b1 of (sz, b2) \<Rightarrow>
        (let size = unat sz; floor = overhead b2 + padding in
         if size = floor then io_return (None, b2)
         else if size < floor then io_fail (IoMsg InvalidData ''vmess chunk size'')
         else
           io_bind (io_read size) (\<lambda>chunk.
           io_bind (io_lift (open_piece L (take (size - padding) chunk) b2)) (\<lambda>(plain, b3).
           io_return (Some plain, b3)))))"

definition vm_read_chunk :: "xof \<Rightarrow> crypto_lib \<Rightarrow> body \<Rightarrow> (bytes option \<times> body) io" where
  "vm_read_chunk X L b =
     io_bind (io_read_or_eof 2) (\<lambda>r. case r of
       None \<Rightarrow> io_return (None, b)
     | Some size_buf \<Rightarrow> vm_read_body X L b (word_of_be size_buf))"

definition write_frame :: "xof \<Rightarrow> rand_src \<Rightarrow> crypto_lib \<Rightarrow> body \<Rightarrow> bytes \<Rightarrow> body io" where
  "write_frame X R L b piece =
     (case next_padding X b of (padding, b1) \<Rightarrow>
      io_bind (io_lift (seal_piece L piece b1)) (\<lambda>(ct, b2).
      case encode_frame X R ct padding b2 of (frame, b3) \<Rightarrow>
      io_bind (io_write frame) (\<lambda>_. io_return b3)))"

fun vm_write_pieces :: "xof \<Rightarrow> rand_src \<Rightarrow> crypto_lib \<Rightarrow> body \<Rightarrow> bytes list \<Rightarrow> body io" where
  "vm_write_pieces X R L b [] = io_return b"
| "vm_write_pieces X R L b (piece # ps) = io_bind (write_frame X R L b piece) (\<lambda>b'. vm_write_pieces X R L b' ps)"

definition vm_write_chunk :: "xof \<Rightarrow> rand_src \<Rightarrow> crypto_lib \<Rightarrow> body \<Rightarrow> bytes \<Rightarrow> body io" where
  "vm_write_chunk X R L b data = vm_write_pieces X R L b (chunks (max (8192 - overhead b - 64) 1) data)"

definition write_terminal :: "xof \<Rightarrow> rand_src \<Rightarrow> crypto_lib \<Rightarrow> body \<Rightarrow> body io" where
  "write_terminal X R L b = write_frame X R L b []"

section \<open>Lemmas\<close>

definition body_ok :: "crypto_lib \<Rightarrow> body \<Rightarrow> bool" where
  "body_ok L b \<longleftrightarrow> aead_laws L \<and> length (bd_iv b) = 16 \<and>
     (\<forall>a. bd_aead b = Some a \<longrightarrow> length (ad_key a) = key_size (ad_kind a) \<and> nonce_size (ad_kind a) = 12)"

definition vm_in_step :: "crypto_lib \<Rightarrow> body \<Rightarrow> body \<Rightarrow> bool" where
  "vm_in_step L w r \<longleftrightarrow> body_ok L w \<and> r = w"

lemma next_padding_frame:
  assumes "next_padding X b = (padding, b')"
  shows "padding < 64" "bd_aead b' = bd_aead b" "bd_iv b' = bd_iv b" "bd_count b' = bd_count b"
    "bd_padding b' = bd_padding b"
proof -
  have "unat (v mod 64 :: u16) < 64" for v by (simp add: unat_mod)
  then show "padding < 64" "bd_aead b' = bd_aead b" "bd_iv b' = bd_iv b" "bd_count b' = bd_count b"
    "bd_padding b' = bd_padding b"
    using assms by (auto simp: next_padding_def split: if_splits option.splits prod.splits)
qed

lemma mask_size_frame:
  assumes "mask_size X v b = (m, b')"
  shows "bd_aead b' = bd_aead b" "bd_iv b' = bd_iv b" "bd_count b' = bd_count b" "bd_padding b' = bd_padding b"
  using assms by (auto simp: mask_size_def split: option.splits prod.splits)

text \<open>Masking twice from the same state gives the size back.\<close>

lemma mask_size_involutive: "mask_size X v b = (m, b') \<Longrightarrow> mask_size X m b = (v, b')"
  by (auto simp: mask_size_def split: option.splits prod.splits)

lemma mask_size_count: "mask_size X v (b\<lparr>bd_count := n\<rparr>) = (case mask_size X v b of (m, b') \<Rightarrow> (m, b'\<lparr>bd_count := n\<rparr>))"
  by (auto simp: mask_size_def split: option.splits prod.splits)

lemma seal_piece_open:
  assumes "body_ok L b" and "length p \<le> 65535"
  obtains ct where "seal_piece L p b = Inr (ct, b\<lparr>bd_count := bd_count b + 1\<rparr>)" "length ct = length p + overhead b"
    "open_piece L ct b = Inr (p, b\<lparr>bd_count := bd_count b + 1\<rparr>)"
proof (cases "bd_aead b")
  case None
  then show thesis by (intro that [of p]) (simp_all add: seal_piece_def open_piece_def overhead_def rbind_def)
next
  case (Some a)
  have "length (chunk_nonce b) = nonce_size (ad_kind a)" "length (ad_key a) = key_size (ad_kind a)" "aead_laws L"
    using assms(1) Some by (simp_all add: body_ok_def chunk_nonce_def)
  then obtain ct where "aead_seal L a (chunk_nonce b) p = Inr ct" "length ct = length p + TAG"
    "aead_open L a (chunk_nonce b) ct = Inr p" using aead_seal_open assms(2) by metis
  then show thesis using Some
    by (intro that [of ct]) (simp_all add: seal_piece_def open_piece_def overhead_def rbind_def map_err_def)
qed

text \<open>
  A frame: what is written for a piece, and what the reader makes of the prefix. \<open>b1\<close> is the state after
  the padding was drawn, \<open>b2\<close> after the size was masked.
\<close>

lemma frame_shape:
  assumes "body_ok L b" and "length p \<le> 8192"
  shows "\<exists>padding b1 m b2 ct pad. next_padding X b = (padding, b1) \<and>
    mask_size X (word_of_nat (length ct + padding)) b1 = (m, b2) \<and> length ct + padding \<le> 65535 \<and>
    length ct = length p + overhead b2 \<and> length pad = padding \<and>
    open_piece L ct b2 = Inr (p, b2\<lparr>bd_count := bd_count b2 + 1\<rparr>) \<and>
    sends (write_frame X R L b p) (be16 m @ ct @ pad) (b2\<lparr>bd_count := bd_count b2 + 1\<rparr>) \<and>
    body_ok L (b2\<lparr>bd_count := bd_count b2 + 1\<rparr>)"
proof -
  obtain padding b1 where n: "next_padding X b = (padding, b1)" by fastforce
  note f1 = next_padding_frame [OF n]
  have ok1: "body_ok L b1" using assms(1) f1 by (simp add: body_ok_def)
  obtain ct where ct: "seal_piece L p b1 = Inr (ct, b1\<lparr>bd_count := bd_count b1 + 1\<rparr>)" "length ct = length p + overhead b1"
    "open_piece L ct b1 = Inr (p, b1\<lparr>bd_count := bd_count b1 + 1\<rparr>)"
    using seal_piece_open [OF ok1, of p] assms(2) by auto
  have sz: "length ct + padding \<le> 65535" using ct(2) f1(1) assms(2) by (simp add: overhead_def TAG_def split: if_splits)
  obtain m b2 where m: "mask_size X (word_of_nat (length ct + padding)) b1 = (m, b2)" by fastforce
  note f2 = mask_size_frame [OF m]
  have o2: "overhead b2 = overhead b1" by (simp add: overhead_def f2)
  have op: "open_piece L ct b2 = Inr (p, b2\<lparr>bd_count := bd_count b2 + 1\<rparr>)"
    using ct(3) f2 by (auto simp: open_piece_def chunk_nonce_def rbind_def split: sum.splits option.splits)
  define pad where "pad = map (R (case bd_shake b1 of Some pos \<Rightarrow> pos | None \<Rightarrow> 0)) [0..<padding]"
  have "encode_frame X R ct padding (b1\<lparr>bd_count := bd_count b1 + 1\<rparr>) =
      (be16 m @ ct @ pad, b2\<lparr>bd_count := bd_count b1 + 1\<rparr>)"
    using sz m by (simp add: encode_frame_def Let_def mask_size_count pad_def)
  then have "write_frame X R L b p = io_bind (io_write (be16 m @ ct @ pad)) (\<lambda>_. io_return (b2\<lparr>bd_count := bd_count b2 + 1\<rparr>))"
    using n ct(1) f2(3) by (simp add: write_frame_def io_bind_def io_return_def)
  moreover have "sends (io_bind (io_write w) (\<lambda>_. io_return x)) w x" for w and x :: body
    using sends_bind [OF sends_write, of "\<lambda>_. io_return x" "[]" x w] by (simp add: sends_return)
  ultimately have "sends (write_frame X R L b p) (be16 m @ ct @ pad) (b2\<lparr>bd_count := bd_count b2 + 1\<rparr>)" by simp
  moreover have "body_ok L (b2\<lparr>bd_count := bd_count b2 + 1\<rparr>)" using ok1 f2 by (simp add: body_ok_def)
  moreover have "length pad = padding" by (simp add: pad_def)
  ultimately show ?thesis using n m sz ct(2) [folded o2] op by blast
qed

lemma unat_word_small: "n \<le> 65535 \<Longrightarrow> unat (word_of_nat n :: u16) = n"
  by (simp add: unat_of_nat)

lemma runs_prefix:
  "runs (vm_read_body X L b m) bs y [] bs' \<Longrightarrow> runs (vm_read_chunk X L b) (be16 m @ bs) y [] bs'"
  unfolding vm_read_chunk_def
  by (rule runs_bind_silent [OF runs_read_or_eof]) simp_all

lemma vm_read_frame:
  assumes "next_padding X b = (padding, b1)" and "mask_size X (word_of_nat (length ct + padding)) b1 = (m, b2)"
    and "length ct + padding \<le> 65535" and "length ct = length p + overhead b2" and "length pad = padding"
    and "open_piece L ct b2 = Inr (p, b3)" and "p \<noteq> []"
  shows "runs (vm_read_chunk X L b) ((be16 m @ ct @ pad) @ rest) (Some p, b3) [] rest"
proof -
  have "mask_size X m b1 = (word_of_nat (length ct + padding), b2)" using mask_size_involutive [OF assms(2)] .
  moreover have "unat (word_of_nat (length ct + padding) :: u16) = length ct + padding" using assms(3) by (rule unat_word_small)
  moreover have "overhead b2 + padding < length ct + padding" using assms(4,7) by simp
  ultimately have body: "vm_read_body X L b m = io_bind (io_read (length ct + padding)) (\<lambda>chunk.
      io_bind (io_lift (open_piece L (take (length ct) chunk) b2)) (\<lambda>(plain, b3). io_return (Some plain, b3)))"
    using assms(1) by (simp add: vm_read_body_def Let_def)
  have "runs (vm_read_body X L b m) ((ct @ pad) @ rest) (Some p, b3) [] rest"
    unfolding body
    by (rule runs_bind_silent [OF runs_read]) (use assms(5,6) in \<open>simp_all add: io_bind_def io_return_def runs_def\<close>)
  from runs_prefix [OF this] show ?thesis by simp
qed

lemma vm_read_terminal:
  assumes "next_padding X b = (padding, b1)" and "mask_size X (word_of_nat (length ct + padding)) b1 = (m, b2)"
    and "length ct + padding \<le> 65535" and "length ct = overhead b2"
  shows "runs (vm_read_chunk X L b) (be16 m @ ct @ pad) (None, b2) [] (ct @ pad)"
proof -
  have "mask_size X m b1 = (word_of_nat (length ct + padding), b2)" using mask_size_involutive [OF assms(2)] .
  then have "vm_read_body X L b m = io_return (None, b2)"
    using assms(1,3,4) unat_word_small [OF assms(3)] by (simp add: vm_read_body_def Let_def)
  then show ?thesis using runs_prefix runs_return by metis
qed

lemma vm_pieces:
  assumes "body_ok L b" and "\<And>p. p \<in> set ps \<Longrightarrow> p \<noteq> [] \<and> length p \<le> 8192"
  shows "\<exists>b' out. sends (vm_write_pieces X R L b ps) out b' \<and> reads_back (vm_read_chunk X L) b out ps b' \<and> body_ok L b'"
  using assms
proof (induction ps arbitrary: b)
  case Nil
  then show ?case by (intro exI [of _ b] exI [of _ "[]"]) (simp add: sends_def runs_return)
next
  case (Cons p ps)
  have p: "p \<noteq> []" "length p \<le> 8192" using Cons.prems(2) by simp_all
  from frame_shape [OF Cons.prems(1) p(2), of X R] obtain padding b1 m b2 ct pad where
    f: "next_padding X b = (padding, b1)" "mask_size X (word_of_nat (length ct + padding)) b1 = (m, b2)"
    "length ct + padding \<le> 65535" "length ct = length p + overhead b2" "length pad = padding"
    "open_piece L ct b2 = Inr (p, b2\<lparr>bd_count := bd_count b2 + 1\<rparr>)"
    "sends (write_frame X R L b p) (be16 m @ ct @ pad) (b2\<lparr>bd_count := bd_count b2 + 1\<rparr>)"
    "body_ok L (b2\<lparr>bd_count := bd_count b2 + 1\<rparr>)" by blast
  obtain b' out where t: "sends (vm_write_pieces X R L (b2\<lparr>bd_count := bd_count b2 + 1\<rparr>) ps) out b'"
    "reads_back (vm_read_chunk X L) (b2\<lparr>bd_count := bd_count b2 + 1\<rparr>) out ps b'" "body_ok L b'"
    using Cons.IH [OF f(8)] Cons.prems(2) by auto
  have "sends (vm_write_pieces X R L b (p # ps)) ((be16 m @ ct @ pad) @ out) b'"
    unfolding vm_write_pieces.simps by (rule sends_bind [OF f(7)]) (rule t(1))
  moreover have "reads_back (vm_read_chunk X L) b ((be16 m @ ct @ pad) @ out) (p # ps) b'"
    using vm_read_frame [OF f(1-6) p(1)] t(2) unfolding reads_back.simps by blast
  ultimately show ?case using t(3) by blast
qed

interpretation vm: chunk_codec "vm_read_chunk X L" "vm_write_chunk X R L" "write_terminal X R L" "vm_in_step L" for X R L
proof unfold_locales
  fix w r and d :: bytes assume "vm_in_step L w r"
  then have ok: "body_ok L w" "r = w" by (simp_all add: vm_in_step_def)
  let ?n = "max (8192 - overhead w - 64) 1"
  have "p \<noteq> [] \<and> length p \<le> 8192" if "p \<in> set (chunks ?n d)" for p using chunks_bounds [OF that] by auto
  moreover have "concat (chunks ?n d) = d" "[] \<notin> set (chunks ?n d)" using concat_chunks [of ?n d] chunks_bounds [of "[]" ?n d] by auto
  ultimately show "\<exists>w' r' out ds. sends (vm_write_chunk X R L w d) out w' \<and>
      reads_back (vm_read_chunk X L) r out ds r' \<and> concat ds = d \<and> [] \<notin> set ds \<and> vm_in_step L w' r'"
    using vm_pieces [OF ok(1), of "chunks ?n d" X R] ok(2) unfolding vm_write_chunk_def vm_in_step_def by blast
next
  fix w r assume "vm_in_step L w r"
  then have ok: "body_ok L w" "r = w" by (simp_all add: vm_in_step_def)
  from frame_shape [OF ok(1), of "[]" X R] obtain padding b1 m b2 ct pad where
    f: "next_padding X w = (padding, b1)" "mask_size X (word_of_nat (length ct + padding)) b1 = (m, b2)"
    "length ct + padding \<le> 65535" "length ct = overhead b2"
    "sends (write_terminal X R L w) (be16 m @ ct @ pad) (b2\<lparr>bd_count := bd_count b2 + 1\<rparr>)"
    unfolding write_terminal_def by auto
  have "\<exists>r' c'. vm_read_chunk X L r c = (Done (None, r'), c') \<and> sent c' = sent c"
    if "delivers_then c (be16 m @ ct @ pad) (ROk [] # evs)" "write_outcomes c = []" for c evs
    using reads_silent [OF vm_read_terminal [OF f(1-4), of L] that] ok(2) by blast
  then show "\<exists>w' out. sends (write_terminal X R L w) out w' \<and>
      (\<forall>c evs. delivers_then c out (ROk [] # evs) \<longrightarrow> write_outcomes c = [] \<longrightarrow>
        (\<exists>r' c'. vm_read_chunk X L r c = (Done (None, r'), c') \<and> sent c' = sent c))"
    using f(5) by blast
qed

section \<open>Properties\<close>

text \<open>
  C23: A VMess relay carries both directions of a flow, with or without encryption, length masking and
  padding, for every interleaving. When the client has written the messages \<open>ms\<close>, its terminal chunk, and
  closed, the link receives exactly the bytes of \<open>ms\<close>, the client can decode exactly the bytes the link gave before
  the terminal chunk was seen, the counter grows by these amounts, and what the link gives \<open>later\<close> is dropped.
\<close>

theorem vmess_relay_transfers:
  assumes "body_ok L (fr_dec s)" and "body_ok L (fr_enc s)" and "writes_as (vm_write_chunk X R' L) (fr_dec s) ms wire w1"
    and "sends (write_terminal X R' L w1) fin w2" and "delivers_then (fr_conn s) (wire @ fin) (ROk [] # evs)"
    and "write_outcomes (fr_conn s) = []" and "tally_valid c (fr_stats s)"
  shows "\<exists>us. concat us = concat ms \<and> (\<forall>es later. transfers es \<longrightarrow> up_turns es = length us \<longrightarrow>
    (\<exists>s' out ds r'. relay_framed (vm_read_chunk X L) (vm_write_chunk X R L) (write_terminal X R L) c [] True
           (es @ FUp True # later) s = (Some (Inr ()), s') \<and>
       concat (fr_link s') = concat (fr_link s) @ concat ms \<and> sent (fr_conn s') = sent (fr_conn s) @ out \<and>
       reads_back (vm_read_chunk X L) (fr_enc s) out ds r' \<and> concat ds = down_data es \<and>
       tally c (fr_stats s') = map_option (\<lambda>(u, d). (u + word_of_nat (length (concat ms)),
          d + word_of_nat (length (down_data es)))) (tally c (fr_stats s))))"
proof -
  have step: "vm_in_step L (fr_dec s) (fr_dec s)" "vm_in_step L (fr_enc s) (fr_enc s)"
    using assms(1,2) by (simp_all add: vm_in_step_def)
  from vm.client_wire [OF step(1) assms(3,4)] obtain us d' where us: "concat us = concat ms" "[] \<notin> set us"
    "reads_back (vm_read_chunk X L) (fr_dec s) wire us d'"
    "\<forall>c evs. delivers_then c fin (ROk [] # evs) \<longrightarrow> write_outcomes c = [] \<longrightarrow>
      (\<exists>r' c'. vm_read_chunk X L d' c = (Done (None, r'), c') \<and> sent c' = sent c)" by blast
  show ?thesis
  proof (intro exI [of _ us] conjI allI impI us(1))
    fix es later assume "transfers es" "up_turns es = length us"
    with vm.framed_relay [OF us(3,2,4) step(2) assms(5,6,7), of _ R later] obtain s' out ds r' where
      "framed_run (vm_read_chunk X L) (vm_write_chunk X R L) (write_terminal X R L) c (es @ FUp True # later) s = (Some (Inr ()), s')"
      "relayed c s us (down_data es) s'" "sent (fr_conn s') = sent (fr_conn s) @ out"
      "reads_back (vm_read_chunk X L) (fr_enc s) out ds r'" "concat ds = down_data es" by blast
    then show "\<exists>s' out ds r'. relay_framed (vm_read_chunk X L) (vm_write_chunk X R L) (write_terminal X R L) c [] True
           (es @ FUp True # later) s = (Some (Inr ()), s') \<and>
       concat (fr_link s') = concat (fr_link s) @ concat ms \<and> sent (fr_conn s') = sent (fr_conn s) @ out \<and>
       reads_back (vm_read_chunk X L) (fr_enc s) out ds r' \<and> concat ds = down_data es \<and>
       tally c (fr_stats s') = map_option (\<lambda>(u, d). (u + word_of_nat (length (concat ms)),
          d + word_of_nat (length (down_data es)))) (tally c (fr_stats s))"
      using us(1) by (intro exI [of _ s'] exI [of _ out] exI [of _ ds] exI [of _ r']) (simp add: relayed_def relay_framed_def)
  qed
qed

definition sample_body :: body where
  "sample_body = body_new (Some \<lparr>ad_kind = Aes128Gcm, ad_key = replicate 16 0\<rparr>) (replicate 16 3) True True"

definition sample_xof :: xof where "sample_xof iv i = word_of_nat (i * 7 + 3)"

definition sample_vm_relay :: "bytes \<Rightarrow> (body, body) framed" where
  "sample_vm_relay wire = \<lparr>fr_conn = empty_conn ((if wire = [] then [] else [ROk wire]) @ [ROk []]), fr_dec = sample_body,
     fr_enc = sample_body, fr_link = [], fr_stats = stats_new\<rparr>"

lemma sample_body_ok: "body_ok sample_lib sample_body"
  by (simp add: body_ok_def sample_lib_laws sample_body_def body_new_def key_size_def nonce_size_def)

lemma vmess_relay_transfers_witness:
  "\<exists>wire us. concat us = ([1, 2] :: bytes) \<and> (\<forall>es later. transfers es \<longrightarrow> up_turns es = length us \<longrightarrow>
    (\<exists>s'. relay_framed (vm_read_chunk sample_xof sample_lib) (vm_write_chunk sample_xof (\<lambda>_ _. 0) sample_lib)
       (write_terminal sample_xof (\<lambda>_ _. 0) sample_lib) None [] True
       (es @ FUp True # later) (sample_vm_relay wire) = (Some (Inr ()), s') \<and> concat (fr_link s') = [1, 2]))"
proof -
  have s: "vm_in_step sample_lib sample_body sample_body" using sample_body_ok by (simp add: vm_in_step_def)
  from vm.writes_read [OF s, of sample_xof "\<lambda>_ _. 5" "[[1, 2]]"] obtain wire w1 where
    w: "writes_as (vm_write_chunk sample_xof (\<lambda>_ _. 5) sample_lib) sample_body [[1, 2]] wire w1" "vm_in_step sample_lib w1 w1"
    by (auto simp: vm_in_step_def)
  obtain fin w2 where f: "sends (write_terminal sample_xof (\<lambda>_ _. 5) sample_lib w1) fin w2" using vm.finish_end [OF w(2)] by blast
  let ?s = "sample_vm_relay (wire @ fin)"
  have d: "delivers_then (fr_conn ?s) (wire @ fin) (ROk [] # [])"
    by (auto simp: delivers_then_def sample_vm_relay_def empty_conn_def
        intro!: exI [of _ "if wire = [] \<and> fin = [] then [] else [wire @ fin]"])
  have e: "fr_dec ?s = sample_body" "fr_enc ?s = sample_body" "write_outcomes (fr_conn ?s) = []" "fr_link ?s = []"
    by (simp_all add: sample_vm_relay_def empty_conn_def)
  have "tally_valid None (fr_stats ?s)" by (simp add: tally_valid_def)
  from vmess_relay_transfers [where s = ?s, unfolded e, OF sample_body_ok sample_body_ok w(1) f d refl this, of "\<lambda>_ _. 0"]
  obtain us where "concat us = concat [[1, 2 :: byte]]" "\<forall>es later. transfers es \<longrightarrow> up_turns es = length us \<longrightarrow>
    (\<exists>s'. relay_framed (vm_read_chunk sample_xof sample_lib) (vm_write_chunk sample_xof (\<lambda>_ _. 0) sample_lib)
       (write_terminal sample_xof (\<lambda>_ _. 0) sample_lib) None [] True
       (es @ FUp True # later) ?s = (Some (Inr ()), s') \<and> concat (fr_link s') = concat [] @ concat [[1, 2]])" by blast
  then show ?thesis by (intro exI [of _ "wire @ fin"] exI [of _ us]) simp
qed

end
