(* ===== verification/VmessAuth.thy ===== *)
theory VmessAuth
  imports VmessBody Uuid
begin

text \<open>
  proxy/src/vmess/crypto.rs, proxy/src/vmess/user.rs and the replay filter and hot set of proxy/src/vmess.rs:
  VMess key derivation, the user table with its trial matching, and the state that decides whether an
  authentication ID is accepted. SHA-256, AES, CRC-32 and AES-GCM with associated data (crates sha2, aes,
  crc32fast, aes-gcm) are the fields of \<open>vmess_lib\<close>; a digest or block is a word of its size.
\<close>

record vmess_lib =
  vl_crypto :: crypto_lib
  vl_sha256 :: "bytes \<Rightarrow> 256 word"
  vl_aes_decrypt :: "bytes \<Rightarrow> bytes \<Rightarrow> 128 word"
  vl_crc32 :: "bytes \<Rightarrow> u32"
  vl_gcm_seal :: "bytes \<Rightarrow> bytes \<Rightarrow> bytes \<Rightarrow> bytes \<Rightarrow> bytes option"
  vl_gcm_open :: "bytes \<Rightarrow> bytes \<Rightarrow> bytes \<Rightarrow> bytes \<Rightarrow> bytes option"
  vl_shake :: xof

section \<open>Key derivation\<close>

definition MAGIC :: bytes where "MAGIC = bytes_of_string ''c48619fe-8f02-49e0-b9e9-edf763e17e21''"
definition KDF_SALT :: bytes where "KDF_SALT = bytes_of_string ''VMess AEAD KDF''"
definition SALT_AUTHID :: bytes where "SALT_AUTHID = bytes_of_string ''AES Auth ID Encryption''"
definition SALT_HDR_LEN_KEY :: bytes where "SALT_HDR_LEN_KEY = bytes_of_string ''VMess Header AEAD Key_Length''"
definition SALT_HDR_LEN_IV :: bytes where "SALT_HDR_LEN_IV = bytes_of_string ''VMess Header AEAD Nonce_Length''"
definition SALT_HDR_KEY :: bytes where "SALT_HDR_KEY = bytes_of_string ''VMess Header AEAD Key''"
definition SALT_HDR_IV :: bytes where "SALT_HDR_IV = bytes_of_string ''VMess Header AEAD Nonce''"
definition SALT_RESP_LEN_KEY :: bytes where "SALT_RESP_LEN_KEY = bytes_of_string ''AEAD Resp Header Len Key''"
definition SALT_RESP_LEN_IV :: bytes where "SALT_RESP_LEN_IV = bytes_of_string ''AEAD Resp Header Len IV''"
definition SALT_RESP_KEY :: bytes where "SALT_RESP_KEY = bytes_of_string ''AEAD Resp Header Key''"
definition SALT_RESP_IV :: bytes where "SALT_RESP_IV = bytes_of_string ''AEAD Resp Header IV''"

definition md5_16 :: "vmess_lib \<Rightarrow> bytes \<Rightarrow> bytes" where
  "md5_16 V data = digest_bytes (lib_md5 (vl_crypto V) data)"

definition fnv1a :: "bytes \<Rightarrow> u32" where
  "fnv1a data = foldl (\<lambda>h b. (h XOR ucast b) * 0x01000193) 0x811c9dc5 data"

definition cmd_key :: "vmess_lib \<Rightarrow> uuid \<Rightarrow> bytes" where
  "cmd_key V u = md5_16 V (u @ MAGIC)"

definition chacha_key :: "vmess_lib \<Rightarrow> bytes \<Rightarrow> bytes" where
  "chacha_key V k = (let a = md5_16 V k in a @ md5_16 V a)"

definition sha256 :: "vmess_lib \<Rightarrow> bytes \<Rightarrow> bytes" where
  "sha256 V data = be_bytes 32 (unat (vl_sha256 V data))"

definition hmac_with :: "vmess_lib \<Rightarrow> bytes \<Rightarrow> bytes \<Rightarrow> (bytes \<Rightarrow> bytes) \<Rightarrow> bytes" where
  "hmac_with V key msg hash =
     (let k = (if 64 < length key then sha256 V key @ replicate 32 0 else key @ replicate (64 - length key) 0);
          ipad = map (\<lambda>x. 0x36 XOR x) k;
          opad = map (\<lambda>x. 0x5c XOR x) k
      in hash (opad @ hash (ipad @ msg)))"

definition hmac_sha256 :: "vmess_lib \<Rightarrow> bytes \<Rightarrow> bytes \<Rightarrow> bytes" where
  "hmac_sha256 V key msg = hmac_with V key msg (sha256 V)"

fun kdf_level :: "vmess_lib \<Rightarrow> bytes list \<Rightarrow> nat \<Rightarrow> bytes \<Rightarrow> bytes" where
  "kdf_level V keys 0 msg = (case keys of [] \<Rightarrow> sha256 V msg | key # _ \<Rightarrow> hmac_sha256 V key msg)"
| "kdf_level V keys (Suc l) msg =
     (if Suc l < length keys then hmac_with V (keys ! Suc l) msg (kdf_level V keys l) else sha256 V msg)"

definition kdf :: "vmess_lib \<Rightarrow> bytes \<Rightarrow> bytes list \<Rightarrow> bytes" where
  "kdf V key paths = kdf_level V (KDF_SALT # paths) (length paths) key"

definition kdf16 :: "vmess_lib \<Rightarrow> bytes \<Rightarrow> bytes list \<Rightarrow> bytes" where
  "kdf16 V key paths = take 16 (kdf V key paths)"

definition aes128gcm_open :: "vmess_lib \<Rightarrow> bytes \<Rightarrow> bytes \<Rightarrow> bytes \<Rightarrow> bytes \<Rightarrow> bytes io_result" where
  "aes128gcm_open V key nonce ct aad =
     (if length key \<noteq> 16 then Inl (IoMsg KindOther ''gcm key'')
      else ok_or (vl_gcm_open V key nonce ct aad) (IoMsg InvalidData ''vmess header open''))"

definition aes128gcm_seal :: "vmess_lib \<Rightarrow> bytes \<Rightarrow> bytes \<Rightarrow> bytes \<Rightarrow> bytes \<Rightarrow> bytes io_result" where
  "aes128gcm_seal V key nonce pt aad =
     (if length key \<noteq> 16 then Inl (IoMsg KindOther ''gcm key'')
      else ok_or (vl_gcm_seal V key nonce pt aad) (IoMsg KindOther ''vmess header seal''))"

section \<open>Users\<close>

record vmess_user =
  vu_cmd_key :: bytes
  vu_authid_key :: bytes
  vu_email :: string
  vu_level :: u32

datatype vmess_auth_kind = Active | Fallback

record vmess_auth =
  va_index :: nat
  va_cmd_key :: bytes
  va_email :: string
  va_kind :: vmess_auth_kind

fun vmess_users_new :: "vmess_lib \<Rightarrow> (uuid \<times> string \<times> u32) list \<Rightarrow> vmess_user list result" where
  "vmess_users_new V [] = Inr []"
| "vmess_users_new V ((u, email, lvl) # us) =
     (let ck = cmd_key V u; k = kdf16 V ck [SALT_AUTHID] in
      if length k \<noteq> 16 then Inl (Crypto ''aes key'')
      else rbind (vmess_users_new V us) (\<lambda>out.
        Inr (\<lparr>vu_cmd_key = ck, vu_authid_key = k, vu_email = email, vu_level = lvl\<rparr> # out)))"

definition authid_plain :: "vmess_lib \<Rightarrow> vmess_user \<Rightarrow> bytes \<Rightarrow> bytes" where
  "authid_plain V user authid = be_bytes 16 (unat (vl_aes_decrypt V (vu_authid_key user) authid))"

definition match_one :: "vmess_lib \<Rightarrow> nat \<Rightarrow> vmess_user \<Rightarrow> bytes \<Rightarrow> int \<Rightarrow> vmess_auth_kind \<Rightarrow> vmess_auth option" where
  "match_one V index user authid now kd =
     (let plain = authid_plain V user authid in
      if word_of_be (drop 12 plain) \<noteq> vl_crc32 V (take 12 plain) then None
      else let t = sint (word_of_be (take 8 plain) :: 64 word) in
        if t < 0 \<or> 120 < \<bar>now - t\<bar> then None
        else Some \<lparr>va_index = index, va_cmd_key = vu_cmd_key user, va_email = vu_email user, va_kind = kd\<rparr>)"

type_synonym tried_set = "bool list option"

definition tried_new :: "bool \<Rightarrow> nat \<Rightarrow> tried_set" where
  "tried_new track len = (if track then Some (replicate len False) else None)"

definition tried_mark :: "nat \<Rightarrow> tried_set \<Rightarrow> tried_set" where
  "tried_mark i t = map_option (\<lambda>slots. if i < length slots then slots[i := True] else slots) t"

definition tried_contains :: "tried_set \<Rightarrow> nat \<Rightarrow> bool" where
  "tried_contains t i = (case t of Some slots \<Rightarrow> i < length slots \<and> slots ! i | None \<Rightarrow> False)"

fun match_active ::
  "vmess_lib \<Rightarrow> vmess_user list \<Rightarrow> bytes \<Rightarrow> int \<Rightarrow> tried_set \<Rightarrow> nat list \<Rightarrow> vmess_auth option \<times> tried_set" where
  "match_active V us authid now tried [] = (None, tried)"
| "match_active V us authid now tried (index # is) =
     (if tried_contains tried index then match_active V us authid now tried is
      else if length us \<le> index then match_active V us authid now tried is
      else let tried = tried_mark index tried in
        case match_one V index (us ! index) authid now Active of
          Some m \<Rightarrow> (Some m, tried)
        | None \<Rightarrow> match_active V us authid now tried is)"

fun match_fallback ::
  "vmess_lib \<Rightarrow> nat \<Rightarrow> vmess_user list \<Rightarrow> bytes \<Rightarrow> int \<Rightarrow> tried_set \<Rightarrow> vmess_auth option" where
  "match_fallback V index [] authid now tried = None"
| "match_fallback V index (user # us) authid now tried =
     (if tried_contains tried index then match_fallback V (Suc index) us authid now tried
      else case match_one V index user authid now Fallback of
          Some m \<Rightarrow> Some m
        | None \<Rightarrow> match_fallback V (Suc index) us authid now tried)"

definition match_user :: "vmess_lib \<Rightarrow> vmess_user list \<Rightarrow> bytes \<Rightarrow> int \<Rightarrow> nat list \<Rightarrow> vmess_auth option" where
  "match_user V us authid now hot =
     (case match_active V us authid now (tried_new (hot \<noteq> []) (length us)) hot of
        (Some m, _) \<Rightarrow> Some m
      | (None, tried) \<Rightarrow> match_fallback V 0 us authid now tried)"

section \<open>The replay filter\<close>

definition VMESS_ACTIVE_AUTH_MAX :: nat where "VMESS_ACTIVE_AUTH_MAX = 1024"
definition VMESS_AUTH_REPLAY_WINDOW_SECS :: nat where "VMESS_AUTH_REPLAY_WINDOW_SECS = 120"
definition VMESS_AUTH_REPLAY_MAX :: nat where "VMESS_AUTH_REPLAY_MAX = 65536"

record replay_filter =
  rf_seen :: "bytes set"
  rf_order :: "(bytes \<times> nat) list"

definition replay_new :: replay_filter where
  "replay_new = \<lparr>rf_seen = {}, rf_order = []\<rparr>"

primrec prune_loop :: "nat \<Rightarrow> bytes set \<Rightarrow> (bytes \<times> nat) list \<Rightarrow> replay_filter" where
  "prune_loop now seen [] = \<lparr>rf_seen = seen, rf_order = []\<rparr>"
| "prune_loop now seen (e # es) =
     (if now < snd e then \<lparr>rf_seen = seen, rf_order = e # es\<rparr> else prune_loop now (seen - {fst e}) es)"

definition prune :: "nat \<Rightarrow> replay_filter \<Rightarrow> replay_filter" where
  "prune now f = prune_loop now (rf_seen f) (rf_order f)"

text \<open>Times are \<open>u64\<close> seconds; adding the window saturates.\<close>

definition check_insert :: "bytes \<Rightarrow> nat \<Rightarrow> replay_filter \<Rightarrow> bool \<times> replay_filter" where
  "check_insert authid now f0 =
     (let f = prune now f0 in
      if authid \<in> rf_seen f \<or> VMESS_AUTH_REPLAY_MAX \<le> card (rf_seen f) then (False, f)
      else (True, \<lparr>rf_seen = insert authid (rf_seen f),
                   rf_order = rf_order f @ [(authid, min (now + VMESS_AUTH_REPLAY_WINDOW_SECS) (2 ^ 64 - 1))]\<rparr>))"

fun replay_run :: "(bytes \<times> nat) list \<Rightarrow> replay_filter \<Rightarrow> replay_filter" where
  "replay_run [] f = f"
| "replay_run ((a, now) # xs) f = replay_run xs (snd (check_insert a now f))"

text \<open>The list of recently seen users, most recent first.\<close>

definition remember_active_user :: "nat \<Rightarrow> nat list \<Rightarrow> nat list" where
  "remember_active_user index hot =
     (let a = (case position (\<lambda>i. i = index) hot of Some p \<Rightarrow> take p hot @ drop (Suc p) hot | None \<Rightarrow> hot);
          a = index # a
      in if VMESS_ACTIVE_AUTH_MAX < length a then butlast a else a)"

section \<open>Lemmas on the replay filter\<close>

definition replay_ok :: "replay_filter \<Rightarrow> bool" where
  "replay_ok f \<longleftrightarrow> rf_seen f = set (map fst (rf_order f)) \<and> distinct (map fst (rf_order f)) \<and>
     length (rf_order f) \<le> VMESS_AUTH_REPLAY_MAX"

lemma replay_new_ok: "replay_ok replay_new"
  by (simp add: replay_ok_def replay_new_def)

lemma prune_loop_ok:
  assumes "seen = set (map fst es)" and "distinct (map fst es)"
  shows "\<exists>k. rf_order (prune_loop now seen es) = drop k es \<and> rf_seen (prune_loop now seen es) = set (map fst (drop k es)) \<and>
    (\<forall>e \<in> set (take k es). snd e \<le> now)"
  using assms
proof (induction es arbitrary: seen)
  case Nil
  then show ?case by simp
next
  case (Cons e es)
  show ?case
  proof (cases "now < snd e")
    case True
    then show ?thesis using Cons.prems by (intro exI [of _ 0]) simp
  next
    case False
    have "seen - {fst e} = set (map fst es)" using Cons.prems by auto
    with Cons.IH [of "seen - {fst e}"] Cons.prems(2) obtain k where
      "rf_order (prune_loop now (seen - {fst e}) es) = drop k es"
      "rf_seen (prune_loop now (seen - {fst e}) es) = set (map fst (drop k es))" "\<forall>e \<in> set (take k es). snd e \<le> now" by auto
    then show ?thesis using False by (intro exI [of _ "Suc k"]) simp
  qed
qed

lemma prune_ok:
  assumes "replay_ok f"
  shows "replay_ok (prune now f)" and "(a, e) \<in> set (rf_order f) \<Longrightarrow> now < e \<Longrightarrow> (a, e) \<in> set (rf_order (prune now f))"
    and "set (rf_order (prune now f)) \<subseteq> set (rf_order f)"
proof -
  from prune_loop_ok [of "rf_seen f" "rf_order f" now] assms obtain k where
    k: "rf_order (prune now f) = drop k (rf_order f)" "rf_seen (prune now f) = set (map fst (drop k (rf_order f)))"
    "\<forall>e \<in> set (take k (rf_order f)). snd e \<le> now" by (auto simp: replay_ok_def prune_def)
  then show "replay_ok (prune now f)"
    using assms by (auto simp: replay_ok_def drop_map [symmetric] distinct_drop)
  show "(a, e) \<in> set (rf_order f) \<Longrightarrow> now < e \<Longrightarrow> (a, e) \<in> set (rf_order (prune now f))"
    using k(1,3) by (metis Un_iff append_take_drop_id not_le set_append snd_conv)
  show "set (rf_order (prune now f)) \<subseteq> set (rf_order f)" using k(1) by (simp add: set_drop_subset)
qed

lemma replay_card: "replay_ok f \<Longrightarrow> card (rf_seen f) = length (rf_order f)"
  by (metis distinct_card length_map replay_ok_def)

lemma check_insert_ok:
  assumes "replay_ok f"
  shows "replay_ok (snd (check_insert a now f))"
    and "(b, e) \<in> set (rf_order f) \<Longrightarrow> now < e \<Longrightarrow> (b, e) \<in> set (rf_order (snd (check_insert a now f)))"
proof -
  show "replay_ok (snd (check_insert a now f))"
    using prune_ok(1) [OF assms, of now] replay_card [OF prune_ok(1) [OF assms, of now]]
    by (auto simp: check_insert_def Let_def replay_ok_def)
  show "(b, e) \<in> set (rf_order f) \<Longrightarrow> now < e \<Longrightarrow> (b, e) \<in> set (rf_order (snd (check_insert a now f)))"
    using prune_ok(2) [OF assms] by (auto simp: check_insert_def Let_def)
qed

lemma replay_run_ok:
  assumes "replay_ok f"
  shows "replay_ok (replay_run xs f)"
    and "(b, e) \<in> set (rf_order f) \<Longrightarrow> (\<And>x. x \<in> set xs \<Longrightarrow> snd x < e) \<Longrightarrow> (b, e) \<in> set (rf_order (replay_run xs f))"
proof -
  show "replay_ok (replay_run xs f)" using assms by (induction xs f rule: replay_run.induct) (auto simp: check_insert_ok)
  show "(b, e) \<in> set (rf_order f) \<Longrightarrow> (\<And>x. x \<in> set xs \<Longrightarrow> snd x < e) \<Longrightarrow> (b, e) \<in> set (rf_order (replay_run xs f))"
    using assms
  proof (induction xs f rule: replay_run.induct)
    case (2 a now xs f)
    have "now < e" using 2(3) [of "(a, now)"] by simp
    then have "(b, e) \<in> set (rf_order (snd (check_insert a now f)))" using check_insert_ok(2) [OF 2(4) 2(2)] by simp
    then show ?case using 2(1,3) check_insert_ok(1) [OF 2(4)] by simp
  qed simp
qed

section \<open>Lemmas on matching\<close>

lemma match_one_kind: "match_one V i u authid now k = None \<longleftrightarrow> match_one V i u authid now k' = None"
  by (simp add: match_one_def Let_def)

text \<open>The users tried so far are users of the table that do not match.\<close>

definition tried_ok :: "vmess_lib \<Rightarrow> vmess_user list \<Rightarrow> bytes \<Rightarrow> int \<Rightarrow> tried_set \<Rightarrow> bool" where
  "tried_ok V us authid now tried \<longleftrightarrow>
     (\<forall>i. tried_contains tried i \<longrightarrow> i < length us \<and> match_one V i (us ! i) authid now Active = None)"

lemma tried_mark_ok:
  assumes "tried_ok V us authid now tried" and "i < length us" and "match_one V i (us ! i) authid now Active = None"
  shows "tried_ok V us authid now (tried_mark i tried)"
  using assms by (auto simp: tried_ok_def tried_contains_def tried_mark_def nth_list_update split: option.splits if_splits)

lemma match_active_spec:
  assumes "tried_ok V us authid now tried"
  shows "case find (\<lambda>i. i < length us \<and> match_one V i (us ! i) authid now Active \<noteq> None) hot of
      Some i \<Rightarrow> fst (match_active V us authid now tried hot) = match_one V i (us ! i) authid now Active
    | None \<Rightarrow> fst (match_active V us authid now tried hot) = None \<and> tried_ok V us authid now (snd (match_active V us authid now tried hot))"
  using assms
proof (induction hot arbitrary: tried)
  case Nil
  then show ?case by simp
next
  case (Cons i hot)
  show ?case
  proof (cases "i < length us \<and> match_one V i (us ! i) authid now Active \<noteq> None")
    case True
    moreover have "\<not> tried_contains tried i" using True Cons.prems by (auto simp: tried_ok_def)
    ultimately show ?thesis by (auto simp: Let_def split: option.splits)
  next
    case False
    note skip = Cons.IH [OF Cons.prems]
    show ?thesis
    proof (cases "tried_contains tried i \<or> length us \<le> i")
      case True
      then show ?thesis using skip False by (auto split: option.splits)
    next
      case new: False
      then have "tried_ok V us authid now (tried_mark i tried)" using tried_mark_ok [OF Cons.prems] False by simp
      from Cons.IH [OF this] show ?thesis using False new by (auto simp: Let_def split: option.splits)
    qed
  qed
qed

lemma match_fallback_spec:
  assumes "tried_ok V us authid now tried" and "k \<le> length us"
  shows "match_fallback V k (drop k us) authid now tried =
    (case find (\<lambda>i. match_one V i (us ! i) authid now Fallback \<noteq> None) [k..<length us] of
       Some i \<Rightarrow> match_one V i (us ! i) authid now Fallback | None \<Rightarrow> None)"
  using assms(2)
proof (induction "length us - k" arbitrary: k)
  case 0
  then show ?case by simp
next
  case (Suc n)
  then have k: "k < length us" by simp
  have IH: "match_fallback V (Suc k) (drop (Suc k) us) authid now tried =
    (case find (\<lambda>i. match_one V i (us ! i) authid now Fallback \<noteq> None) [Suc k..<length us] of
       Some i \<Rightarrow> match_one V i (us ! i) authid now Fallback | None \<Rightarrow> None)"
    using Suc.hyps(1) [of "Suc k"] Suc.hyps(2) k by simp
  have "tried_contains tried k \<Longrightarrow> match_one V k (us ! k) authid now Fallback = None"
    using assms(1) match_one_kind [of V k "us ! k" authid now Active Fallback] by (auto simp: tried_ok_def)
  then show ?case using IH k by (auto simp: Cons_nth_drop_Suc [symmetric] upt_conv_Cons split: option.splits)
qed

lemma match_user_search:
  "match_user V us authid now hot =
    (case find (\<lambda>i. i < length us \<and> match_one V i (us ! i) authid now Active \<noteq> None) hot of
       Some i \<Rightarrow> match_one V i (us ! i) authid now Active
     | None \<Rightarrow> (case find (\<lambda>i. match_one V i (us ! i) authid now Fallback \<noteq> None) [0..<length us] of
         Some i \<Rightarrow> match_one V i (us ! i) authid now Fallback
       | None \<Rightarrow> None))"
proof -
  let ?t = "tried_new (hot \<noteq> []) (length us)"
  have "tried_ok V us authid now ?t" by (auto simp: tried_ok_def tried_contains_def tried_new_def split: if_splits)
  note a = match_active_spec [OF this, of hot]
  obtain r t where r: "match_active V us authid now ?t hot = (r, t)" by fastforce
  show ?thesis
  proof (cases "find (\<lambda>i. i < length us \<and> match_one V i (us ! i) authid now Active \<noteq> None) hot")
    case None
    then show ?thesis using a r match_fallback_spec [of V us authid now t 0] by (simp add: match_user_def)
  next
    case (Some i)
    then have "match_one V i (us ! i) authid now Active \<noteq> None" by (auto simp: find_Some_iff)
    then show ?thesis using a r Some by (auto simp: match_user_def)
  qed
qed

lemma match_user_None:
  "match_user V us authid now hot = None \<longleftrightarrow> (\<forall>i < length us. match_one V i (us ! i) authid now Active = None)"
proof -
  have k: "match_one V i u authid now Fallback = None \<longleftrightarrow> match_one V i u authid now Active = None" for i u
    by (rule match_one_kind)
  show ?thesis
    unfolding match_user_search k by (auto simp: find_Some_iff find_None_iff k split: option.splits)
qed

section \<open>Properties\<close>

text \<open>
  C24: Matching an authentication ID with the list of recently seen users, which skips whoever was tried
  already, gives the same as the plain search: the first of the recent users that matches, and when there
  is none, the first user of the table that matches. In particular somebody is found exactly when some user
  of the table matches.
\<close>

theorem vmess_match_spec:
  "match_user V us authid now hot =
    (case find (\<lambda>i. i < length us \<and> match_one V i (us ! i) authid now Active \<noteq> None) hot of
       Some i \<Rightarrow> match_one V i (us ! i) authid now Active
     | None \<Rightarrow> (case find (\<lambda>i. match_one V i (us ! i) authid now Fallback \<noteq> None) [0..<length us] of
         Some i \<Rightarrow> match_one V i (us ! i) authid now Fallback
       | None \<Rightarrow> None)) \<and>
   (match_user V us authid now hot = None \<longleftrightarrow> \<not> (\<exists>i < length us. match_one V i (us ! i) authid now Active \<noteq> None))"
  using match_user_search match_user_None by simp

text \<open>
  C25: The replay filter keeps its set and its queue consistent and bounded, and for as long as an accepted
  authentication ID has not expired it refuses that ID: whatever is presented in between, in whatever order
  of times before the expiry, the ID is not accepted again.
\<close>

theorem replay_rejected:
  assumes "replay_ok f" and "check_insert a t f = (True, f1)" and "t + 120 < 2 ^ 64"
    and "\<And>x. x \<in> set xs \<Longrightarrow> snd x < t + 120" and "t' < t + 120"
  shows "\<not> fst (check_insert a t' (replay_run xs f1)) \<and> replay_ok (replay_run xs f1) \<and>
    card (rf_seen (replay_run xs f1)) \<le> VMESS_AUTH_REPLAY_MAX"
proof -
  have f1: "replay_ok f1" "(a, t + 120) \<in> set (rf_order f1)"
    using check_insert_ok(1) [OF assms(1), of a t] assms(2,3)
    by (auto simp: check_insert_def Let_def VMESS_AUTH_REPLAY_WINDOW_SECS_def min_def split: if_splits)
  have r: "replay_ok (replay_run xs f1)" "(a, t + 120) \<in> set (rf_order (replay_run xs f1))"
    using replay_run_ok(1) [OF f1(1)] replay_run_ok(2) [OF f1(1,2)] assms(4) by auto
  then have "(a, t + 120) \<in> set (rf_order (prune t' (replay_run xs f1)))" using prune_ok(2) assms(5) by simp
  then have "a \<in> rf_seen (prune t' (replay_run xs f1))" using prune_ok(1) [OF r(1), of t'] by (force simp: replay_ok_def)
  moreover have "card (rf_seen (replay_run xs f1)) \<le> VMESS_AUTH_REPLAY_MAX"
    using replay_card [OF r(1)] r(1) by (simp add: replay_ok_def)
  ultimately show ?thesis using r(1) by (simp add: check_insert_def Let_def)
qed

lemma replay_rejected_witness:
  "\<not> fst (check_insert [7] 1100 (replay_run [([8], 1050)] (snd (check_insert [7] 1000 replay_new))))"
proof -
  have "check_insert [7] 1000 replay_new = (True, snd (check_insert [7] 1000 replay_new))"
    by (simp add: check_insert_def replay_new_def prune_def Let_def VMESS_AUTH_REPLAY_MAX_def)
  from replay_rejected [OF replay_new_ok this, of "[([8], 1050)]" 1100] show ?thesis by simp
qed

text \<open>
  C26: The filter forgets an authentication ID before the ID itself expires. An ID stamped \<open>t\<close> is accepted
  from \<open>120\<close> seconds before \<open>t\<close> to \<open>120\<close> seconds after it, but the filter keeps it for \<open>120\<close> seconds: when it
  is presented early, the same bytes are accepted a second time.
\<close>

theorem vmess_replay_window:
  assumes "i < length us" and "match_one V i (us ! i) authid (int t) k = Some m" and "120 \<le> t0"
    and "t0 = nat (sint (word_of_be (take 8 (authid_plain V (us ! i) authid)) :: 64 word))"
  shows "match_user V us authid (int (t0 - 120)) hot \<noteq> None \<and> match_user V us authid (int t0) hot \<noteq> None \<and>
    (let (b, f) = check_insert authid (t0 - 120) replay_new in b \<and> fst (check_insert authid t0 f))"
proof -
  have "sint (word_of_be (take 8 (authid_plain V (us ! i) authid)) :: 64 word) = int t0"
    using assms(2,4) by (auto simp: match_one_def Let_def split: if_splits)
  then have m: "match_one V i (us ! i) authid (int n) k' \<noteq> None" if "n = t0 - 120 \<or> n = t0" for n k'
    using that assms(2,3) by (auto simp: match_one_def Let_def split: if_splits)
  then have found: "match_user V us authid (int n) hot \<noteq> None" if "n = t0 - 120 \<or> n = t0" for n
    using that assms(1) unfolding match_user_None by blast
  have "fst (check_insert authid (t0 - 120) replay_new)"
    "fst (check_insert authid t0 (snd (check_insert authid (t0 - 120) replay_new)))"
    using assms(3) by (auto simp: check_insert_def replay_new_def prune_def Let_def VMESS_AUTH_REPLAY_MAX_def
        VMESS_AUTH_REPLAY_WINDOW_SECS_def min_def)
  then show ?thesis using found by (auto simp: Let_def split: prod.splits)
qed

text \<open>For examples: a block cipher that leaves the block alone and a checksum that is zero.\<close>

definition sample_vmess_lib :: vmess_lib where
  "sample_vmess_lib = \<lparr>vl_crypto = sample_lib, vl_sha256 = (\<lambda>bs. word_of_nat (length bs)), vl_aes_decrypt = (\<lambda>_ b. word_of_be b),
     vl_crc32 = (\<lambda>_. 0), vl_gcm_seal = (\<lambda>_ _ p _. Some (p @ replicate 16 0)),
     vl_gcm_open = (\<lambda>_ _ c _. if 16 \<le> length c then Some (take (length c - 16) c) else None), vl_shake = sample_xof\<rparr>"

definition sample_vmess_user :: vmess_user where
  "sample_vmess_user = \<lparr>vu_cmd_key = replicate 16 1, vu_authid_key = replicate 16 2, vu_email = ''u'', vu_level = 0\<rparr>"

definition sample_authid :: bytes where
  "sample_authid = be_bytes 8 1000 @ replicate 8 0"

lemma vmess_replay_window_witness:
  "match_user sample_vmess_lib [sample_vmess_user] sample_authid 880 [] \<noteq> None \<and>
   match_user sample_vmess_lib [sample_vmess_user] sample_authid 1000 [] \<noteq> None \<and>
   (let (b, f) = check_insert sample_authid 880 replay_new in b \<and> fst (check_insert sample_authid 1000 f))"
proof -
  have t: "1000 = nat (sint (word_of_be (take 8 (authid_plain sample_vmess_lib ([sample_vmess_user] ! 0) sample_authid)) :: 64 word))"
    by code_simp
  have "match_one sample_vmess_lib 0 sample_vmess_user sample_authid 1000 Active \<noteq> None" by code_simp
  then obtain m where "match_one sample_vmess_lib 0 ([sample_vmess_user] ! 0) sample_authid (int 1000) Active = Some m" by auto
  from vmess_replay_window [OF _ this _ t, of "[]"] show ?thesis by simp
qed

end
