(* ===== verification/Vmess.thy ===== *)
theory Vmess
  imports VmessAuth Mux
begin

text \<open>
  proxy/src/vmess/header.rs and the handler of proxy/src/vmess.rs: the request header, the handshake, the
  response header and the codecs of the two directions. The clock readings of a handshake are arguments
  (in seconds, one for the user match and one for the replay filter); the limiter of concurrent trial
  decryptions only delays and is left out.
\<close>

section \<open>The request header\<close>

definition CMD_TCP :: byte where "CMD_TCP = 1"
definition CMD_UDP :: byte where "CMD_UDP = 2"
definition CMD_MUX :: byte where "CMD_MUX = 3"

record request =
  rq_dest :: destination
  rq_key :: bytes
  rq_iv :: bytes
  rq_resp_header :: byte
  rq_option :: byte
  rq_security :: byte
  rq_mux :: bool
  rq_email :: string

definition parse_header :: "bytes \<Rightarrow> request result" where
  "parse_header header =
     (if length header < 38 then Inl (Protocol ''vmess header short'')
      else if fnv1a (take (length header - 4) header) \<noteq> word_of_be (drop (length header - 4) header) then Inl Auth
      else if header ! 0 \<noteq> 1 then Inl (Protocol ''vmess version'')
      else
        let req = (\<lambda>dest mux. \<lparr>rq_dest = dest, rq_key = take 16 (drop 17 header), rq_iv = take 16 (drop 1 header),
                     rq_resp_header = header ! 33, rq_option = header ! 34, rq_security = header ! 35 AND 0x0F,
                     rq_mux = mux, rq_email = []\<rparr>);
            cmd = header ! 37;
            addressed = (\<lambda>nw. rbind (codec_read VMESS (drop 38 header)) (\<lambda>((a, p), _).
                          Inr (req \<lparr>network = nw, address = a, port = p\<rparr> False)))
        in if cmd = CMD_MUX then Inr (req (dest_tcp (Ip (V4 0x7F000001)) 0) True)
           else if cmd = CMD_TCP then addressed Tcp
           else if cmd = CMD_UDP then addressed Udp
           else Inl (Protocol ''vmess command''))"

section \<open>The handler's state\<close>

record vmess =
  vm_users :: "vmess_user list"
  vm_active :: "nat list"
  vm_replay :: replay_filter
  vm_active_hits :: u64
  vm_fallback_hits :: u64
  vm_failures :: u64

definition vmess_new :: "vmess_user list \<Rightarrow> vmess" where
  "vmess_new us = \<lparr>vm_users = us, vm_active = [], vm_replay = replay_new,
     vm_active_hits = 0, vm_fallback_hits = 0, vm_failures = 0\<rparr>"

definition vmess_set_users :: "vmess_user list \<Rightarrow> vmess \<Rightarrow> vmess" where
  "vmess_set_users us v = v\<lparr>vm_users := us, vm_active := []\<rparr>"

definition record_auth_hit :: "vmess_auth_kind \<Rightarrow> vmess \<Rightarrow> vmess" where
  "record_auth_hit k v = (case k of
     Active \<Rightarrow> v\<lparr>vm_active_hits := vm_active_hits v + 1\<rparr>
   | Fallback \<Rightarrow> v\<lparr>vm_fallback_hits := vm_fallback_hits v + 1\<rparr>)"

definition auth_failed :: "vmess \<Rightarrow> vmess" where
  "auth_failed v = v\<lparr>vm_failures := vm_failures v + 1\<rparr>"

text \<open>Whether an authentication ID is admitted, with the state after the decision.\<close>

definition vmess_admit :: "vmess_lib \<Rightarrow> int \<Rightarrow> nat \<Rightarrow> bytes \<Rightarrow> vmess \<Rightarrow> vmess_auth io_result \<times> vmess" where
  "vmess_admit V now now_secs authid v =
     (case match_user V (vm_users v) authid now (vm_active v) of
        None \<Rightarrow> (Inl (IoMsg InvalidData ''vmess auth''), auth_failed v)
      | Some m \<Rightarrow> (case check_insert authid now_secs (vm_replay v) of
          (False, f) \<Rightarrow> (Inl (IoMsg InvalidData ''vmess replay''), auth_failed (v\<lparr>vm_replay := f\<rparr>))
        | (True, f) \<Rightarrow>
            (Inr m, (record_auth_hit (va_kind m) (v\<lparr>vm_replay := f\<rparr>))
               \<lparr>vm_active := remember_active_user (va_index m) (vm_active v)\<rparr>)))"

definition vmess_header :: "vmess_lib \<Rightarrow> bytes \<Rightarrow> vmess_auth \<Rightarrow> request io" where
  "vmess_header V authid m =
     io_bind (io_read 18) (\<lambda>lenct.
     io_bind (io_read 8) (\<lambda>nonce.
     io_bind (io_lift (aes128gcm_open V (kdf16 V (va_cmd_key m) [SALT_HDR_LEN_KEY, authid, nonce])
        (take 12 (kdf V (va_cmd_key m) [SALT_HDR_LEN_IV, authid, nonce])) lenct authid)) (\<lambda>len_plain.
     if length len_plain < 2 then io_fail (IoMsg InvalidData ''vmess hdr len'')
     else
       io_bind (io_read (unat (word_of_be (take 2 len_plain) :: u16) + 16)) (\<lambda>payct.
       io_bind (io_lift (aes128gcm_open V (kdf16 V (va_cmd_key m) [SALT_HDR_KEY, authid, nonce])
          (take 12 (kdf V (va_cmd_key m) [SALT_HDR_IV, authid, nonce])) payct authid)) (\<lambda>header.
       io_bind (io_lift (map_err (IoWrap InvalidData) (parse_header header))) (\<lambda>req.
       io_return (req\<lparr>rq_email := va_email m\<rparr>)))))))"

definition vmess_read_header ::
  "vmess_lib \<Rightarrow> int \<Rightarrow> nat \<Rightarrow> vmess \<Rightarrow> conn \<Rightarrow> request outcome \<times> conn \<times> vmess" where
  "vmess_read_header V now now_secs v c =
     (case io_read 16 c of
        (Blocked, c1) \<Rightarrow> (Blocked, c1, v)
      | (Fail e, c1) \<Rightarrow> (Fail e, c1, v)
      | (Done authid, c1) \<Rightarrow> (case vmess_admit V now now_secs authid v of
          (Inl e, v1) \<Rightarrow> (Fail e, c1, v1)
        | (Inr m, v1) \<Rightarrow> (case vmess_header V authid m c1 of (r, c2) \<Rightarrow> (r, c2, v1))))"

section \<open>The response and the codecs\<close>

definition response_keys :: "vmess_lib \<Rightarrow> request \<Rightarrow> bytes \<times> bytes" where
  "response_keys V req = (take 16 (sha256 V (rq_key req)), take 16 (sha256 V (rq_iv req)))"

definition write_response_header :: "vmess_lib \<Rightarrow> bytes \<Rightarrow> bytes \<Rightarrow> byte \<Rightarrow> unit io" where
  "write_response_header V resp_key resp_iv resp_header =
     io_bind (io_lift (aes128gcm_seal V (kdf16 V resp_key [SALT_RESP_LEN_KEY]) (take 12 (kdf V resp_iv [SALT_RESP_LEN_IV]))
        (be16 4) [])) (\<lambda>sealed_len.
     io_bind (io_lift (aes128gcm_seal V (kdf16 V resp_key [SALT_RESP_KEY]) (take 12 (kdf V resp_iv [SALT_RESP_IV]))
        [resp_header, 0, 0, 0] [])) (\<lambda>sealed_pay.
     io_bind (io_write sealed_len) (\<lambda>_. io_write sealed_pay)))"

definition SEC_AES128_GCM :: byte where "SEC_AES128_GCM = 3"
definition SEC_CHACHA20 :: byte where "SEC_CHACHA20 = 4"
definition SEC_NONE :: byte where "SEC_NONE = 5"
definition OPT_CHUNK_MASKING :: byte where "OPT_CHUNK_MASKING = 4"
definition OPT_GLOBAL_PADDING :: byte where "OPT_GLOBAL_PADDING = 8"

definition body_aead :: "vmess_lib \<Rightarrow> byte \<Rightarrow> bytes \<Rightarrow> aead option io_result" where
  "body_aead V security key =
     (if security = SEC_AES128_GCM then map_err (IoWrap KindOther) (map_sum id Some (aead_new Aes128Gcm key))
      else if security = SEC_CHACHA20 then map_err (IoWrap KindOther) (map_sum id Some (aead_new ChaCha20Poly1305 (chacha_key V key)))
      else if security = SEC_NONE then Inr None
      else Inl (IoMsg InvalidData ''vmess security''))"

definition body_codecs :: "vmess_lib \<Rightarrow> request \<Rightarrow> bytes \<Rightarrow> bytes \<Rightarrow> (body \<times> body) io_result" where
  "body_codecs V req resp_key resp_iv =
     (let masking = (rq_option req AND OPT_CHUNK_MASKING \<noteq> 0); padding = (rq_option req AND OPT_GLOBAL_PADDING \<noteq> 0) in
      rbind (body_aead V (rq_security req) (rq_key req)) (\<lambda>ua.
      rbind (body_aead V (rq_security req) resp_key) (\<lambda>da.
      Inr (body_new ua (rq_iv req) masking padding, body_new da resp_iv masking padding))))"

text \<open>
  What a handshake leads to: a flow for the router, fed by \<open>relay_framed\<close> with the two codecs, or a mux
  carrier, which the handler serves itself and then ends with a no-op decision.
\<close>

datatype vmess_flow = VmRoute proxy_decision body body | VmMux ctx body body

definition vmess_reply :: "vmess_lib \<Rightarrow> request \<Rightarrow> (body \<times> body) io" where
  "vmess_reply V req =
     (case response_keys V req of (resp_key, resp_iv) \<Rightarrow>
        io_bind (write_response_header V resp_key resp_iv (rq_resp_header req)) (\<lambda>_.
        io_lift (body_codecs V req resp_key resp_iv)))"

definition vmess_decode ::
  "vmess_lib \<Rightarrow> int \<Rightarrow> nat \<Rightarrow> stats option \<Rightarrow> ctx \<Rightarrow> vmess \<Rightarrow> conn \<Rightarrow> vmess_flow outcome \<times> conn \<times> stats option \<times> vmess" where
  "vmess_decode V now now_secs st cx v c =
     (case vmess_read_header V now now_secs v c of
        (Blocked, c1, v1) \<Rightarrow> (Fail (IoMsg TimedOut ''handshake timeout''), c1, st, v1)
      | (Fail e, c1, v1) \<Rightarrow> (Fail e, c1, st, v1)
      | (Done req, c1, v1) \<Rightarrow>
          (let cx' = with_user cx (rq_email req) (user_hash (bytes_of_string (rq_email req))) in
           case vmess_reply V req c1 of
             (Blocked, c2) \<Rightarrow> (Blocked, c2, st, v1)
           | (Fail e, c2) \<Rightarrow> (Fail e, c2, st, v1)
           | (Done (up_codec, down_codec), c2) \<Rightarrow>
               if rq_mux req then (Done (VmMux cx' up_codec down_codec), c2, st, v1)
               else if network (rq_dest req) = Udp
                 then (Fail (IoMsg Unsupported ''vmess udp-direct not supported''), c2, st, v1)
               else (case user_counter cx' st of (counter, st') \<Rightarrow>
                  (Done (VmRoute \<lparr>pd_target = rq_dest req, pd_ctx = cx', pd_link = RelayFramed counter []\<rparr> up_codec down_codec),
                   c2, st', v1))))"

section \<open>Lemmas\<close>

fun flow_ctx :: "vmess_flow \<Rightarrow> ctx" where
  "flow_ctx (VmRoute d _ _) = pd_ctx d"
| "flow_ctx (VmMux cx _ _) = cx"

lemma vmess_header_email: "vmess_header V authid m c = (Done req, c') \<Longrightarrow> rq_email req = va_email m"
  by (auto simp: vmess_header_def elim!: io_bind_Done split: if_splits)

lemma vmess_decode_Done:
  assumes "vmess_decode V now now_secs st cx v c = (Done flow, c', st', v')"
  shows "\<exists>authid c1 m. io_read 16 c = (Done authid, c1) \<and> vmess_admit V now now_secs authid v = (Inr m, v') \<and>
    user_email (flow_ctx flow) = Some (va_email m)"
proof -
  obtain req c1 where h: "vmess_read_header V now now_secs v c = (Done req, c1, v')"
    and f: "user_email (flow_ctx flow) = Some (rq_email req)"
    using assms by (auto simp: vmess_decode_def Let_def with_user_def split: prod.splits outcome.splits if_splits)
  obtain authid c2 m where a: "io_read 16 c = (Done authid, c2)" "vmess_admit V now now_secs authid v = (Inr m, v')"
    "vmess_header V authid m c2 = (Done req, c1)"
    using h by (auto simp: vmess_read_header_def split: prod.splits outcome.splits sum.splits)
  then show ?thesis using f vmess_header_email by auto
qed

lemma vmess_admit_ok:
  assumes "vmess_admit V now now_secs authid v = (Inr m, v')"
  shows "match_user V (vm_users v) authid now (vm_active v) = Some m" "fst (check_insert authid now_secs (vm_replay v))"
    "vm_replay v' = snd (check_insert authid now_secs (vm_replay v))" "vm_users v' = vm_users v"
  using assms by (auto simp: vmess_admit_def record_auth_hit_def split: option.splits prod.splits bool.splits vmess_auth_kind.splits)

lemma match_user_Some:
  assumes "match_user V us authid now hot = Some m"
  shows "\<exists>i < length us. \<exists>k. match_one V i (us ! i) authid now k = Some m"
  using assms unfolding match_user_search by (auto simp: find_Some_iff split: option.splits) blast+

lemma length_sha256 [simp]: "length (sha256 V bs) = 32"
  by (simp add: sha256_def)

lemma length_kdf_level [simp]: "length (kdf_level V keys l msg) = 32"
  by (induction l arbitrary: msg) (auto simp: hmac_sha256_def hmac_with_def Let_def split: list.splits)

lemma length_kdf [simp]: "length (kdf V key paths) = 32" "length (kdf16 V key paths) = 16"
  by (simp_all add: kdf_def kdf16_def)

text \<open>What the crate documents of AES-GCM with associated data, for the sizes a handshake uses.\<close>

definition gcm_laws :: "vmess_lib \<Rightarrow> bool" where
  "gcm_laws V \<longleftrightarrow> (\<forall>key n p aad. length key = 16 \<longrightarrow> length n = 12 \<longrightarrow> length p \<le> 65535 \<longrightarrow>
     (\<exists>c. vl_gcm_seal V key n p aad = Some c \<and> length c = length p + 16 \<and> vl_gcm_open V key n c aad = Some p))"

lemma gcm_seal_open:
  assumes "gcm_laws V" and "length key = 16" and "length n = 12" and "length p \<le> 65535"
  obtains c where "aes128gcm_seal V key n p aad = Inr c" "length c = length p + 16" "aes128gcm_open V key n c aad = Inr p"
proof -
  obtain c where "vl_gcm_seal V key n p aad = Some c" "length c = length p + 16" "vl_gcm_open V key n c aad = Some p"
    using assms unfolding gcm_laws_def by blast
  then show thesis using assms(2) by (intro that [of c]) (simp_all add: aes128gcm_seal_def aes128gcm_open_def ok_or_def)
qed

text \<open>The request a client encodes, and the handshake it sends.\<close>

definition request_body :: "bytes \<Rightarrow> bytes \<Rightarrow> byte \<Rightarrow> byte \<Rightarrow> byte \<Rightarrow> byte \<Rightarrow> address \<Rightarrow> u16 \<Rightarrow> bytes \<Rightarrow> bytes" where
  "request_body iv key rh opt padsec rsv a p pad =
     1 # iv @ key @ [rh, opt, padsec, rsv, CMD_TCP] @ be16 p @ addr_wire VMESS a @ pad"

definition request_bytes :: "bytes \<Rightarrow> bytes" where
  "request_bytes body = body @ be32 (fnv1a body)"

definition seal_part :: "vmess_lib \<Rightarrow> bytes \<Rightarrow> bytes \<Rightarrow> bytes \<Rightarrow> bytes \<Rightarrow> bytes \<Rightarrow> bytes \<Rightarrow> bytes io_result" where
  "seal_part V ck key_salt iv_salt authid nonce p =
     aes128gcm_seal V (kdf16 V ck [key_salt, authid, nonce]) (take 12 (kdf V ck [iv_salt, authid, nonce])) p authid"

lemma parse_request:
  assumes "length iv = 16" and "length key = 16" and "canonical_addr a"
  shows "parse_header (request_bytes (request_body iv key rh opt padsec rsv a p pad)) =
    Inr \<lparr>rq_dest = dest_tcp a p, rq_key = key, rq_iv = iv, rq_resp_header = rh, rq_option = opt,
      rq_security = padsec AND 0x0F, rq_mux = False, rq_email = []\<rparr>"
proof -
  let ?b = "request_body iv key rh opt padsec rsv a p pad"
  have fixed: "?b = (1 # iv @ key @ [rh, opt, padsec, rsv, CMD_TCP]) @ be16 p @ addr_wire VMESS a @ pad" by (simp add: request_body_def)
  have len: "length (1 # iv @ key @ [rh, opt, padsec, rsv, CMD_TCP]) = 38" using assms by simp
  have nth: "?b ! 0 = 1" "?b ! 33 = rh" "?b ! 34 = opt" "?b ! 35 = padsec" "?b ! 37 = CMD_TCP"
    using assms by (simp_all add: request_body_def nth_append nth_Cons')
  have parts: "take 16 (drop 1 ?b) = iv" "take 16 (drop 17 ?b) = key" "drop 38 ?b = be16 p @ addr_wire VMESS a @ pad"
    using assms by (simp_all add: request_body_def drop_Cons')
  have l: "38 \<le> length ?b" using len by (simp add: fixed)
  let ?h = "request_bytes ?b"
  have h: "take (length ?h - 4) ?h = ?b" "drop (length ?h - 4) ?h = be32 (fnv1a ?b)" "\<not> length ?h < 38"
    "\<And>i. i < 38 \<Longrightarrow> ?h ! i = ?b ! i" using l by (simp_all add: request_bytes_def nth_append)
  have h': "take 16 (drop 1 ?h) = iv" "take 16 (drop 17 ?h) = key"
    "drop 38 ?h = (be16 p @ addr_wire VMESS a) @ pad @ be32 (fnv1a ?b)"
    using parts l by (simp_all add: request_bytes_def)
  have "codec_read VMESS ((be16 p @ addr_wire VMESS a) @ pad @ be32 (fnv1a ?b)) = Inr ((a, p), pad @ be32 (fnv1a ?b))"
    using codec_read_wire [OF assms(3), of VMESS p] by (simp add: VMESS_def VLESS_def)
  then show ?thesis using h h' nth
    by (simp add: parse_header_def Let_def rbind_def dest_tcp_def CMD_TCP_def CMD_MUX_def be32_def word_of_be_be_bytes)
qed

text \<open>The security values the body codec knows.\<close>

definition known_security :: "byte \<Rightarrow> bool" where
  "known_security s \<longleftrightarrow> s = SEC_AES128_GCM \<or> s = SEC_CHACHA20 \<or> s = SEC_NONE"

lemma body_aead_ok:
  assumes "known_security sec" and "length key = 16"
  obtains a where "body_aead V sec key = Inr a"
    "\<forall>x. a = Some x \<longrightarrow> length (ad_key x) = key_size (ad_kind x) \<and> nonce_size (ad_kind x) = 12"
proof -
  have l: "length (chacha_key V key) = 32" by (simp add: chacha_key_def md5_16_def Let_def)
  consider "sec = SEC_AES128_GCM" | "sec = SEC_CHACHA20" | "sec = SEC_NONE" using assms(1) by (auto simp: known_security_def)
  then show thesis
  proof cases
    case 1
    then show thesis using assms(2)
      by (intro that [of "Some \<lparr>ad_kind = Aes128Gcm, ad_key = key\<rparr>"])
         (simp_all add: body_aead_def map_err_def aead_new_def key_size_def nonce_size_def)
  next
    case 2
    then show thesis using l
      by (intro that [of "Some \<lparr>ad_kind = ChaCha20Poly1305, ad_key = chacha_key V key\<rparr>"])
         (simp_all add: body_aead_def map_err_def aead_new_def key_size_def nonce_size_def SEC_AES128_GCM_def SEC_CHACHA20_def)
  next
    case 3
    then show thesis
      by (intro that [of None]) (simp_all add: body_aead_def SEC_AES128_GCM_def SEC_CHACHA20_def SEC_NONE_def)
  qed
qed

lemma reply_sends:
  assumes "gcm_laws V" and "aead_laws (vl_crypto V)" and "known_security (rq_security req)"
    and "length (rq_key req) = 16" and "length (rq_iv req) = 16"
  shows "\<exists>out ub db. sends (vmess_reply V req) out (ub, db) \<and> body_ok (vl_crypto V) ub \<and> body_ok (vl_crypto V) db \<and> bd_iv ub = rq_iv req"
proof -
  obtain rk ri where r: "response_keys V req = (rk, ri)" "length rk = 16" "length ri = 16" by (simp add: response_keys_def)
  obtain sl where sl: "aes128gcm_seal V (kdf16 V rk [SALT_RESP_LEN_KEY]) (take 12 (kdf V ri [SALT_RESP_LEN_IV])) (be16 4) [] = Inr sl"
    using gcm_seal_open [OF assms(1), of "kdf16 V rk [SALT_RESP_LEN_KEY]" "take 12 (kdf V ri [SALT_RESP_LEN_IV])" "be16 4" "[]"] by auto
  obtain sp where sp: "aes128gcm_seal V (kdf16 V rk [SALT_RESP_KEY]) (take 12 (kdf V ri [SALT_RESP_IV])) [rq_resp_header req, 0, 0, 0] [] = Inr sp"
    using gcm_seal_open [OF assms(1), of "kdf16 V rk [SALT_RESP_KEY]" "take 12 (kdf V ri [SALT_RESP_IV])" "[rq_resp_header req, 0, 0, 0]" "[]"] by auto
  obtain ua where ua: "body_aead V (rq_security req) (rq_key req) = Inr ua"
    "\<forall>x. ua = Some x \<longrightarrow> length (ad_key x) = key_size (ad_kind x) \<and> nonce_size (ad_kind x) = 12"
    using body_aead_ok [OF assms(3,4)] by blast
  obtain da where da: "body_aead V (rq_security req) rk = Inr da"
    "\<forall>x. da = Some x \<longrightarrow> length (ad_key x) = key_size (ad_kind x) \<and> nonce_size (ad_kind x) = 12"
    using body_aead_ok [OF assms(3) r(2)] by blast
  obtain ub db where b: "body_codecs V req rk ri = Inr (ub, db)" "body_ok (vl_crypto V) ub" "body_ok (vl_crypto V) db" "bd_iv ub = rq_iv req"
    using ua da assms(2,5) r(3) by (simp add: body_codecs_def Let_def rbind_def body_ok_def body_new_def)
  have w: "write_response_header V rk ri (rq_resp_header req) = io_bind (io_write sl) (\<lambda>_. io_write sp)"
    using sl sp by (simp add: write_response_header_def io_bind_def io_return_def)
  have "sends (io_bind (io_write sl) (\<lambda>_. io_write sp)) (sl @ sp) ()" by (rule sends_bind [OF sends_write sends_write])
  then have "sends (vmess_reply V req) ((sl @ sp) @ []) (ub, db)"
    unfolding vmess_reply_def r(1) prod.case w by (rule sends_bind) (simp add: b(1) sends_return)
  then show ?thesis using b by blast
qed

lemma runs_vmess_header:
  assumes "gcm_laws V" and "length nonce = 8" and "length hdr \<le> 65535" and "parse_header hdr = Inr req"
    and "seal_part V (va_cmd_key m) SALT_HDR_LEN_KEY SALT_HDR_LEN_IV authid nonce (be16 (word_of_nat (length hdr))) = Inr lenct"
    and "seal_part V (va_cmd_key m) SALT_HDR_KEY SALT_HDR_IV authid nonce hdr = Inr payct"
  shows "runs (vmess_header V authid m) (lenct @ nonce @ payct @ rest) (req\<lparr>rq_email := va_email m\<rparr>) [] rest"
proof -
  have l: "length lenct = 18" "aes128gcm_open V (kdf16 V (va_cmd_key m) [SALT_HDR_LEN_KEY, authid, nonce])
      (take 12 (kdf V (va_cmd_key m) [SALT_HDR_LEN_IV, authid, nonce])) lenct authid = Inr (be16 (word_of_nat (length hdr)))"
    using assms(5) gcm_seal_open [OF assms(1), of "kdf16 V (va_cmd_key m) [SALT_HDR_LEN_KEY, authid, nonce]"
      "take 12 (kdf V (va_cmd_key m) [SALT_HDR_LEN_IV, authid, nonce])" "be16 (word_of_nat (length hdr))" authid]
    by (auto simp: seal_part_def)
  have p: "length payct = length hdr + 16" "aes128gcm_open V (kdf16 V (va_cmd_key m) [SALT_HDR_KEY, authid, nonce])
      (take 12 (kdf V (va_cmd_key m) [SALT_HDR_IV, authid, nonce])) payct authid = Inr hdr"
    using assms(6) gcm_seal_open [OF assms(1), of "kdf16 V (va_cmd_key m) [SALT_HDR_KEY, authid, nonce]"
      "take 12 (kdf V (va_cmd_key m) [SALT_HDR_IV, authid, nonce])" hdr authid] assms(3)
    by (auto simp: seal_part_def)
  have n: "unat (word_of_be (take 2 (be16 (word_of_nat (length hdr)))) :: u16) = length hdr"
    using assms(3) by (simp add: unat_word_small)
  show ?thesis unfolding vmess_header_def
    apply (rule runs_bind_silent [OF runs_read [OF l(1)]])
    apply (rule runs_bind_silent [OF runs_read [OF assms(2)]])
    apply (rule runs_bind_silent [OF runs_lift [OF l(2)]])
    apply (simp only: length_be16 less_irrefl if_False n)
    apply (rule runs_bind_silent [OF runs_read [OF p(1)]])
    apply (rule runs_bind_silent [OF runs_lift [OF p(2)]])
    by (simp add: assms(4) map_err_def io_bind_def io_return_def runs_def)
qed

definition sample_vmess :: vmess where
  "sample_vmess = vmess_new [sample_vmess_user]"

definition sample_request :: bytes where
  "sample_request = request_bytes (request_body (replicate 16 1) (replicate 16 2) 9 5 3 0 (Ip (V4 5)) 80 [])"

definition sample_vmess_conn :: conn where
  "sample_vmess_conn = empty_conn [ROk (sample_authid @ be16 (word_of_nat (length sample_request)) @ replicate 16 0),
     ROk (replicate 8 6 @ sample_request @ replicate 16 0)]"

lemma sample_gcm_laws: "gcm_laws sample_vmess_lib" "aead_laws (vl_crypto sample_vmess_lib)"
  using sample_lib_laws by (simp_all add: gcm_laws_def sample_vmess_lib_def)

lemma vmess_completes:
  assumes "gcm_laws V" and "aead_laws (vl_crypto V)" and "canonical_addr a" and "length authid = 16" and "length nonce = 8"
    and "length iv = 16" and "length key = 16" and "length pad \<le> 1000" and "known_security (padsec AND 0x0F)"
    and "match_user V (vm_users v) authid now (vm_active v) = Some m" and "fst (check_insert authid now_secs (vm_replay v))"
    and hdr: "hdr = request_bytes (request_body iv key rh opt padsec rsv a p pad)"
    and "seal_part V (va_cmd_key m) SALT_HDR_LEN_KEY SALT_HDR_LEN_IV authid nonce (be16 (word_of_nat (length hdr))) = Inr lenct"
    and "seal_part V (va_cmd_key m) SALT_HDR_KEY SALT_HDR_IV authid nonce hdr = Inr payct"
    and "delivers_then c (authid @ lenct @ nonce @ payct @ payload) evs" and "write_outcomes c = []"
  shows "\<exists>c' counter st' v' ub db. vmess_decode V now now_secs st cx v c =
      (Done (VmRoute \<lparr>pd_target = dest_tcp a p, pd_ctx = with_user cx (va_email m) (user_hash (bytes_of_string (va_email m))),
         pd_link = RelayFramed counter []\<rparr> ub db), c', st', v') \<and>
    delivers_then c' payload evs \<and> body_ok (vl_crypto V) ub \<and> body_ok (vl_crypto V) db \<and> bd_iv ub = iv"
proof -
  define req where "req = \<lparr>rq_dest = dest_tcp a p, rq_key = key, rq_iv = iv, rq_resp_header = rh, rq_option = opt,
      rq_security = padsec AND 0x0F, rq_mux = False, rq_email = va_email m\<rparr>"
  have parsed: "parse_header hdr = Inr (req\<lparr>rq_email := []\<rparr>)"
    using parse_request [OF assms(6,7,3)] by (simp add: hdr req_def)
  have "length (addr_wire VMESS a) \<le> 300" using assms(3)
    by (auto simp: addr_wire_def canonical_addr_def split: address.splits ip_addr.splits)
  then have len: "length hdr \<le> 65535" using assms(6,7,8) by (simp add: hdr request_bytes_def request_body_def)
  from runsD [OF runs_read [OF assms(4)] assms(15,16)] obtain c1 where c1: "io_read 16 c = (Done authid, c1)"
    "delivers_then c1 (lenct @ nonce @ payct @ payload) evs" "write_outcomes c1 = []" by auto
  obtain v1 where v1: "vmess_admit V now now_secs authid v = (Inr m, v1)"
    using assms(10,11) by (cases "check_insert authid now_secs (vm_replay v)") (simp add: vmess_admit_def)
  from runsD [OF runs_vmess_header [OF assms(1,5) len parsed assms(13,14)] c1(2,3)] obtain c2 where
    c2: "vmess_header V authid m c1 = (Done req, c2)" "delivers_then c2 payload evs" "write_outcomes c2 = []"
    by (auto simp: req_def)
  have "known_security (rq_security req)" "length (rq_key req) = 16" "length (rq_iv req) = 16" using assms(6,7,9) by (simp_all add: req_def)
  from reply_sends [OF assms(1,2) this] obtain out ub db where
    r: "sends (vmess_reply V req) out (ub, db)" "body_ok (vl_crypto V) ub" "body_ok (vl_crypto V) db" "bd_iv ub = rq_iv req" by blast
  have "runs (vmess_reply V req) payload (ub, db) out payload" using r(1) by (simp add: sends_def)
  from runsD [OF this c2(2,3)] obtain c3 where c3: "vmess_reply V req c2 = (Done (ub, db), c3)" "delivers_then c3 payload evs" by auto
  obtain counter st' where uc: "user_counter (with_user cx (va_email m) (user_hash (bytes_of_string (va_email m)))) st = (counter, st')"
    by fastforce
  have "vmess_read_header V now now_secs v c = (Done req, c2, v1)" using c1(1) v1 c2(1) by (simp add: vmess_read_header_def)
  then show ?thesis using c3 r uc by (simp add: vmess_decode_def Let_def req_def dest_tcp_def)
qed

lemma sample_vmess_facts:
  "canonical_addr (Ip (V4 5))" "length sample_authid = 16" "known_security (3 AND 0x0F)"
  "fst (check_insert sample_authid 1000 (vm_replay sample_vmess))"
  "seal_part sample_vmess_lib ck ks vs authid nonce p = Inr (p @ replicate 16 0)"
  "delivers_then sample_vmess_conn (sample_authid @ (be16 (word_of_nat (length sample_request)) @ replicate 16 0) @
      replicate 8 6 @ (sample_request @ replicate 16 0) @ []) []"
  "write_outcomes sample_vmess_conn = []"
proof -
  show "canonical_addr (Ip (V4 5))" "length sample_authid = 16" by (simp_all add: canonical_addr_def sample_authid_def)
  show "known_security (3 AND 0x0F)" "fst (check_insert sample_authid 1000 (vm_replay sample_vmess))" by code_simp+
  show "seal_part sample_vmess_lib ck ks vs authid nonce p = Inr (p @ replicate 16 0)"
    by (simp add: seal_part_def aes128gcm_seal_def ok_or_def sample_vmess_lib_def)
  show "delivers_then sample_vmess_conn (sample_authid @ (be16 (word_of_nat (length sample_request)) @ replicate 16 0) @
      replicate 8 6 @ (sample_request @ replicate 16 0) @ []) []"
    by (auto simp: delivers_then_def sample_vmess_conn_def empty_conn_def sample_authid_def
      intro!: exI [of _ "[sample_authid @ be16 (word_of_nat (length sample_request)) @ replicate 16 0,
        replicate 8 6 @ sample_request @ replicate 16 0]"])
  show "write_outcomes sample_vmess_conn = []" by (simp add: sample_vmess_conn_def empty_conn_def)
qed

lemma sample_vmess_match:
  obtains m where "match_user sample_vmess_lib (vm_users sample_vmess) sample_authid 1000 (vm_active sample_vmess) = Some m"
    "va_email m = ''u''"
proof -
  have "map_option va_email (match_user sample_vmess_lib (vm_users sample_vmess) sample_authid 1000 (vm_active sample_vmess)) = Some ''u''"
    by code_simp
  then show thesis using that by auto
qed

section \<open>Properties\<close>

text \<open>
  C27: A VMess handshake succeeds only when the first sixteen bytes of the connection are an authentication
  ID that decrypts, under the key of a registered user, to a block with the right checksum and a time
  within 120 seconds of now, and that the replay filter does not hold; the ID is then in the filter
  and the flow is attributed to that user.
\<close>

theorem vmess_authenticates:
  assumes "vmess_decode V now now_secs st cx v c = (Done flow, c', st', v')"
  shows "\<exists>authid rest user. stream_in (reads c) = authid @ rest \<and> length authid = 16 \<and> user \<in> set (vm_users v) \<and>
    (let plain = authid_plain V user authid; t = sint (word_of_be (take 8 plain) :: 64 word) in
      word_of_be (drop 12 plain) = vl_crc32 V (take 12 plain) \<and> 0 \<le> t \<and> \<bar>now - t\<bar> \<le> 120) \<and>
    authid \<notin> rf_seen (prune now_secs (vm_replay v)) \<and> authid \<in> rf_seen (vm_replay v') \<and>
    user_email (flow_ctx flow) = Some (vu_email user)"
proof -
  obtain authid c1 m where a: "io_read 16 c = (Done authid, c1)" "vmess_admit V now now_secs authid v = (Inr m, v')"
    "user_email (flow_ctx flow) = Some (va_email m)" using vmess_decode_Done [OF assms] by blast
  note ok = vmess_admit_ok [OF a(2)]
  obtain i k where i: "i < length (vm_users v)" "match_one V i (vm_users v ! i) authid now k = Some m"
    using match_user_Some [OF ok(1)] by blast
  have "stream_in (reads c) = authid @ stream_in (reads c1)" "length authid = 16"
    using io_read_Done [OF a(1)] by (auto simp: consumed_def)
  moreover have "authid \<notin> rf_seen (prune now_secs (vm_replay v))" "authid \<in> rf_seen (vm_replay v')"
    using ok(2,3) by (auto simp: check_insert_def Let_def split: if_splits)
  moreover have "va_email m = vu_email (vm_users v ! i)"
    "let plain = authid_plain V (vm_users v ! i) authid; t = sint (word_of_be (take 8 plain) :: 64 word) in
      word_of_be (drop 12 plain) = vl_crc32 V (take 12 plain) \<and> 0 \<le> t \<and> \<bar>now - t\<bar> \<le> 120"
    using i(2) by (auto simp: match_one_def Let_def split: if_splits)
  ultimately show ?thesis using a(3) i(1) nth_mem [OF i(1)]
    by (intro exI [of _ authid] exI [of _ "stream_in (reads c1)"] exI [of _ "vm_users v ! i"]) simp
qed

lemma vmess_authenticates_witness:
  "\<exists>flow c' st' v'. vmess_decode sample_vmess_lib 1000 1000 None sample_ctx sample_vmess sample_vmess_conn = (Done flow, c', st', v') \<and>
     (\<exists>user \<in> set (vm_users sample_vmess). user_email (flow_ctx flow) = Some (vu_email user))"
proof -
  obtain m where m: "match_user sample_vmess_lib (vm_users sample_vmess) sample_authid 1000 (vm_active sample_vmess) = Some m"
    using sample_vmess_match by blast
  note f = sample_vmess_facts
  from vmess_completes [OF sample_gcm_laws f(1,2) _ _ _ _ f(3) m f(4) sample_request_def f(5) f(5) f(6,7), of None sample_ctx]
  obtain flow c' st' v' where
    d: "vmess_decode sample_vmess_lib 1000 1000 None sample_ctx sample_vmess sample_vmess_conn = (Done flow, c', st', v')" by auto
  from vmess_authenticates [OF d] show ?thesis using d by blast
qed

text \<open>
  C28: A VMess TCP request of a registered user is served. When the authentication ID matches a user and is not
  held by the replay filter, a well-formed sealed header, with any options, a known security and any
  padding, is accepted however its bytes are cut into reads: the flow gets the header's target, is
  attributed to the user, everything after the header is left for the relay, and both body codecs meet
  the conditions of the relay theorem.
\<close>

theorem vmess_serves_tcp:
  assumes "gcm_laws V" and "aead_laws (vl_crypto V)" and "canonical_addr a" and "length authid = 16" and "length nonce = 8"
    and "length iv = 16" and "length key = 16" and "length pad \<le> 1000" and "known_security (padsec AND 0x0F)"
    and "match_user V (vm_users v) authid now (vm_active v) = Some m" and "fst (check_insert authid now_secs (vm_replay v))"
    and hdr: "hdr = request_bytes (request_body iv key rh opt padsec rsv a p pad)"
    and "seal_part V (va_cmd_key m) SALT_HDR_LEN_KEY SALT_HDR_LEN_IV authid nonce (be16 (word_of_nat (length hdr))) = Inr lenct"
    and "seal_part V (va_cmd_key m) SALT_HDR_KEY SALT_HDR_IV authid nonce hdr = Inr payct"
    and "delivers_then c (authid @ lenct @ nonce @ payct @ payload) evs" and "write_outcomes c = []"
  shows "\<exists>c' counter st' v' ub db. vmess_decode V now now_secs st cx v c =
      (Done (VmRoute \<lparr>pd_target = dest_tcp a p, pd_ctx = with_user cx (va_email m) (user_hash (bytes_of_string (va_email m))),
         pd_link = RelayFramed counter []\<rparr> ub db), c', st', v') \<and>
    delivers_then c' payload evs \<and> body_ok (vl_crypto V) ub \<and> body_ok (vl_crypto V) db \<and> bd_iv ub = iv"
  using vmess_completes [OF assms] .

lemma vmess_serves_tcp_witness:
  "\<exists>d ub db c' st' v'. vmess_decode sample_vmess_lib 1000 1000 None sample_ctx sample_vmess sample_vmess_conn = (Done (VmRoute d ub db), c', st', v') \<and>
     pd_target d = dest_tcp (Ip (V4 5)) 80 \<and> user_email (pd_ctx d) = Some ''u''"
proof -
  obtain m where m: "match_user sample_vmess_lib (vm_users sample_vmess) sample_authid 1000 (vm_active sample_vmess) = Some m"
    "va_email m = ''u''" by (rule sample_vmess_match)
  note f = sample_vmess_facts
  from vmess_serves_tcp [OF sample_gcm_laws f(1,2) _ _ _ _ f(3) m(1) f(4) sample_request_def f(5) f(5) f(6,7), of None sample_ctx]
  show ?thesis using m(2) by (auto simp: with_user_def)
qed

end
