(* ===== verification/Service.thy ===== *)
theory Service
  imports Errors "HOL-Library.AList"
begin

text \<open>
  kernel/src/runtime/service/mod.rs and kernel/src/runtime/context.rs: a service that is swapped while it
  serves, the node that rebuilds its service when its configuration changes, the keyed set of nodes with
  its reconciliation, and the context value a parent publishes to its children.

  The watch channel of tokio and the stream over it are an argument of the model, a record of the
  operations the code calls; \<open>watch_laws\<close> states what their documentation promises. A cancellation token
  is its identity, allocated from a counter, and the set of cancelled tokens is part of the state.
\<close>

section \<open>The watch channel\<close>

text \<open>
  A channel state \<open>'w\<close> holds the value and the receivers; a stream position \<open>'r\<close> is what a
  \<open>WatchStream\<close> has seen. \<open>wl_channel\<close> returns the channel with its first receiver, \<open>wl_clone\<close> is another
  receiver (\<open>Receiver::clone\<close> and \<open>Sender::subscribe\<close>), \<open>wl_drop\<close> the end of one, \<open>wl_stream\<close> is
  \<open>WatchStream::new\<close> and \<open>wl_poll\<close> its \<open>poll_next\<close>, which gives no item when the stream is pending.
\<close>

record ('w, 'r, 'v) watch_lib =
  wl_channel :: "'v \<Rightarrow> 'w"
  wl_clone :: "'w \<Rightarrow> 'w"
  wl_drop :: "'w \<Rightarrow> 'w"
  wl_send :: "'w \<Rightarrow> 'v \<Rightarrow> bool \<times> 'w"
  wl_modify :: "'w \<Rightarrow> ('v \<Rightarrow> 'v) \<Rightarrow> 'w"
  wl_borrow :: "'w \<Rightarrow> 'v"
  wl_count :: "'w \<Rightarrow> nat"
  wl_stream :: "'w \<Rightarrow> 'r"
  wl_poll :: "'w \<Rightarrow> 'r \<Rightarrow> 'v option \<times> 'r"

text \<open>
  The promises, for the stream positions \<open>ok\<close> a stream of the channel can be at: a send stores its value
  and makes every stream ready exactly when there is a receiver, and is refused otherwise; \<open>send_modify\<close>
  always applies; a new stream starts with the current value; an item is the current value, and after it
  the stream is pending until the next send; receivers coming and going change neither.
\<close>

definition watch_laws :: "('w, 'r, 'v) watch_lib \<Rightarrow> ('w \<Rightarrow> 'r \<Rightarrow> bool) \<Rightarrow> bool" where
  "watch_laws L ok \<longleftrightarrow>
     (\<forall>v. wl_borrow L (wl_channel L v) = v \<and> wl_count L (wl_channel L v) = 1) \<and>
     (\<forall>w. wl_borrow L (wl_clone L w) = wl_borrow L w \<and> wl_count L (wl_clone L w) = Suc (wl_count L w) \<and>
        (\<forall>r. ok w r \<longrightarrow> ok (wl_clone L w) r \<and> wl_poll L (wl_clone L w) r = wl_poll L w r)) \<and>
     (\<forall>w. wl_borrow L (wl_drop L w) = wl_borrow L w \<and> wl_count L (wl_drop L w) = wl_count L w - 1 \<and>
        (\<forall>r. ok w r \<longrightarrow> ok (wl_drop L w) r \<and> wl_poll L (wl_drop L w) r = wl_poll L w r)) \<and>
     (\<forall>w v. wl_count L w = 0 \<longrightarrow> wl_send L w v = (False, w)) \<and>
     (\<forall>w v. 0 < wl_count L w \<longrightarrow> fst (wl_send L w v) \<and> wl_borrow L (snd (wl_send L w v)) = v \<and>
          wl_count L (snd (wl_send L w v)) = wl_count L w \<and>
          (\<forall>r. ok w r \<longrightarrow> ok (snd (wl_send L w v)) r \<and> fst (wl_poll L (snd (wl_send L w v)) r) = Some v)) \<and>
     (\<forall>w f. wl_borrow L (wl_modify L w f) = f (wl_borrow L w) \<and> wl_count L (wl_modify L w f) = wl_count L w) \<and>
     (\<forall>w. ok w (wl_stream L w) \<and> fst (wl_poll L w (wl_stream L w)) = Some (wl_borrow L w)) \<and>
     (\<forall>w r. ok w r \<longrightarrow> ok w (snd (wl_poll L w r)) \<and>
        (fst (wl_poll L w r) = None \<or> fst (wl_poll L w r) = Some (wl_borrow L w)) \<and>
        fst (wl_poll L w (snd (wl_poll L w r))) = None)"

section \<open>The swappable service\<close>

datatype 's slot = Updating | Ready 's

datatype update_policy = Abort | Drain

text \<open>\<open>NotReady\<close> for \<open>Error\<close> and for \<open>io::Error\<close>.\<close>

definition not_ready :: error where "not_ready = ServiceStack"

definition io_not_ready :: io_error where "io_not_ready = IoMsg WouldBlock ''service updating''"

record ('r, 's) swappable =
  sv_stream :: 'r
  sv_ready :: "'s option"

text \<open>\<open>from_receiver\<close> keeps the receiver and opens a stream on a clone of it.\<close>

definition from_receiver :: "('w, 'r, 's slot) watch_lib \<Rightarrow> 'w \<Rightarrow> ('r, 's) swappable \<times> 'w" where
  "from_receiver L w = (\<lparr>sv_stream = wl_stream L w, sv_ready = None\<rparr>, wl_clone L w)"

text \<open>\<open>Clone\<close>: a further receiver, and from it a service with its own stream.\<close>

definition swappable_clone :: "('w, 'r, 's slot) watch_lib \<Rightarrow> 'w \<Rightarrow> ('r, 's) swappable \<times> 'w" where
  "swappable_clone L w = from_receiver L (wl_clone L w)"

text \<open>
  The loop of \<open>poll_ready\<close>. The sender may publish between two iterations, so each iteration has its own
  state of the channel; the loop has not ended when they run out.
\<close>

fun poll_drain :: "('w, 'r, 's slot) watch_lib \<Rightarrow> 'w list \<Rightarrow> ('r, 's) swappable \<Rightarrow> ('r, 's) swappable option" where
  "poll_drain L [] sv = None"
| "poll_drain L (w # ws) sv = (case wl_poll L w (sv_stream sv) of
     (Some (Ready s), r) \<Rightarrow> poll_drain L ws \<lparr>sv_stream = r, sv_ready = Some s\<rparr>
   | (Some Updating, r) \<Rightarrow> poll_drain L ws \<lparr>sv_stream = r, sv_ready = None\<rparr>
   | (None, r) \<Rightarrow> Some (sv\<lparr>sv_stream := r\<rparr>))"

datatype 'e poll = Pending | Polled "'e + unit"

text \<open>The inner service's own \<open>poll_ready\<close> and \<open>call\<close> are arguments.\<close>

definition poll_ready ::
  "('w, 'r, 's slot) watch_lib \<Rightarrow> ('s \<Rightarrow> 'e poll) \<Rightarrow> 'w list \<Rightarrow> ('r, 's) swappable \<Rightarrow>
   ('e poll \<times> ('r, 's) swappable) option" where
  "poll_ready L inner ws sv = map_option (\<lambda>sv'.
     (case sv_ready sv' of Some s \<Rightarrow> inner s | None \<Rightarrow> Pending, sv')) (poll_drain L ws sv)"

definition swappable_call :: "('s \<Rightarrow> 'q \<Rightarrow> 'e + 'a) \<Rightarrow> 'e \<Rightarrow> ('r, 's) swappable \<Rightarrow> 'q \<Rightarrow> 'e + 'a" where
  "swappable_call inner_call nr sv req =
     (case sv_ready sv of Some s \<Rightarrow> inner_call s req | None \<Rightarrow> Inl nr)"

section \<open>The handle\<close>

record tokens =
  tk_next :: nat
  tk_cancelled :: "nat set"

definition token_new :: "tokens \<Rightarrow> nat \<times> tokens" where
  "token_new st = (tk_next st, st\<lparr>tk_next := Suc (tk_next st)\<rparr>)"

definition token_cancel :: "nat \<Rightarrow> tokens \<Rightarrow> tokens" where
  "token_cancel t st = st\<lparr>tk_cancelled := insert t (tk_cancelled st)\<rparr>"

record 'w swap_handle =
  sh_tx :: 'w
  sh_policy :: update_policy
  sh_token :: nat

definition swap_handle_new ::
  "('w, 'r, 's slot) watch_lib \<Rightarrow> 's \<Rightarrow> update_policy \<Rightarrow> tokens \<Rightarrow>
   'w swap_handle \<times> ('r, 's) swappable \<times> tokens" where
  "swap_handle_new L initial pol st =
     (case from_receiver L (wl_channel L (Ready initial)) of (sv, w) \<Rightarrow>
      case token_new st of (t, st') \<Rightarrow>
        (\<lparr>sh_tx = w, sh_policy = pol, sh_token = t\<rparr>, sv, st'))"

text \<open>
  \<open>update\<close> in the two parts a consumer can tell apart: \<open>update_open\<close> ends before the new service is
  published, \<open>update_publish\<close> publishes it.
\<close>

definition update_open ::
  "('w, 'r, 's slot) watch_lib \<Rightarrow> 'w swap_handle \<Rightarrow> tokens \<Rightarrow> ('w swap_handle \<times> tokens) option" where
  "update_open L h st =
     (case wl_send L (sh_tx h) Updating of (ok, w) \<Rightarrow>
        if \<not> ok then None
        else let st = (if sh_policy h = Abort then token_cancel (sh_token h) st else st)
             in case token_new st of (t, st) \<Rightarrow> Some (h\<lparr>sh_tx := w, sh_token := t\<rparr>, st))"

definition update_publish ::
  "('w, 'r, 's slot) watch_lib \<Rightarrow> 'w swap_handle \<Rightarrow> 's \<Rightarrow> bool \<times> 'w swap_handle" where
  "update_publish L h new = (case wl_send L (sh_tx h) (Ready new) of (ok, w) \<Rightarrow> (ok, h\<lparr>sh_tx := w\<rparr>))"

definition update ::
  "('w, 'r, 's slot) watch_lib \<Rightarrow> 'w swap_handle \<Rightarrow> 's \<Rightarrow> tokens \<Rightarrow> bool \<times> 'w swap_handle \<times> tokens" where
  "update L h new st = (case update_open L h st of
     None \<Rightarrow> (False, h, st)
   | Some (h', st') \<Rightarrow> (case update_publish L h' new of (ok, h'') \<Rightarrow> (ok, h'', st')))"

definition consumer_count :: "('w, 'r, 's slot) watch_lib \<Rightarrow> 'w swap_handle \<Rightarrow> nat" where
  "consumer_count L h = wl_count L (sh_tx h)"

section \<open>The node\<close>

record ('c, 'w) node =
  nd_config :: 'c
  nd_handle :: "'w swap_handle"

definition node_new ::
  "('w, 'r, 's slot) watch_lib \<Rightarrow> 'c \<Rightarrow> update_policy \<Rightarrow> ('c \<Rightarrow> 's) \<Rightarrow> tokens \<Rightarrow>
   ('c, 'w) node \<times> ('r, 's) swappable \<times> tokens" where
  "node_new L config pol build st =
     (case swap_handle_new L (build config) pol st of (h, sv, st') \<Rightarrow>
        (\<lparr>nd_config = config, nd_handle = h\<rparr>, sv, st'))"

definition reconfigure ::
  "('w, 'r, 's slot) watch_lib \<Rightarrow> ('c \<Rightarrow> 's) \<Rightarrow> ('c, 'w) node \<Rightarrow> 'c \<Rightarrow> tokens \<Rightarrow>
   bool \<times> ('c, 'w) node \<times> tokens" where
  "reconfigure L build n new st =
     (if nd_config n = new then (False, n, st)
      else let service = build new; n = n\<lparr>nd_config := new\<rparr>
           in case update L (nd_handle n) service st of (ok, h, st') \<Rightarrow> (ok, n\<lparr>nd_handle := h\<rparr>, st'))"

section \<open>The keyed tree\<close>

record reconcile_report =
  added :: "string list"
  updated :: "string list"
  removed :: "string list"
  unchanged :: "string list"

text \<open>
  The two \<open>HashMap\<close>s are association lists with distinct keys; the order of the list stands for the
  iteration order of the map.
\<close>

record ('c, 'w, 'r, 's) keyed_tree =
  kt_nodes :: "(string \<times> ('c, 'w) node) list"
  kt_services :: "(string \<times> ('r, 's) swappable) list"
  kt_build :: "string \<Rightarrow> 'c \<Rightarrow> 's"
  kt_policy :: update_policy

definition keyed_tree_new :: "update_policy \<Rightarrow> (string \<Rightarrow> 'c \<Rightarrow> 's) \<Rightarrow> ('c, 'w, 'r, 's) keyed_tree" where
  "keyed_tree_new pol build = \<lparr>kt_nodes = [], kt_services = [], kt_build = build, kt_policy = pol\<rparr>"

text \<open>\<open>service\<close> clones the stored service, which adds its receivers to the channel of the node.\<close>

definition kt_service ::
  "('w, 'r, 's slot) watch_lib \<Rightarrow> ('c, 'w, 'r, 's) keyed_tree \<Rightarrow> string \<Rightarrow>
   (('r, 's) swappable \<times> ('c, 'w, 'r, 's) keyed_tree) option" where
  "kt_service L t key = (case map_of (kt_services t) key of
     None \<Rightarrow> None
   | Some _ \<Rightarrow> (case map_of (kt_nodes t) key of
       None \<Rightarrow> None
     | Some n \<Rightarrow> (case swappable_clone L (sh_tx (nd_handle n)) of (sv, w) \<Rightarrow>
         Some (sv, t\<lparr>kt_nodes := AList.update key (n\<lparr>nd_handle := (nd_handle n)\<lparr>sh_tx := w\<rparr>\<rparr>) (kt_nodes t)\<rparr>))))"

type_synonym ('c, 'w, 'r, 's) reconcile_state =
  "reconcile_report \<times> ('c, 'w, 'r, 's) keyed_tree \<times> tokens"

definition reconcile_one ::
  "('w, 'r, 's slot) watch_lib \<Rightarrow> string \<times> 'c \<Rightarrow> ('c, 'w, 'r, 's) reconcile_state \<Rightarrow>
   ('c, 'w, 'r, 's) reconcile_state" where
  "reconcile_one L kc rs = (case kc of (key, cfg) \<Rightarrow> case rs of (rep, t, st) \<Rightarrow>
     (case map_of (kt_nodes t) key of
        Some n \<Rightarrow> (case reconfigure L (kt_build t key) n cfg st of (swapped, n', st') \<Rightarrow>
          (if swapped then rep\<lparr>updated := updated rep @ [key]\<rparr> else rep\<lparr>unchanged := unchanged rep @ [key]\<rparr>,
           t\<lparr>kt_nodes := AList.update key n' (kt_nodes t)\<rparr>, st'))
      | None \<Rightarrow> (case node_new L cfg (kt_policy t) (kt_build t key) st of (n, sv, st') \<Rightarrow>
          (rep\<lparr>added := added rep @ [key]\<rparr>,
           t\<lparr>kt_nodes := AList.update key n (kt_nodes t), kt_services := AList.update key sv (kt_services t)\<rparr>,
           st'))))"

definition stale_keys :: "('c, 'w, 'r, 's) keyed_tree \<Rightarrow> string list \<Rightarrow> string list" where
  "stale_keys t seen = filter (\<lambda>k. k \<notin> set seen) (map fst (kt_nodes t))"

definition remove_stale ::
  "string \<Rightarrow> reconcile_report \<times> ('c, 'w, 'r, 's) keyed_tree \<Rightarrow>
   reconcile_report \<times> ('c, 'w, 'r, 's) keyed_tree" where
  "remove_stale key rt = (case rt of (rep, t) \<Rightarrow>
     (rep\<lparr>removed := removed rep @ [key]\<rparr>,
      t\<lparr>kt_nodes := AList.delete key (kt_nodes t), kt_services := AList.delete key (kt_services t)\<rparr>))"

definition reconcile_default :: reconcile_report where
  "reconcile_default = \<lparr>added = [], updated = [], removed = [], unchanged = []\<rparr>"

definition reconcile ::
  "('w, 'r, 's slot) watch_lib \<Rightarrow> ('c, 'w, 'r, 's) keyed_tree \<Rightarrow> (string \<times> 'c) list \<Rightarrow> tokens \<Rightarrow>
   ('c, 'w, 'r, 's) reconcile_state" where
  "reconcile L t new_configs st =
     (case fold (reconcile_one L) new_configs (reconcile_default, t, st) of (rep, t', st') \<Rightarrow>
      case fold remove_stale (stale_keys t' (map fst new_configs)) (rep, t') of (rep', t'') \<Rightarrow> (rep', t'', st'))"

definition kt_len :: "('c, 'w, 'r, 's) keyed_tree \<Rightarrow> nat" where
  "kt_len t = length (kt_nodes t)"

definition kt_is_empty :: "('c, 'w, 'r, 's) keyed_tree \<Rightarrow> bool" where
  "kt_is_empty t = (kt_nodes t = [])"

section \<open>The context\<close>

text \<open>A provider is the sender of a channel whose first receiver was dropped at once.\<close>

definition provider_new :: "('w, 'r, 'v) watch_lib \<Rightarrow> 'v \<Rightarrow> 'w" where
  "provider_new L initial = wl_drop L (wl_channel L initial)"

definition publish :: "('w, 'r, 'v) watch_lib \<Rightarrow> 'w \<Rightarrow> 'v \<Rightarrow> 'w" where
  "publish L w v = snd (wl_send L w v)"

definition provider_update :: "('w, 'r, 'v) watch_lib \<Rightarrow> 'w \<Rightarrow> ('v \<Rightarrow> 'v) \<Rightarrow> 'w" where
  "provider_update L w f = wl_modify L w f"

definition provider_handle :: "('w, 'r, 'v) watch_lib \<Rightarrow> 'w \<Rightarrow> 'w" where
  "provider_handle L w = wl_clone L w"

definition handle_count :: "('w, 'r, 'v) watch_lib \<Rightarrow> 'w \<Rightarrow> nat" where
  "handle_count L w = wl_count L w"

definition use_context :: "('w, 'r, 'v) watch_lib \<Rightarrow> 'w \<Rightarrow> 'v" where
  "use_context L w = wl_borrow L w"

section \<open>What a consumer sees\<close>

lemma watch_lawsD:
  assumes "watch_laws L ok"
  shows "wl_borrow L (wl_channel L v) = v" "wl_count L (wl_channel L v) = 1"
    "wl_borrow L (wl_clone L w) = wl_borrow L w" "wl_count L (wl_clone L w) = Suc (wl_count L w)"
    "ok w r \<Longrightarrow> ok (wl_clone L w) r" "ok w r \<Longrightarrow> wl_poll L (wl_clone L w) r = wl_poll L w r"
    "wl_borrow L (wl_drop L w) = wl_borrow L w" "wl_count L (wl_drop L w) = wl_count L w - 1"
    "ok w r \<Longrightarrow> ok (wl_drop L w) r" "ok w r \<Longrightarrow> wl_poll L (wl_drop L w) r = wl_poll L w r"
    "wl_borrow L (wl_modify L w f) = f (wl_borrow L w)" "wl_count L (wl_modify L w f) = wl_count L w"
    "ok w (wl_stream L w)" "fst (wl_poll L w (wl_stream L w)) = Some (wl_borrow L w)"
  using assms by (simp_all add: watch_laws_def)

lemma watch_send_refused: "watch_laws L ok \<Longrightarrow> wl_count L w = 0 \<Longrightarrow> wl_send L w v = (False, w)"
  by (simp add: watch_laws_def)

lemma watch_sendE:
  assumes "watch_laws L ok" and "0 < wl_count L w"
  obtains w' where "wl_send L w v = (True, w')" and "wl_borrow L w' = v" and "wl_count L w' = wl_count L w"
    and "\<forall>r. ok w r \<longrightarrow> ok w' r \<and> fst (wl_poll L w' r) = Some v"
proof -
  have "fst (wl_send L w v)" "wl_borrow L (snd (wl_send L w v)) = v"
    "wl_count L (snd (wl_send L w v)) = wl_count L w"
    "\<forall>r. ok w r \<longrightarrow> ok (snd (wl_send L w v)) r \<and> fst (wl_poll L (snd (wl_send L w v)) r) = Some v"
    using assms by (simp_all add: watch_laws_def)
  then show thesis using that [of "snd (wl_send L w v)"] by (cases "wl_send L w v") simp
qed

lemma watch_pollE:
  assumes "watch_laws L ok" and "ok w r"
  obtains (pending) r' where "wl_poll L w r = (None, r')" and "ok w r'" and "fst (wl_poll L w r') = None"
  | (item) r' where "wl_poll L w r = (Some (wl_borrow L w), r')" and "ok w r'" and "fst (wl_poll L w r') = None"
proof -
  have *: "ok w (snd (wl_poll L w r))" "fst (wl_poll L w (snd (wl_poll L w r))) = None"
    "fst (wl_poll L w r) = None \<or> fst (wl_poll L w r) = Some (wl_borrow L w)"
    using assms by (simp_all add: watch_laws_def)
  then show thesis using that by (cases "wl_poll L w r") auto
qed

text \<open>
  A consumer tracks its channel when its position is one of the channel and, once it has nothing to
  read, it holds the service of the current slot.
\<close>

primrec slot_service :: "'s slot \<Rightarrow> 's option" where
  "slot_service Updating = None"
| "slot_service (Ready s) = Some s"

definition tracks :: "('w, 'r, 's slot) watch_lib \<Rightarrow> ('w \<Rightarrow> 'r \<Rightarrow> bool) \<Rightarrow> 'w \<Rightarrow> ('r, 's) swappable \<Rightarrow> bool" where
  "tracks L ok w sv \<longleftrightarrow> ok w (sv_stream sv) \<and>
     (fst (wl_poll L w (sv_stream sv)) = None \<longrightarrow> sv_ready sv = slot_service (wl_borrow L w))"

text \<open>What other tasks do to the channel between two polls of a consumer.\<close>

inductive evolves :: "('w, 'r, 's slot) watch_lib \<Rightarrow> 'w \<Rightarrow> 'w \<Rightarrow> bool" for L where
  stay: "evolves L w w"
| send: "evolves L w w' \<Longrightarrow> evolves L w (snd (wl_send L w' v))"
| receiver: "evolves L w w' \<Longrightarrow> evolves L w (wl_clone L w')"
| drop_receiver: "evolves L w w' \<Longrightarrow> evolves L w (wl_drop L w')"

lemma tracks_evolves:
  assumes "watch_laws L ok" and "evolves L w w'" and "tracks L ok w sv"
  shows "tracks L ok w' sv"
  using assms(2,3)
proof (induction rule: evolves.induct)
  case (send w w' v)
  show ?case
  proof (cases "wl_count L w' = 0")
    case True
    with send show ?thesis by (simp add: watch_send_refused [OF assms(1)])
  next
    case False
    then obtain w'' where "wl_send L w' v = (True, w'')"
      "\<forall>r. ok w' r \<longrightarrow> ok w'' r \<and> fst (wl_poll L w'' r) = Some v"
      using watch_sendE [OF assms(1)] by (metis neq0_conv)
    with send show ?thesis by (simp add: tracks_def)
  qed
qed (auto simp: tracks_def watch_lawsD [OF assms(1)])

lemma tracks_poll:
  assumes "watch_laws L ok" and "tracks L ok w sv"
  shows "tracks L ok w \<lparr>sv_stream = snd (wl_poll L w (sv_stream sv)), sv_ready = slot_service (wl_borrow L w)\<rparr>"
proof -
  have ok: "ok w (sv_stream sv)" using assms(2) by (simp add: tracks_def)
  from assms(1) ok show ?thesis by (cases rule: watch_pollE) (simp_all add: tracks_def)
qed

primrec history :: "('w, 'r, 's slot) watch_lib \<Rightarrow> 'w \<Rightarrow> 'w list \<Rightarrow> bool" where
  "history L w [] = True"
| "history L w (w' # ws) \<longleftrightarrow> evolves L w w' \<and> history L w' ws"

lemma poll_drain_sound:
  assumes "watch_laws L ok"
  shows "tracks L ok w sv \<Longrightarrow> history L w ws \<Longrightarrow> poll_drain L ws sv = Some sv' \<Longrightarrow>
    \<exists>w' \<in> set ws. tracks L ok w' sv' \<and> sv_ready sv' = slot_service (wl_borrow L w')"
proof (induction ws arbitrary: w sv)
  case (Cons w1 ws)
  have t: "tracks L ok w1 sv" using Cons.prems tracks_evolves [OF assms] by auto
  then have ok: "ok w1 (sv_stream sv)" by (simp add: tracks_def)
  from assms ok show ?case
  proof (cases rule: watch_pollE)
    case (pending r')
    with t Cons.prems(3) show ?thesis by (auto simp: tracks_def)
  next
    case (item r')
    have "tracks L ok w1 \<lparr>sv_stream = r', sv_ready = slot_service (wl_borrow L w1)\<rparr>"
      using tracks_poll [OF assms t] item by simp
    moreover have "poll_drain L ws \<lparr>sv_stream = r', sv_ready = slot_service (wl_borrow L w1)\<rparr> = Some sv'"
      using Cons.prems(3) item by (simp split: slot.splits)
    ultimately show ?thesis using Cons.IH [of w1] Cons.prems(2) by fastforce
  qed
qed simp

text \<open>When nothing is published during the poll, the loop ends in its second iteration at the latest.\<close>

lemma poll_drain_quiet:
  assumes "watch_laws L ok" and "tracks L ok w sv"
  shows "\<exists>sv'. poll_drain L [w, w] sv = Some sv' \<and> sv_ready sv' = slot_service (wl_borrow L w) \<and> tracks L ok w sv'"
proof -
  have ok: "ok w (sv_stream sv)" using assms(2) by (simp add: tracks_def)
  from assms(1) ok show ?thesis
  proof (cases rule: watch_pollE)
    case (pending r')
    with assms(2) show ?thesis by (auto simp: tracks_def)
  next
    case (item r')
    from assms(1) item(2) show ?thesis
    proof (cases rule: watch_pollE)
      case (pending r'')
      with item show ?thesis by (cases "wl_borrow L w") (auto simp: tracks_def)
    qed (use item in simp)
  qed
qed

section \<open>Updates\<close>

definition token_live :: "tokens \<Rightarrow> nat \<Rightarrow> bool" where
  "token_live st t \<longleftrightarrow> t < tk_next st \<and> t \<notin> tk_cancelled st"

definition tokens_ok :: "tokens \<Rightarrow> bool" where
  "tokens_ok st \<longleftrightarrow> tk_cancelled st \<subseteq> {..<tk_next st}"

text \<open>The tokens after a swap of a node: the old one is cancelled under \<open>Abort\<close> and a new one is made.\<close>

definition rolled :: "update_policy \<Rightarrow> nat \<Rightarrow> tokens \<Rightarrow> tokens" where
  "rolled pol t st = \<lparr>tk_next = Suc (tk_next st),
     tk_cancelled = (if pol = Abort then insert t (tk_cancelled st) else tk_cancelled st)\<rparr>"

lemma update_openE:
  assumes "watch_laws L ok" and "0 < consumer_count L h"
  obtains w where "update_open L h st = Some (h\<lparr>sh_tx := w, sh_token := tk_next st\<rparr>, rolled (sh_policy h) (sh_token h) st)"
    and "evolves L (sh_tx h) w" and "wl_borrow L w = Updating" and "wl_count L w = consumer_count L h"
proof -
  obtain w where w: "wl_send L (sh_tx h) Updating = (True, w)" "wl_borrow L w = Updating"
    "wl_count L w = wl_count L (sh_tx h)"
    using watch_sendE [OF assms(1)] assms(2) unfolding consumer_count_def by metis
  have "evolves L (sh_tx h) w"
    using evolves.send [OF evolves.stay, of L "sh_tx h" Updating] w(1) by simp
  with w show thesis
    by (intro that [of w])
       (simp_all add: update_open_def token_new_def token_cancel_def rolled_def consumer_count_def)
qed

lemma updateE:
  assumes "watch_laws L ok" and "0 < consumer_count L h"
  obtains w where "update L h new st =
      (True, h\<lparr>sh_tx := w, sh_token := tk_next st\<rparr>, rolled (sh_policy h) (sh_token h) st)"
    and "evolves L (sh_tx h) w" and "wl_borrow L w = Ready new" and "wl_count L w = consumer_count L h"
proof -
  obtain w where w: "update_open L h st = Some (h\<lparr>sh_tx := w, sh_token := tk_next st\<rparr>, rolled (sh_policy h) (sh_token h) st)"
    "evolves L (sh_tx h) w" "wl_count L w = consumer_count L h" using update_openE [OF assms] .
  obtain w' where w': "wl_send L w (Ready new) = (True, w')" "wl_borrow L w' = Ready new" "wl_count L w' = wl_count L w"
    using watch_sendE [OF assms(1)] assms(2) w(3) by metis
  have "evolves L (sh_tx h) w'"
    using evolves.send [OF w(2), of "Ready new"] w'(1) by simp
  with w w' show thesis by (intro that [of w']) (simp_all add: update_def update_publish_def)
qed

text \<open>
  C30: A swap with a live consumer succeeds. While it is under way every consumer that polls is not ready;
  once it is done, every consumer that polls, whatever it had seen, is as ready as the new service and
  calls it. The outgoing generation's token is cancelled exactly under the abort policy, no other token
  is, and the new generation has a token of its own that is not cancelled.
\<close>

theorem swap_serves_latest:
  assumes "watch_laws L ok" and "0 < consumer_count L h" and "tracks L ok (sh_tx h) sv"
    and "tokens_ok st" and "token_live st (sh_token h)"
  shows "\<exists>h1 h2 st' sv1 sv2 sv3. update_open L h st = Some (h1, st') \<and> update L h new st = (True, h2, st') \<and>
     poll_ready L inner [sh_tx h1, sh_tx h1] sv = Some (Pending, sv1) \<and>
     poll_ready L inner [sh_tx h2, sh_tx h2] sv = Some (inner new, sv2) \<and>
     poll_ready L inner [sh_tx h2, sh_tx h2] sv1 = Some (inner new, sv3) \<and>
     swappable_call icall nr sv2 req = icall new req \<and> swappable_call icall nr sv3 req = icall new req \<and>
     token_live st' (sh_token h2) \<and> sh_token h2 \<noteq> sh_token h \<and>
     tk_cancelled st' = tk_cancelled st \<union> (if sh_policy h = Abort then {sh_token h} else {})"
proof -
  obtain w1 where o: "update_open L h st = Some (h\<lparr>sh_tx := w1, sh_token := tk_next st\<rparr>, rolled (sh_policy h) (sh_token h) st)"
    "evolves L (sh_tx h) w1" "wl_borrow L w1 = Updating" "wl_count L w1 = consumer_count L h"
    using update_openE [OF assms(1,2)] .
  obtain w2 where p: "wl_send L w1 (Ready new) = (True, w2)" "wl_borrow L w2 = Ready new"
    using watch_sendE [OF assms(1)] assms(2) o(4) by metis
  have u: "update L h new st = (True, h\<lparr>sh_tx := w2, sh_token := tk_next st\<rparr>, rolled (sh_policy h) (sh_token h) st)"
    using o p by (simp add: update_def update_publish_def)
  have e: "evolves L w1 w2" using evolves.send [OF evolves.stay, of L w1 "Ready new"] p(1) by simp
  have t1: "tracks L ok w1 sv" using tracks_evolves [OF assms(1) o(2) assms(3)] .
  obtain sv1 where s1: "poll_drain L [w1, w1] sv = Some sv1" "sv_ready sv1 = None" "tracks L ok w1 sv1"
    using poll_drain_quiet [OF assms(1) t1] o(3) by auto
  obtain sv2 where s2: "poll_drain L [w2, w2] sv = Some sv2" "sv_ready sv2 = Some new"
    using poll_drain_quiet [OF assms(1) tracks_evolves [OF assms(1) e t1]] p(2) by auto
  obtain sv3 where s3: "poll_drain L [w2, w2] sv1 = Some sv3" "sv_ready sv3 = Some new"
    using poll_drain_quiet [OF assms(1) tracks_evolves [OF assms(1) e s1(3)]] p(2) by auto
  show ?thesis
    using o(1) u s1 s2 s3 assms(4,5)
    by (intro exI [of _ "h\<lparr>sh_tx := w1, sh_token := tk_next st\<rparr>"] exI [of _ "h\<lparr>sh_tx := w2, sh_token := tk_next st\<rparr>"]
        exI [of _ "rolled (sh_policy h) (sh_token h) st"] exI [of _ sv1] exI [of _ sv2] exI [of _ sv3])
       (auto simp: poll_ready_def swappable_call_def rolled_def token_live_def tokens_ok_def
        simp del: poll_drain.simps)
qed

text \<open>
  A concrete channel: the value, its version and the number of receivers; a position is the version
  seen last, if any.
\<close>

definition sample_watch :: "('v \<times> nat \<times> nat, nat option, 'v) watch_lib" where
  "sample_watch = \<lparr>wl_channel = (\<lambda>v. (v, 0, 1)), wl_clone = (\<lambda>(v, k, n). (v, k, Suc n)),
     wl_drop = (\<lambda>(v, k, n). (v, k, n - 1)),
     wl_send = (\<lambda>(v, k, n) v'. if n = 0 then (False, (v, k, n)) else (True, (v', Suc k, n))),
     wl_modify = (\<lambda>(v, k, n) f. (f v, Suc k, n)), wl_borrow = fst, wl_count = (\<lambda>(_, _, n). n),
     wl_stream = (\<lambda>_. None),
     wl_poll = (\<lambda>(v, k, _) r. if r = Some k then (None, r) else (Some v, Some k))\<rparr>"

definition sample_seen :: "'v \<times> nat \<times> nat \<Rightarrow> nat option \<Rightarrow> bool" where
  "sample_seen w r = (case w of (_, k, _) \<Rightarrow> case r of None \<Rightarrow> True | Some j \<Rightarrow> j \<le> k)"

lemma sample_watch_laws: "watch_laws sample_watch sample_seen"
  by (auto simp: watch_laws_def sample_watch_def sample_seen_def split: option.splits)

theorem swap_serves_latest_witness:
  "\<exists>h2 st' sv2. update sample_watch \<lparr>sh_tx = (Ready True, 4, 2), sh_policy = Abort, sh_token = 0\<rparr> False
       \<lparr>tk_next = 1, tk_cancelled = {}\<rparr> = (True, h2, st') \<and>
     poll_ready sample_watch (\<lambda>_. Polled (Inr ())) [sh_tx h2, sh_tx h2] \<lparr>sv_stream = Some 4, sv_ready = Some True\<rparr>
       = Some (Polled (Inr ()) :: unit poll, sv2) \<and>
     swappable_call (\<lambda>s q. Inr (s, q)) () sv2 (7 :: nat) = Inr (False, 7) \<and> 0 \<in> tk_cancelled st'"
proof -
  let ?h = "\<lparr>sh_tx = (Ready True, 4, 2), sh_policy = Abort, sh_token = 0\<rparr>" and ?st = "\<lparr>tk_next = 1, tk_cancelled = {}\<rparr>"
  let ?sv = "\<lparr>sv_stream = Some 4, sv_ready = Some True\<rparr>"
  have "0 < consumer_count sample_watch ?h" "tracks sample_watch sample_seen (sh_tx ?h) ?sv"
    "tokens_ok ?st" "token_live ?st (sh_token ?h)"
    by (simp_all add: consumer_count_def sample_watch_def tracks_def sample_seen_def tokens_ok_def token_live_def)
  from swap_serves_latest [OF sample_watch_laws this, of False "\<lambda>_. Polled (Inr ()) :: unit poll"
      "\<lambda>s q. Inr (s, q)" "()" "7 :: nat"]
  show ?thesis by auto
qed

section \<open>Nodes and the keyed tree\<close>

text \<open>
  A node is consistent when its channel has a consumer and holds the service of its configuration, and
  its token is live.
\<close>

definition node_ok :: "('w, 'r, 's slot) watch_lib \<Rightarrow> ('c \<Rightarrow> 's) \<Rightarrow> tokens \<Rightarrow> ('c, 'w) node \<Rightarrow> bool" where
  "node_ok L build st n \<longleftrightarrow> 0 < consumer_count L (nd_handle n) \<and>
     wl_borrow L (sh_tx (nd_handle n)) = Ready (build (nd_config n)) \<and> token_live st (sh_token (nd_handle n))"

lemma node_new_ok:
  assumes "watch_laws L ok" and "tokens_ok st" and "node_new L cfg pol build st = (n, sv, st')"
  shows "node_ok L build st' n \<and> nd_config n = cfg \<and> sh_policy (nd_handle n) = pol \<and>
    sh_token (nd_handle n) = tk_next st \<and> st' = st\<lparr>tk_next := Suc (tk_next st)\<rparr>"
  using assms(2,3)
  by (auto simp: node_new_def swap_handle_new_def from_receiver_def token_new_def node_ok_def
      consumer_count_def token_live_def tokens_ok_def watch_lawsD [OF assms(1)])

lemma reconfigure_same: "reconfigure L build n (nd_config n) st = (False, n, st)"
  by (simp add: reconfigure_def)

lemma reconfigure_changed:
  assumes "watch_laws L ok" and "node_ok L build st n" and "tokens_ok st" and "nd_config n \<noteq> new"
    and "reconfigure L build n new st = (b, n', st')"
  shows "b \<and> node_ok L build st' n' \<and> nd_config n' = new \<and> sh_policy (nd_handle n') = sh_policy (nd_handle n) \<and>
    sh_token (nd_handle n') = tk_next st \<and> st' = rolled (sh_policy (nd_handle n)) (sh_token (nd_handle n)) st \<and>
    evolves L (sh_tx (nd_handle n)) (sh_tx (nd_handle n'))"
proof -
  have "0 < consumer_count L (nd_handle n)" using assms(2) by (simp add: node_ok_def)
  from updateE [OF assms(1) this] obtain w where w:
    "update L (nd_handle n) (build new) st =
      (True, (nd_handle n)\<lparr>sh_tx := w, sh_token := tk_next st\<rparr>, rolled (sh_policy (nd_handle n)) (sh_token (nd_handle n)) st)"
    "evolves L (sh_tx (nd_handle n)) w" "wl_borrow L w = Ready (build new)" "wl_count L w = consumer_count L (nd_handle n)" .
  have t: "tk_next st \<notin> tk_cancelled st" "sh_token (nd_handle n) \<noteq> tk_next st"
    using assms(2,3) by (auto simp: tokens_ok_def node_ok_def token_live_def)
  have "(b, n', st') = (True, n\<lparr>nd_config := new, nd_handle := (nd_handle n)\<lparr>sh_tx := w, sh_token := tk_next st\<rparr>\<rparr>,
      rolled (sh_policy (nd_handle n)) (sh_token (nd_handle n)) st)"
    using assms(4,5) w(1) by (simp add: reconfigure_def)
  with w(2-4) t assms(2) show ?thesis
    by (auto simp: node_ok_def consumer_count_def token_live_def rolled_def)
qed

text \<open>The keyed tree as a map of configurations, and its invariant.\<close>

abbreviation kt_node :: "('c, 'w, 'r, 's) keyed_tree \<Rightarrow> string \<Rightarrow> ('c, 'w) node option" where
  "kt_node t k \<equiv> map_of (kt_nodes t) k"

definition kt_config :: "('c, 'w, 'r, 's) keyed_tree \<Rightarrow> string \<Rightarrow> 'c option" where
  "kt_config t k = map_option nd_config (kt_node t k)"

abbreviation node_token :: "('c, 'w) node \<Rightarrow> nat" where
  "node_token n \<equiv> sh_token (nd_handle n)"

abbreviation node_tx :: "('c, 'w) node \<Rightarrow> 'w" where
  "node_tx n \<equiv> sh_tx (nd_handle n)"

definition tree_ok :: "('w, 'r, 's slot) watch_lib \<Rightarrow> tokens \<Rightarrow> ('c, 'w, 'r, 's) keyed_tree \<Rightarrow> bool" where
  "tree_ok L st t \<longleftrightarrow> distinct (map fst (kt_nodes t)) \<and> distinct (map fst (kt_services t)) \<and>
     fst ` set (kt_services t) = fst ` set (kt_nodes t) \<and> tokens_ok st \<and>
     (\<forall>k n. kt_node t k = Some n \<longrightarrow> node_ok L (kt_build t k) st n \<and> sh_policy (nd_handle n) = kt_policy t) \<and>
     (\<forall>k n k' n'. kt_node t k = Some n \<and> kt_node t k' = Some n' \<and> node_token n = node_token n' \<longrightarrow> k = k')"

lemma keyed_tree_new_ok: "tokens_ok st \<Longrightarrow> tree_ok L st (keyed_tree_new pol build)"
  by (simp add: tree_ok_def keyed_tree_new_def)

text \<open>Setting the node of one key, with tokens that only lose the key's own.\<close>

lemma node_ok_mono:
  "node_ok L b st n \<Longrightarrow> tk_next st \<le> tk_next st' \<Longrightarrow> node_token n \<notin> tk_cancelled st' \<Longrightarrow> node_ok L b st' n"
  by (auto simp: node_ok_def token_live_def)

lemma tree_ok_set:
  assumes "tree_ok L st t" and "node_ok L (kt_build t k) st' n" and "sh_policy (nd_handle n) = kt_policy t"
    and "tk_next st \<le> tk_next st'" and "tokens_ok st'" and "node_token n = tk_next st"
    and "tk_cancelled st' \<subseteq> insert (tk_next st) (tk_cancelled st \<union> {node_token m | m. kt_node t k = Some m})"
    and "distinct (map fst svs)" and "fst ` set svs = insert k (fst ` set (kt_nodes t))"
  shows "tree_ok L st' (t\<lparr>kt_nodes := AList.update k n (kt_nodes t), kt_services := svs\<rparr>)"
proof -
  have live: "node_token m < tk_next st" "node_token m \<notin> tk_cancelled st" if "kt_node t j = Some m" for j m
    using assms(1) that by (auto simp: tree_ok_def node_ok_def token_live_def)
  have "node_ok L (kt_build t j) st' m" if "kt_node t j = Some m" "j \<noteq> k" for j m
  proof (rule node_ok_mono)
    show "node_ok L (kt_build t j) st m" using assms(1) that by (simp add: tree_ok_def)
    have "node_token m \<noteq> node_token m'" if "kt_node t k = Some m'" for m'
      using assms(1) that \<open>kt_node t j = Some m\<close> \<open>j \<noteq> k\<close> unfolding tree_ok_def by metis
    then show "node_token m \<notin> tk_cancelled st'" using assms(7) live [OF that(1)] by auto
  qed (rule assms(4))
  moreover have "j = j'" if "kt_node t j = Some m" "kt_node t j' = Some m'" "node_token m = node_token m'" for j j' m m'
    using assms(1) that unfolding tree_ok_def by metis
  moreover have "node_token m \<noteq> tk_next st" if "kt_node t j = Some m" for j m
    using live(1) [OF that] by simp
  ultimately show ?thesis
    using assms(2,3,5,6,8,9) assms(1)
    by (auto simp: tree_ok_def update_conv' dom_update distinct_update split: if_splits)
       (metis assms(6))+
qed

text \<open>
  One step and the loop of \<open>reconcile\<close>, both as a relation between the state before and after for a
  list of new configurations.
\<close>

definition changed_keys :: "('c, 'w, 'r, 's) keyed_tree \<Rightarrow> (string \<times> 'c) list \<Rightarrow> string list" where
  "changed_keys t cs = map fst (filter (\<lambda>(k, c). kt_config t k \<noteq> None \<and> kt_config t k \<noteq> Some c) cs)"

definition same_keys :: "('c, 'w, 'r, 's) keyed_tree \<Rightarrow> (string \<times> 'c) list \<Rightarrow> string list" where
  "same_keys t cs = map fst (filter (\<lambda>(k, c). kt_config t k = Some c) cs)"

definition new_keys :: "('c, 'w, 'r, 's) keyed_tree \<Rightarrow> (string \<times> 'c) list \<Rightarrow> string list" where
  "new_keys t cs = map fst (filter (\<lambda>(k, c). kt_config t k = None) cs)"

definition aborted :: "('c, 'w, 'r, 's) keyed_tree \<Rightarrow> (string \<times> 'c) list \<Rightarrow> nat set" where
  "aborted t cs = (if kt_policy t = Abort
     then {node_token n | k n. k \<in> set (changed_keys t cs) \<and> kt_node t k = Some n} else {})"

definition reconciled ::
  "('w, 'r, 's slot) watch_lib \<Rightarrow> (string \<times> 'c) list \<Rightarrow> ('c, 'w, 'r, 's) reconcile_state \<Rightarrow>
   ('c, 'w, 'r, 's) reconcile_state \<Rightarrow> bool" where
  "reconciled L cs rs rs' = (case rs of (rep, t, st) \<Rightarrow> case rs' of (rep', t', st') \<Rightarrow>
     tree_ok L st' t' \<and> kt_build t' = kt_build t \<and> kt_policy t' = kt_policy t \<and>
     (\<forall>k. k \<notin> fst ` set cs \<longrightarrow> kt_node t' k = kt_node t k) \<and>
     (\<forall>k. k \<in> fst ` set cs \<longrightarrow> kt_config t' k = map_of cs k) \<and>
     (\<forall>k n. kt_node t k = Some n \<and> map_of cs k = Some (nd_config n) \<longrightarrow> kt_node t' k = Some n) \<and>
     (\<forall>k n n'. kt_node t k = Some n \<and> kt_node t' k = Some n' \<longrightarrow> evolves L (node_tx n) (node_tx n')) \<and>
     rep' = \<lparr>added = added rep @ new_keys t cs, updated = updated rep @ changed_keys t cs,
             removed = removed rep, unchanged = unchanged rep @ same_keys t cs\<rparr> \<and>
     tk_cancelled st' = tk_cancelled st \<union> aborted t cs)"

lemmas key_lists_def = changed_keys_def same_keys_def new_keys_def

lemma alist_update_same: "map_of (AList.update k v xs) k' = (if k' = k then Some v else map_of xs k')"
  by (simp add: update_conv')

lemma alist_update_noop: "distinct (map fst xs) \<Longrightarrow> map_of xs k = Some v \<Longrightarrow> AList.update k v xs = xs"
  by (induction xs) (auto split: if_splits simp: rev_image_eqI)

lemma evolves_refl_some: "kt_node t k = Some n \<Longrightarrow> kt_node t k = Some n' \<Longrightarrow> evolves L (node_tx n) (node_tx n')"
  by (simp add: evolves.stay)

lemma reconcile_one_step:
  assumes "watch_laws L ok" and "tree_ok L st t"
  shows "reconciled L [(k, c)] (rep, t, st) (reconcile_one L (k, c) (rep, t, st))"
proof (cases "kt_node t k")
  case None
  obtain n sv st' where n: "node_new L c (kt_policy t) (kt_build t k) st = (n, sv, st')"
    by (metis prod_cases3)
  have "tokens_ok st" using assms(2) by (simp add: tree_ok_def)
  note nn = node_new_ok [OF assms(1) this n]
  have "tree_ok L st' (t\<lparr>kt_nodes := AList.update k n (kt_nodes t), kt_services := AList.update k sv (kt_services t)\<rparr>)"
    using nn assms(2)
    by (intro tree_ok_set [OF assms(2)])
       (auto simp: tokens_ok_def tree_ok_def dom_update distinct_update)
  then show ?thesis
    using None n nn
    by (auto simp: reconciled_def reconcile_one_def alist_update_same kt_config_def key_lists_def aborted_def evolves.stay)
next
  case (Some n)
  have ok: "node_ok L (kt_build t k) st n" "sh_policy (nd_handle n) = kt_policy t" "tokens_ok st"
    using assms(2) Some by (auto simp: tree_ok_def)
  show ?thesis
  proof (cases "nd_config n = c")
    case True
    have "AList.update k n (kt_nodes t) = kt_nodes t"
      using assms(2) Some by (intro alist_update_noop) (simp_all add: tree_ok_def)
    then have "t\<lparr>kt_nodes := AList.update k n (kt_nodes t)\<rparr> = t" by simp
    moreover have "reconfigure L (kt_build t k) n c st = (False, n, st)"
      using reconfigure_same [of L _ n st] True by metis
    ultimately show ?thesis
      using Some True assms(2)
      by (auto simp: reconciled_def reconcile_one_def kt_config_def key_lists_def aborted_def evolves.stay)
  next
    case False
    obtain b n' st' where r: "reconfigure L (kt_build t k) n c st = (b, n', st')" by (metis prod_cases3)
    note rc = reconfigure_changed [OF assms(1) ok(1,3) False r]
    have k: "insert k (fst ` set (kt_nodes t)) = fst ` set (kt_nodes t)"
      using map_of_SomeD [OF Some] by force
    have lv: "node_token n < tk_next st" using ok(1) by (simp add: node_ok_def token_live_def)
    have t': "tree_ok L st' (t\<lparr>kt_nodes := AList.update k n' (kt_nodes t), kt_services := kt_services t\<rparr>)"
    proof (rule tree_ok_set [OF assms(2)])
      show "tokens_ok st'" using rc ok(3) lv by (auto simp: tokens_ok_def rolled_def)
      show "tk_cancelled st' \<subseteq> insert (tk_next st) (tk_cancelled st \<union> {node_token m |m. kt_node t k = Some m})"
        using rc Some by (auto simp: rolled_def)
      show "distinct (map fst (kt_services t))" "fst ` set (kt_services t) = insert k (fst ` set (kt_nodes t))"
        using assms(2) k by (simp_all add: tree_ok_def)
      show "node_ok L (kt_build t k) st' n'" using rc by blast
      show "sh_policy (nd_handle n') = kt_policy t" "node_token n' = tk_next st" using rc ok(2) by simp_all
      show "tk_next st \<le> tk_next st'" using rc by (simp add: rolled_def)
    qed
    show ?thesis
      using Some False r rc ok t'
      by (auto simp: reconciled_def reconcile_one_def alist_update_same kt_config_def key_lists_def aborted_def
          rolled_def evolves.stay)
  qed
qed

lemma reconciled_keys_eq:
  assumes "\<And>k. k \<in> fst ` set cs \<Longrightarrow> kt_config t' k = kt_config t k"
  shows "new_keys t' cs = new_keys t cs" "changed_keys t' cs = changed_keys t cs" "same_keys t' cs = same_keys t cs"
proof -
  have "kt_config t' k = kt_config t k" if "(k, c) \<in> set cs" for k c
    using assms that by (simp add: rev_image_eqI)
  then show "new_keys t' cs = new_keys t cs" "changed_keys t' cs = changed_keys t cs" "same_keys t' cs = same_keys t cs"
    unfolding key_lists_def by (auto intro!: arg_cong [where f = "map fst"] filter_cong)
qed

lemma reconciled_trans:
  assumes "reconciled L [(k, c)] (rep, t, st) (rep1, t1, st1)" and "reconciled L cs (rep1, t1, st1) rs2"
    and "k \<notin> fst ` set cs"
  shows "reconciled L ((k, c) # cs) (rep, t, st) rs2"
proof -
  obtain rep2 t2 st2 where rs2: "rs2 = (rep2, t2, st2)" by (metis prod_cases3)
  have node: "kt_node t1 k' = kt_node t k'" if "k' \<noteq> k" for k' using assms(1) that by (simp add: reconciled_def)
  have other: "kt_node t1 k' = kt_node t k'" "kt_config t1 k' = kt_config t k'" if "k' \<in> fst ` set cs" for k'
  proof -
    have "k' \<noteq> k" using that assms(3) by metis
    then show "kt_node t1 k' = kt_node t k'" "kt_config t1 k' = kt_config t k'"
      using node by (simp_all add: kt_config_def)
  qed
  note keys = reconciled_keys_eq [OF other(2)]
  have ab: "aborted t1 cs = aborted t cs"
  proof -
    have "set (changed_keys t cs) \<subseteq> fst ` set cs" by (auto simp: changed_keys_def)
    then show ?thesis using keys other(1) assms(1) by (auto simp: aborted_def reconciled_def) (metis subsetD)+
  qed
  have ab': "aborted t ((k, c) # cs) = aborted t [(k, c)] \<union> aborted t cs"
  proof -
    have "set (changed_keys t ((k, c) # cs)) = set (changed_keys t [(k, c)]) \<union> set (changed_keys t cs)"
      by (auto simp: changed_keys_def)
    then show ?thesis by (auto simp: aborted_def)
  qed
  have ev: "evolves L (node_tx n) (node_tx n2)" if "kt_node t k' = Some n" "kt_node t2 k' = Some n2" for k' n n2
  proof (cases "k' = k")
    case True
    then have "kt_node t2 k' = kt_node t1 k'" using assms(2,3) by (simp add: rs2 reconciled_def)
    with that assms(1) show ?thesis by (simp add: reconciled_def)
  next
    case False
    with that assms(2) node [of k'] show ?thesis by (simp add: rs2 reconciled_def)
  qed
  have cfg: "kt_config t2 k' = map_of ((k, c) # cs) k'" if "k' \<in> fst ` set ((k, c) # cs)" for k'
  proof (cases "k' = k")
    case True
    then have "kt_node t2 k' = kt_node t1 k'" using assms(2,3) by (simp add: rs2 reconciled_def)
    with True assms(1) show ?thesis by (simp add: reconciled_def kt_config_def)
  next
    case False
    with that assms(2) show ?thesis by (simp add: rs2 reconciled_def)
  qed
  have keep: "kt_node t2 k' = Some n" if "kt_node t k' = Some n" "map_of ((k, c) # cs) k' = Some (nd_config n)" for k' n
  proof (cases "k' = k")
    case True
    then have "kt_node t2 k' = kt_node t1 k'" using assms(2,3) by (simp add: rs2 reconciled_def)
    with True that assms(1) show ?thesis by (simp add: reconciled_def)
  next
    case False
    with that assms(2) node [of k'] show ?thesis by (simp add: rs2 reconciled_def)
  qed
  have rest: "kt_node t2 k' = kt_node t k'" if "k' \<notin> fst ` set ((k, c) # cs)" for k'
    using that assms(2) node [of k'] by (simp add: rs2 reconciled_def)
  have rep: "rep2 = \<lparr>added = added rep @ new_keys t ((k, c) # cs), updated = updated rep @ changed_keys t ((k, c) # cs),
      removed = removed rep, unchanged = unchanged rep @ same_keys t ((k, c) # cs)\<rparr>"
    using assms(1,2) keys by (simp add: rs2 reconciled_def key_lists_def)
  have tokens: "tk_cancelled st2 = tk_cancelled st \<union> aborted t ((k, c) # cs)"
    using assms(1,2) ab ab' by (auto simp: rs2 reconciled_def)
  have frame: "tree_ok L st2 t2" "kt_build t2 = kt_build t" "kt_policy t2 = kt_policy t"
    using assms(1,2) by (simp_all add: rs2 reconciled_def)
  show ?thesis
    unfolding rs2 reconciled_def prod.case
    by (intro conjI allI impI frame rep tokens; (elim conjE)?) (fact rest cfg keep ev)+
qed

lemma reconcile_loop:
  assumes "watch_laws L ok"
  shows "tree_ok L st t \<Longrightarrow> distinct (map fst cs) \<Longrightarrow>
    reconciled L cs (rep, t, st) (fold (reconcile_one L) cs (rep, t, st))"
proof (induction cs arbitrary: rep t st)
  case Nil
  then show ?case by (auto simp: reconciled_def key_lists_def aborted_def evolves.stay)
next
  case (Cons kc cs)
  obtain k c where kc: "kc = (k, c)" by fastforce
  obtain rep1 t1 st1 where one: "reconcile_one L (k, c) (rep, t, st) = (rep1, t1, st1)" by (metis prod_cases3)
  have step: "reconciled L [(k, c)] (rep, t, st) (rep1, t1, st1)"
    using reconcile_one_step [OF assms Cons.prems(1), of k c rep] one by simp
  then have "tree_ok L st1 t1" by (simp add: reconciled_def)
  then have "reconciled L cs (rep1, t1, st1) (fold (reconcile_one L) cs (rep1, t1, st1))"
    using Cons.IH Cons.prems(2) by simp
  from reconciled_trans [OF step this] Cons.prems(2) show ?case by (simp add: kc one)
qed

text \<open>The second loop drops the stale keys and nothing else.\<close>

lemma filter_delete:
  "filter (\<lambda>(k, _). k \<notin> S) (AList.delete k xs) = filter (\<lambda>(k', _). k' \<noteq> k \<and> k' \<notin> S) xs"
  by (induction xs) (auto simp: AList.delete_eq)

lemma filter_keys: "fst ` set (filter (\<lambda>(k, _). P k) xs) = {k \<in> fst ` set xs. P k}"
  by force

lemma remove_stale_loop:
  "fold remove_stale ks (rep, t) =
     (rep\<lparr>removed := removed rep @ ks\<rparr>,
      t\<lparr>kt_nodes := filter (\<lambda>(k, _). k \<notin> set ks) (kt_nodes t),
        kt_services := filter (\<lambda>(k, _). k \<notin> set ks) (kt_services t)\<rparr>)"
proof (induction ks arbitrary: rep t)
  case (Cons k ks)
  then show ?case by (simp add: remove_stale_def filter_delete)
qed simp

lemma map_of_filter_key: "map_of (filter (\<lambda>(k, _). P k) xs) k = (if P k then map_of xs k else None)"
  by (induction xs) auto

lemma tree_ok_filter:
  assumes "tree_ok L st t"
  shows "tree_ok L st (t\<lparr>kt_nodes := filter (\<lambda>(k, _). P k) (kt_nodes t),
    kt_services := filter (\<lambda>(k, _). P k) (kt_services t)\<rparr>)"
proof -
  have "fst ` set (filter (\<lambda>(k, _). P k) (kt_services t)) = fst ` set (filter (\<lambda>(k, _). P k) (kt_nodes t))"
    unfolding filter_keys using assms by (simp add: tree_ok_def)
  then show ?thesis
    using assms unfolding tree_ok_def
    by (simp add: map_of_filter_key distinct_map_filter del: set_filter)
qed

lemma reconcileE:
  assumes "watch_laws L ok" and "tree_ok L st t" and "distinct (map fst cs)"
    and "reconcile L t cs st = (rep, t', st')"
  obtains rep1 t1 where "reconciled L cs (reconcile_default, t, st) (rep1, t1, st')"
    and "removed rep = removed rep1 @ stale_keys t1 (map fst cs)"
    and "added rep = added rep1" and "updated rep = updated rep1" and "unchanged rep = unchanged rep1"
    and "tree_ok L st' t'" and "kt_build t' = kt_build t"
    and "\<forall>k. kt_node t' k = (if k \<in> set (stale_keys t1 (map fst cs)) then None else kt_node t1 k)"
proof -
  obtain rep1 t1 st1 where l: "fold (reconcile_one L) cs (reconcile_default, t, st) = (rep1, t1, st1)"
    by (metis prod_cases3)
  have r: "reconciled L cs (reconcile_default, t, st) (rep1, t1, st1)"
    using reconcile_loop [OF assms(1-3), of reconcile_default] l by simp
  let ?stale = "stale_keys t1 (map fst cs)"
  let ?keep = "\<lambda>xs. filter (\<lambda>(k, _). k \<notin> set ?stale) xs"
  have out: "rep = rep1\<lparr>removed := removed rep1 @ ?stale\<rparr>"
    "t' = t1\<lparr>kt_nodes := filter (\<lambda>(k, _). k \<notin> set ?stale) (kt_nodes t1),
       kt_services := filter (\<lambda>(k, _). k \<notin> set ?stale) (kt_services t1)\<rparr>" "st' = st1"
    using assms(4) l by (auto simp: reconcile_def remove_stale_loop)
  have "tree_ok L st' t'" using r unfolding out by (intro tree_ok_filter) (simp add: reconciled_def)
  with r show thesis
    by (intro that [of rep1 t1]) (simp_all add: out map_of_filter_key reconciled_def)
qed

text \<open>
  C31: Reconciling the tree with a set of configurations. The tree keeps its invariant and implements
  exactly the new configurations; a child whose configuration did not change is the same node as before,
  with its channel and token untouched; every consumer of a kept key, whatever it had seen, serves the
  service built for the key's new configuration when it next polls; the report lists the added, changed
  and unchanged keys in the order given and the removed ones; and only the tokens of changed children
  are cancelled, under the abort policy.
\<close>

theorem reconcile_spec:
  assumes "watch_laws L ok" and "tree_ok L st t" and "distinct (map fst cs)"
    and "reconcile L t cs st = (rep, t', st')"
  shows "tree_ok L st' t' \<and> kt_config t' = map_of cs \<and>
    (\<forall>k n. kt_node t k = Some n \<and> map_of cs k = Some (nd_config n) \<longrightarrow> kt_node t' k = Some n) \<and>
    (\<forall>k n c sv. kt_node t k = Some n \<and> map_of cs k = Some c \<and> tracks L ok (node_tx n) sv \<longrightarrow>
       (\<exists>n' sv'. kt_node t' k = Some n' \<and> poll_drain L [node_tx n', node_tx n'] sv = Some sv' \<and>
          sv_ready sv' = Some (kt_build t k c))) \<and>
    added rep = new_keys t cs \<and> updated rep = changed_keys t cs \<and> unchanged rep = same_keys t cs \<and>
    set (removed rep) = fst ` set (kt_nodes t) - fst ` set cs \<and>
    tk_cancelled st' = tk_cancelled st \<union> aborted t cs"
proof -
  obtain rep1 t1 where r: "reconciled L cs (reconcile_default, t, st) (rep1, t1, st')"
    and out: "removed rep = removed rep1 @ stale_keys t1 (map fst cs)"
      "added rep = added rep1" "updated rep = updated rep1" "unchanged rep = unchanged rep1"
    and tree: "tree_ok L st' t'" and build: "kt_build t' = kt_build t"
    and nodes: "\<forall>k. kt_node t' k = (if k \<in> set (stale_keys t1 (map fst cs)) then None else kt_node t1 k)"
    using reconcileE [OF assms] .
  let ?stale = "stale_keys t1 (map fst cs)"
  have keys1: "fst ` set (kt_nodes t1) = fst ` set (kt_nodes t) \<union> fst ` set cs"
  proof -
    have "(kt_node t1 k \<noteq> None) = (kt_node t k \<noteq> None \<or> k \<in> fst ` set cs)" for k
    proof (cases "k \<in> fst ` set cs")
      case True
      then have "kt_config t1 k \<noteq> None" using r by (auto simp: reconciled_def map_of_eq_None_iff)
      with True show ?thesis by (simp add: kt_config_def)
    qed (use r in \<open>simp add: reconciled_def\<close>)
    then show ?thesis unfolding map_of_eq_None_iff by blast
  qed
  have stale: "set ?stale = fst ` set (kt_nodes t) - fst ` set cs"
    using keys1 by (auto simp: stale_keys_def)
  have node: "kt_node t' k = (if k \<in> fst ` set cs then kt_node t1 k else None)" for k
  proof -
    have "kt_node t1 k = None" if "k \<notin> fst ` set cs" "k \<notin> set ?stale"
      using that keys1 stale by (simp add: map_of_eq_None_iff)
    then show ?thesis using stale nodes by auto
  qed
  have config: "kt_config t' = map_of cs"
  proof
    fix k
    have "map_of cs k = None" if "k \<notin> fst ` set cs" using that by (simp add: map_of_eq_None_iff)
    then show "kt_config t' k = map_of cs k"
      using r node [of k] by (cases "k \<in> fst ` set cs") (simp_all add: reconciled_def kt_config_def)
  qed
  have in_keys: "k \<in> fst ` set cs" if "map_of cs k = Some c" for k c
    using that map_of_SomeD by force
  have serves: "\<exists>n' sv'. kt_node t' k = Some n' \<and> poll_drain L [node_tx n', node_tx n'] sv = Some sv' \<and>
          sv_ready sv' = Some (kt_build t k c)"
    if k: "kt_node t k = Some n" "map_of cs k = Some c" "tracks L ok (node_tx n) sv" for k n c sv
  proof -
    obtain n' where n': "kt_node t' k = Some n'" "nd_config n' = c"
      using config k(2) by (auto simp: kt_config_def fun_eq_iff) (metis map_option_eq_Some)
    have "kt_node t1 k = Some n'" using node [of k] n'(1) in_keys [OF k(2)] by simp
    then have "evolves L (node_tx n) (node_tx n')" using r k(1) by (simp add: reconciled_def)
    then have "tracks L ok (node_tx n') sv" using tracks_evolves [OF assms(1)] k(3) by blast
    moreover have "node_ok L (kt_build t' k) st' n'" using tree n'(1) by (simp add: tree_ok_def)
    then have "wl_borrow L (node_tx n') = Ready (kt_build t k c)"
      using n'(2) build by (simp add: node_ok_def)
    ultimately show ?thesis using poll_drain_quiet [OF assms(1)] n'(1) by (metis slot_service.simps(2))
  qed
  have keep: "kt_node t' k = Some n" if "kt_node t k = Some n" "map_of cs k = Some (nd_config n)" for k n
    using r that node [of k] in_keys by (simp add: reconciled_def)
  have report: "added rep = new_keys t cs" "updated rep = changed_keys t cs" "unchanged rep = same_keys t cs"
    "set (removed rep) = fst ` set (kt_nodes t) - fst ` set cs" "tk_cancelled st' = tk_cancelled st \<union> aborted t cs"
    using r stale by (simp_all add: out reconciled_def reconcile_default_def)
  show ?thesis
    by (intro conjI allI impI tree config report; (elim conjE)?) (fact keep serves)+
qed

text \<open>A tree with the children \<open>a\<close> and \<open>b\<close>, reconciled with a changed \<open>b\<close> and a new \<open>c\<close>.\<close>

definition sample_tree :: "reconcile_report \<times> (nat, (nat \<times> string) slot \<times> nat \<times> nat, nat option, nat \<times> string) keyed_tree \<times> tokens" where
  "sample_tree = reconcile sample_watch (keyed_tree_new Abort (\<lambda>k c. (c, k))) [(''a'', 1), (''b'', 2)]
     \<lparr>tk_next = 0, tk_cancelled = {}\<rparr>"

lemma sample_tree_ok: "tree_ok sample_watch (snd (snd sample_tree)) (fst (snd sample_tree))"
proof -
  obtain rep t st where *: "sample_tree = (rep, t, st)" by (metis prod_cases3)
  have init: "tree_ok sample_watch \<lparr>tk_next = 0, tk_cancelled = {}\<rparr> (keyed_tree_new Abort (\<lambda>k c. (c, k)))"
    by (simp add: keyed_tree_new_ok tokens_ok_def)
  have "distinct (map fst [(''a'', 1 :: nat), (''b'', 2)])" by simp
  from reconcileE [OF sample_watch_laws init this * [unfolded sample_tree_def]]
  have "tree_ok sample_watch st t" by metis
  then show ?thesis unfolding * fst_conv snd_conv .
qed

theorem reconcile_spec_witness:
  "\<exists>rep t' st'. reconcile sample_watch (fst (snd sample_tree)) [(''a'', 1), (''b'', 20), (''c'', 3)] (snd (snd sample_tree))
      = (rep, t', st') \<and> unchanged rep = [''a''] \<and> updated rep = [''b''] \<and> added rep = [''c''] \<and>
      kt_config t' ''b'' = Some 20"
proof -
  let ?cs = "[(''a'', 1), (''b'', 20), (''c'', 3)] :: (string \<times> nat) list"
  obtain rep t' st' where r: "reconcile sample_watch (fst (snd sample_tree)) ?cs (snd (snd sample_tree)) = (rep, t', st')"
    by (metis prod_cases3)
  have "same_keys (fst (snd sample_tree)) ?cs = [''a'']" "changed_keys (fst (snd sample_tree)) ?cs = [''b'']"
    "new_keys (fst (snd sample_tree)) ?cs = [''c'']"
    by code_simp+
  moreover have "distinct (map fst ?cs)" by simp
  note spec = reconcile_spec [OF sample_watch_laws sample_tree_ok this r]
  have "unchanged rep = same_keys (fst (snd sample_tree)) ?cs" "updated rep = changed_keys (fst (snd sample_tree)) ?cs"
    "added rep = new_keys (fst (snd sample_tree)) ?cs" "kt_config t' = map_of ?cs"
    using spec by blast+
  ultimately show ?thesis using r by simp
qed

section \<open>The context value\<close>

text \<open>
  What a context handle reads. With a live handle a published value is read by every handle,
  those made later included; but a value published while there is no handle is dropped, and a handle
  made later reads the value before it. Updating in place is not lost in either case.
\<close>

lemma context_publish_needs_handle:
  assumes "watch_laws L ok"
  shows "(0 < handle_count L w \<longrightarrow> use_context L (publish L w v) = v \<and>
      use_context L (provider_handle L (publish L w v)) = v) \<and>
    (handle_count L w = 0 \<longrightarrow> use_context L (provider_handle L (publish L w v)) = use_context L w) \<and>
    use_context L (provider_handle L (provider_update L w f)) = f (use_context L w) \<and>
    handle_count L (provider_new L v) = 0 \<and> use_context L (provider_handle L (publish L (provider_new L v) v')) = v"
proof -
  note laws = watch_lawsD [OF assms]
  have lost: "publish L w' v' = w'" if "handle_count L w' = 0" for w' v'
    using watch_send_refused [OF assms] that by (simp add: publish_def handle_count_def)
  have kept: "use_context L (publish L w v) = v" if "0 < handle_count L w"
    using watch_sendE [OF assms] that by (metis handle_count_def publish_def snd_conv use_context_def)
  have "handle_count L (provider_new L v) = 0"
    using laws by (simp add: handle_count_def provider_new_def)
  with lost kept show ?thesis
    using laws by (simp add: use_context_def provider_handle_def provider_update_def provider_new_def)
qed

theorem context_publish_needs_handle_witness:
  "use_context sample_watch (provider_handle sample_watch (publish sample_watch (provider_new sample_watch (1 :: nat)) 42)) = 1"
  using context_publish_needs_handle [OF sample_watch_laws, of _ 1 _ 42] by blast

end
