(* ===== verification/Dialer.thy ===== *)
theory Dialer
  imports Users Net
begin

text \<open>
  kernel/src/runtime/dns.rs and kernel/src/runtime/dialer.rs: the cached resolver and the dialer over it. The
  system resolver (crate hickory-resolver, with the text of its error) and connecting a socket are arguments. The cache (crate moka) is
  the map of the entries it holds when it is asked; entries may go at any time between two calls.
\<close>

type_synonym dns_cache = "string \<rightharpoonup> ip_addr list"

definition no_records :: io_error where "no_records = IoMsg NotFound ''no DNS records''"

definition dns_resolve ::
  "(string \<Rightarrow> string + ip_addr list) \<Rightarrow> string \<Rightarrow> dns_cache \<Rightarrow> ip_addr list io_result \<times> dns_cache" where
  "dns_resolve lookup_ip host cache =
     (case parse_ip host of
        Some ip \<Rightarrow> (Inr [ip], cache)
      | None \<Rightarrow> (case cache host of
          Some hit \<Rightarrow> (Inr hit, cache)
        | None \<Rightarrow> (case lookup_ip host of
            Inl e \<Rightarrow> (Inl (IoMsg NotFound e), cache)
          | Inr ips \<Rightarrow> if ips = [] then (Inl no_records, cache) else (Inr ips, cache(host \<mapsto> ips)))))"

definition resolve_addr ::
  "(string \<Rightarrow> string + ip_addr list) \<Rightarrow> destination \<Rightarrow> dns_cache \<Rightarrow> socket_addr list io_result \<times> dns_cache" where
  "resolve_addr lookup_ip dest cache = (case address dest of
     Ip ip \<Rightarrow> (Inr [(ip, port dest)], cache)
   | Domain d \<Rightarrow> (case dns_resolve lookup_ip d cache of
       (Inl e, cache') \<Rightarrow> (Inl e, cache')
     | (Inr ips, cache') \<Rightarrow> (Inr (map (\<lambda>ip. (ip, port dest)) ips), cache')))"

text \<open>The loop of \<open>dial_tcp\<close>, with the addresses tried.\<close>

fun dial_loop :: "(socket_addr \<Rightarrow> 'st option) \<Rightarrow> socket_addr list \<Rightarrow> socket_addr list \<Rightarrow> 'st io_result \<times> socket_addr list" where
  "dial_loop connect tried [] = (Inl (IoMsg NotFound ''no addresses for domain''), tried)"
| "dial_loop connect tried (a # as) = (case connect a of
     None \<Rightarrow> dial_loop connect (tried @ [a]) as
   | Some stream \<Rightarrow> (Inr stream, tried @ [a]))"

definition dial_tcp ::
  "(string \<Rightarrow> string + ip_addr list) \<Rightarrow> (socket_addr \<Rightarrow> 'st option) \<Rightarrow> destination \<Rightarrow> dns_cache \<Rightarrow>
   'st io_result \<times> socket_addr list \<times> dns_cache" where
  "dial_tcp lookup_ip connect dest cache = (case resolve_addr lookup_ip dest cache of
     (Inl e, cache') \<Rightarrow> (Inl e, [], cache')
   | (Inr resolved, cache') \<Rightarrow> (case dial_loop connect [] resolved of (r, tried) \<Rightarrow> (r, tried, cache')))"

section \<open>What the dialer connects to\<close>

lemma dial_loop_first:
  "dial_loop connect tried as = (case dropWhile (\<lambda>a. connect a = None) as of
     [] \<Rightarrow> (Inl (IoMsg NotFound ''no addresses for domain''), tried @ as)
   | a # _ \<Rightarrow> (Inr (the (connect a)), tried @ takeWhile (\<lambda>a. connect a = None) as @ [a]))"
  by (induction connect tried as rule: dial_loop.induct)
     (auto split: list.splits option.splits simp del: dropWhile_eq_Nil_conv)

text \<open>A cache is consistent when every entry is a nonempty answer of the resolver.\<close>

definition cache_ok :: "(string \<Rightarrow> string + ip_addr list) \<Rightarrow> dns_cache \<Rightarrow> bool" where
  "cache_ok lookup_ip cache \<longleftrightarrow> (\<forall>host ips. cache host = Some ips \<longrightarrow> ips \<noteq> [] \<and> lookup_ip host = Inr ips)"

definition addresses_of :: "(string \<Rightarrow> string + ip_addr list) \<Rightarrow> destination \<Rightarrow> socket_addr list" where
  "addresses_of lookup_ip dest = map (\<lambda>ip. (ip, port dest)) (case address dest of
     Ip ip \<Rightarrow> [ip]
   | Domain d \<Rightarrow> (case parse_ip d of Some ip \<Rightarrow> [ip] | None \<Rightarrow> (case lookup_ip d of Inr ips \<Rightarrow> ips | Inl _ \<Rightarrow> [])))"

lemma resolve_addr_spec:
  assumes "cache_ok lookup_ip cache" and "resolve_addr lookup_ip dest cache = (r, cache')"
  shows "cache_ok lookup_ip cache'"
    and "if addresses_of lookup_ip dest = [] then \<exists>m. r = Inl (IoMsg NotFound m)
         else r = Inr (addresses_of lookup_ip dest)"
proof -
  have ok: "\<And>host ips. cache host = Some ips \<Longrightarrow> ips \<noteq> [] \<and> lookup_ip host = Inr ips"
    using assms(1) by (simp add: cache_ok_def)
  show "cache_ok lookup_ip cache'"
    using assms(2) ok
    by (fastforce simp: resolve_addr_def dns_resolve_def cache_ok_def
        split: address.splits option.splits sum.splits if_splits)
  show "if addresses_of lookup_ip dest = [] then \<exists>m. r = Inl (IoMsg NotFound m)
         else r = Inr (addresses_of lookup_ip dest)"
    using assms(2) ok
    by (auto simp: resolve_addr_def dns_resolve_def addresses_of_def no_records_def
        split: address.splits option.splits sum.splits if_splits)
qed

text \<open>
  Dialing connects to the first address of the target that accepts, tries the addresses before it in
  order and none after it, and answers that there is none only when every address refused; a cached
  answer and a fresh one give the same result, and the cache only ever holds answers of the resolver,
  whatever entries it lost before.
\<close>

lemma dial_first_address:
  assumes "cache_ok lookup_ip cache0" and "cache \<subseteq>\<^sub>m cache0"
    and "dial_tcp lookup_ip connect dest cache = (r, tried, cache')"
  shows "cache_ok lookup_ip cache' \<and>
    (case r of
       Inr stream \<Rightarrow> \<exists>a before after. addresses_of lookup_ip dest = before @ a # after \<and> tried = before @ [a] \<and>
         (\<forall>b \<in> set before. connect b = None) \<and> connect a = Some stream
     | Inl e \<Rightarrow> io_kind e = NotFound \<and> tried = addresses_of lookup_ip dest \<and>
         (\<forall>b \<in> set (addresses_of lookup_ip dest). connect b = None))"
proof -
  let ?as = "addresses_of lookup_ip dest"
  have ok: "cache_ok lookup_ip cache"
    using assms(1,2) by (auto simp: cache_ok_def map_le_def) (metis domI)+
  obtain res where res: "resolve_addr lookup_ip dest cache = (res, cache')"
    using assms(3) by (auto simp: dial_tcp_def split: prod.splits sum.splits)
  note spec = resolve_addr_spec [OF ok res]
  show ?thesis
  proof (cases "?as = []")
    case True
    with spec(2) assms(3) res show ?thesis using spec(1) by (auto simp: dial_tcp_def)
  next
    case False
    then have run: "dial_loop connect [] ?as = (r, tried)"
      using spec(2) assms(3) res by (auto simp: dial_tcp_def split: prod.splits)
    show ?thesis
    proof (cases "dropWhile (\<lambda>a. connect a = None) ?as")
      case Nil
      then have "\<forall>b \<in> set ?as. connect b = None" by (simp add: dropWhile_eq_Nil_conv)
      with run Nil spec(1) show ?thesis by (auto simp: dial_loop_first)
    next
      case (Cons a as)
      let ?before = "takeWhile (\<lambda>a. connect a = None) ?as"
      have split: "?as = ?before @ a # as" using takeWhile_dropWhile_id [of _ ?as] Cons by metis
      have "connect a \<noteq> None" using hd_dropWhile [of "\<lambda>a. connect a = None" ?as] Cons by simp
      then obtain stream where st: "connect a = Some stream" by blast
      have "r = Inr stream" "tried = ?before @ [a]" using run Cons st by (auto simp: dial_loop_first)
      moreover have "\<forall>b \<in> set ?before. connect b = None" by (auto dest: set_takeWhileD)
      ultimately have "\<exists>b before after. ?as = before @ b # after \<and> tried = before @ [b] \<and>
          (\<forall>x \<in> set before. connect x = None) \<and> connect b = Some stream"
        using split st by blast
      with spec(1) \<open>r = Inr stream\<close> show ?thesis by simp
    qed
  qed
qed

theorem dial_first_address_witness:
  "fst (snd (dial_tcp (\<lambda>h. Inr [V4 1, V4 2, V4 3]) (\<lambda>(ip, p). if ip = V4 2 then Some () else None)
     (dest_tcp (Domain ''a.b'') 80) Map.empty)) = [(V4 1, 80), (V4 2, 80)]"
proof -
  let ?l = "\<lambda>h :: string. Inr [V4 1, V4 2, V4 3] :: string + ip_addr list"
  let ?c = "\<lambda>(ip :: ip_addr, p :: u16). if ip = V4 2 then Some () else None"
  let ?d = "dial_tcp ?l ?c (dest_tcp (Domain ''a.b'') 80) Map.empty"
  have "cache_ok ?l Map.empty" by (simp add: cache_ok_def)
  then have "cache_ok ?l Map.empty" "Map.empty \<subseteq>\<^sub>m (Map.empty :: dns_cache)" by simp_all
  from dial_first_address [OF this, of ?c "dest_tcp (Domain ''a.b'') 80" "fst ?d" "fst (snd ?d)" "snd (snd ?d)"]
  have "case fst ?d of
       Inr stream \<Rightarrow> \<exists>a before after. addresses_of ?l (dest_tcp (Domain ''a.b'') 80) = before @ a # after \<and>
         fst (snd ?d) = before @ [a] \<and> (\<forall>b \<in> set before. ?c b = None) \<and> ?c a = Some stream
     | Inl e \<Rightarrow> io_kind e = NotFound \<and> fst (snd ?d) = addresses_of ?l (dest_tcp (Domain ''a.b'') 80) \<and>
         (\<forall>b \<in> set (addresses_of ?l (dest_tcp (Domain ''a.b'') 80)). ?c b = None)"
    by simp
  moreover have "addresses_of ?l (dest_tcp (Domain ''a.b'') 80) = [(V4 1, 80), (V4 2, 80), (V4 3, 80)]"
    by code_simp
  ultimately show ?thesis
    by (auto simp: Cons_eq_append_conv split: sum.splits if_splits)
qed

end
