(* ===== verification/ByteStream.thy ===== *)
theory ByteStream
  imports Errors
begin

text \<open>
  The contract of a transport's reading side towards the proxies above it: a stream of bytes. A poll with
  room for some bytes gives data, the end of the stream (no bytes), an error, or is pending. The
  transports that reassemble frames (transport/src/grpc.rs and transport/src/ws.rs) are instances.
\<close>

type_synonym 's poll_read = "nat \<Rightarrow> 's \<Rightarrow> bytes io_result option \<times> 's"

text \<open>A reader that polls with the given rooms until it is pending or fails.\<close>

fun poll_all :: "'s poll_read \<Rightarrow> nat list \<Rightarrow> 's \<Rightarrow> bytes list \<times> 's" where
  "poll_all p [] s = ([], s)"
| "poll_all p (room # rooms) s = (case p room s of
     (Some (Inr d), s') \<Rightarrow> (case poll_all p rooms s' of (ds, s'') \<Rightarrow> (d # ds, s''))
   | (_, s') \<Rightarrow> ([], s'))"

locale byte_stream =
  fixes poll_read :: "'s poll_read"
    and content :: "'s \<Rightarrow> bytes"
    and ended :: "'s \<Rightarrow> bool"
    and sound :: "'s \<Rightarrow> bool"
  assumes poll_data: "sound s \<Longrightarrow> content s \<noteq> [] \<Longrightarrow> 0 < room \<Longrightarrow>
      \<exists>d s'. poll_read room s = (Some (Inr d), s') \<and> d \<noteq> [] \<and> length d \<le> room \<and>
        content s = d @ content s' \<and> sound s' \<and> ended s' = ended s"
    and poll_quiet: "sound s \<Longrightarrow> content s = [] \<Longrightarrow> 0 < room \<Longrightarrow>
      \<exists>s'. poll_read room s = (if ended s then Some (Inr []) else None, s') \<and>
        content s' = [] \<and> sound s' \<and> ended s' = ended s"
begin

text \<open>
  Reading loses, adds and reorders nothing, and reports the end of the stream only when everything has
  been read and the peer has ended it.
\<close>

lemma reads_content:
  assumes "sound s" and "\<forall>r \<in> set rooms. 0 < r" and "poll_all poll_read rooms s = (ds, s')"
  shows "content s = concat ds @ content s' \<and> sound s' \<and> ended s' = ended s \<and>
    ([] \<in> set ds \<longrightarrow> ended s \<and> content s' = []) \<and> length ds \<le> length rooms"
  using assms
proof (induction rooms arbitrary: s ds s')
  case (Cons room rooms)
  show ?case
  proof (cases "content s = []")
    case True
    then obtain s1 where s1: "poll_read room s = (if ended s then Some (Inr []) else None, s1)"
      "content s1 = []" "sound s1" "ended s1 = ended s"
      using poll_quiet [of s room] Cons.prems by auto
    show ?thesis
    proof (cases "ended s")
      case ended: True
      obtain ds1 s2 where r: "poll_all poll_read rooms s1 = (ds1, s2)" by fastforce
      have "ds = [] # ds1" "s' = s2" using Cons.prems(3) s1 ended r by auto
      with Cons.IH [OF s1(3) _ r] Cons.prems(2) s1 True ended show ?thesis by auto
    next
      case False
      with Cons.prems(3) s1 True show ?thesis by auto
    qed
  next
    case False
    then obtain d s1 where s1: "poll_read room s = (Some (Inr d), s1)" "d \<noteq> []" "content s = d @ content s1"
      "sound s1" "ended s1 = ended s"
      using poll_data [of s room] Cons.prems by auto
    obtain ds1 s2 where r: "poll_all poll_read rooms s1 = (ds1, s2)" by fastforce
    have "ds = d # ds1" "s' = s2" using Cons.prems(3) s1 r by auto
    with Cons.IH [OF s1(4) _ r] Cons.prems(2) s1 show ?thesis by auto
  qed
qed auto

lemma reads_everything:
  assumes "sound s" and "\<forall>r \<in> set rooms. 0 < r" and "poll_all poll_read rooms s = (ds, s')"
    and "length (content s) \<le> length rooms"
  shows "concat ds = content s \<and> content s' = []"
  using assms
proof (induction rooms arbitrary: s ds s')
  case (Cons room rooms)
  show ?case
  proof (cases "content s = []")
    case True
    with reads_content [OF Cons.prems(1-3)] show ?thesis by auto
  next
    case False
    then obtain d s1 where s1: "poll_read room s = (Some (Inr d), s1)" "d \<noteq> []" "content s = d @ content s1"
      "sound s1" using poll_data [of s room] Cons.prems by auto
    obtain ds1 s2 where r: "poll_all poll_read rooms s1 = (ds1, s2)" by fastforce
    have "ds = d # ds1" "s' = s2" using Cons.prems(3) s1 r by auto
    moreover have "length (content s1) \<le> length rooms"
      using Cons.prems(4) s1(2,3) by (cases d) auto
    ultimately show ?thesis using Cons.IH [OF s1(4) _ r] Cons.prems(2) s1(3) by auto
  qed
qed auto

end

end
