(* ===== verification/Grpc.thy ===== *)
theory Grpc
  imports ByteStream
begin

text \<open>
  transport/src/grpc.rs: the gRPC tunnel. Variable-length integers, the frame around a payload and its
  decoder, the reading and the writing side of a tunnel over an HTTP/2 stream, and the admission of a
  request. The HTTP/2 implementation (crate h2) is an argument: the results of its polls are lists of
  events, and the data handed to it is the output.
\<close>

section \<open>Variable-length integers\<close>

function varint_len_loop :: "u64 \<Rightarrow> nat \<Rightarrow> nat" where
  "varint_len_loop v n = (if 0x80 \<le> v then varint_len_loop (drop_bit 7 v) (Suc n) else n)"
  by pat_completeness auto

function put_varint :: "u64 \<Rightarrow> bytes" where
  "put_varint v = (if 0x80 \<le> v then (ucast v OR 0x80) # put_varint (drop_bit 7 v) else [ucast v])"
  by pat_completeness auto

lemma unat_drop_bit_7: "unat (drop_bit 7 (v :: u64)) = unat v div 128"
  using unat_drop_bit_eq [of 7 v] by (simp only: drop_bit_eq_div) simp

lemma drop_bit_7_less: "0x80 \<le> (v :: u64) \<Longrightarrow> unat (drop_bit 7 v) < unat v"
  by (simp add: unat_drop_bit_7 word_le_nat_alt)

termination varint_len_loop
  by (relation "measure (\<lambda>(v, n). unat v)") (auto simp: drop_bit_7_less not_less)

termination put_varint
  by (relation "measure unat") (auto simp: drop_bit_7_less)

declare varint_len_loop.simps [simp del] put_varint.simps [simp del]

definition varint_len :: "u64 \<Rightarrow> nat" where
  "varint_len v = varint_len_loop v 1"

fun read_varint_loop :: "u64 \<Rightarrow> nat \<Rightarrow> bytes \<Rightarrow> (u64 \<times> bytes) option" where
  "read_varint_loop acc shift [] = None"
| "read_varint_loop acc shift (b # bs) =
     (if 64 \<le> shift then None
      else let acc = acc OR push_bit shift (ucast (b AND 0x7f))
           in if b AND 0x80 = 0 then Some (acc, bs) else read_varint_loop acc (shift + 7) bs)"

definition read_varint :: "bytes \<Rightarrow> (u64 \<times> bytes) option" where
  "read_varint src = read_varint_loop 0 0 src"

section \<open>Frames\<close>

definition MAX_FRAME :: nat where "MAX_FRAME = 16777216"

definition grpc_err :: "string \<Rightarrow> io_error" where
  "grpc_err m = IoMsg InvalidData m"

text \<open>A length is a \<open>usize\<close> of 64 bits, so a checked sum fails at \<open>2 ^ 64\<close>.\<close>

definition grpc_header :: "nat \<Rightarrow> bytes io_result" where
  "grpc_header payload_len =
     (let vlen = varint_len (word_of_nat payload_len); proto_len = 1 + vlen + payload_len
      in if 2 ^ 64 \<le> proto_len then Inl (grpc_err ''grpc: frame length overflow'')
         else if 2 ^ 32 \<le> proto_len then Inl (grpc_err ''grpc: frame length overflow'')
         else Inr ([0] @ be32 (word_of_nat proto_len) @ [0x0A] @ put_varint (word_of_nat payload_len)))"

definition encode_hunk :: "bytes \<Rightarrow> bytes io_result" where
  "encode_hunk payload = rbind (grpc_header (length payload)) (\<lambda>header. Inr (header @ payload))"

definition malformed :: io_error where "malformed = grpc_err ''grpc: malformed hunk''"

text \<open>
  \<open>parse_hunk\<close>, one field per round; the recursion ends because every round consumes the tag.
\<close>

function parse_hunk :: "bytes \<Rightarrow> bytes io_result" where
  "parse_hunk [] = Inr []"
| "parse_hunk (tg # m) =
     (let wire = tg AND 0x07; field = drop_bit 3 tg
      in if wire = 0 then
           (case read_varint m of None \<Rightarrow> Inl malformed | Some (_, r) \<Rightarrow> parse_hunk r)
         else if wire = 2 then
           (case read_varint m of
              None \<Rightarrow> Inl malformed
            | Some (len, r) \<Rightarrow>
                if length r < unat len then Inl malformed
                else if field = 1 then Inr (take (unat len) r)
                else parse_hunk (drop (unat len) r))
         else if wire = 5 then (if 4 \<le> length m then parse_hunk (drop 4 m) else Inl malformed)
         else if wire = 1 then (if 8 \<le> length m then parse_hunk (drop 8 m) else Inl malformed)
         else Inl malformed)"
  by pat_completeness auto

lemma read_varint_loop_shorter: "read_varint_loop acc sh m = Some (v, r) \<Longrightarrow> length r < length m"
  by (induction acc sh m rule: read_varint_loop.induct) (force split: if_splits simp: Let_def)+

lemma read_varint_shorter: "read_varint m = Some (v, r) \<Longrightarrow> length r < length m"
  by (simp add: read_varint_def read_varint_loop_shorter)

termination parse_hunk
  by (relation "measure length") (auto dest: read_varint_shorter)

declare parse_hunk.simps(2) [simp del]

definition try_decode :: "bytes \<Rightarrow> (bytes option \<times> bytes) io_result" where
  "try_decode buf =
     (if length buf < 5 then Inr (None, buf)
      else if buf ! 0 \<noteq> 0 then Inl (grpc_err ''grpc: compressed frames unsupported'')
      else let msg_len = be_nat (take 4 (drop 1 buf))
           in if MAX_FRAME < msg_len then Inl (grpc_err ''grpc: frame too large'')
              else let t = msg_len + 5
                   in if length buf < t then Inr (None, buf)
                      else rbind (parse_hunk (take msg_len (drop 5 buf))) (\<lambda>payload. Inr (Some payload, drop t buf)))"

section \<open>Round trips\<close>

lemma mask_7: "(0x7f :: 'a::len word) = mask 7"
  by (simp add: mask_eq_exp_minus_1)

lemma bit_80: "bit (0x80 :: byte) n \<longleftrightarrow> n = 7" "bit (0x80 :: int) n \<longleftrightarrow> n = 7"
proof -
  have "(0x80 :: byte) = push_bit 7 1" "(0x80 :: int) = push_bit 7 1" by (simp_all add: push_bit_eq_mult)
  then show "bit (0x80 :: byte) n \<longleftrightarrow> n = 7" "bit (0x80 :: int) n \<longleftrightarrow> n = 7"
    by (auto simp only: bit_push_bit_iff bit_1_iff) auto
qed

lemma more_byte: "(ucast (v :: u64) OR 0x80 :: byte) AND 0x80 \<noteq> 0"
proof
  assume "(ucast (v :: u64) OR 0x80 :: byte) AND 0x80 = 0"
  then have "bit ((ucast (v :: u64) OR 0x80 :: byte) AND 0x80) 7 = bit (0 :: byte) 7" by simp
  then show False by (simp add: bit_and_iff bit_or_iff bit_80)
qed

lemma more_byte_low: "ucast ((ucast (v :: u64) OR 0x80 :: byte) AND 0x7f) = v AND 0x7f"
  unfolding mask_7 by (rule bit_word_eqI) (auto simp: bit_simps bit_80)

lemma last_byte_low: "ucast ((ucast (v :: u64) :: byte) AND 0x7f) = v AND 0x7f"
  unfolding mask_7 by (rule bit_word_eqI) (auto simp: bit_simps)

lemma small_word: "(v :: u64) < 0x80 \<Longrightarrow> v AND 0x7f = v"
proof -
  assume "v < 0x80"
  then have "unat v < 2 ^ 7" by (simp add: word_less_nat_alt)
  then have "unat (take_bit 7 v) = unat v" by (simp only: unsigned_take_bit_eq take_bit_nat_eq_self)
  then have "take_bit 7 v = v" by (rule word_unat_eq_iff [THEN iffD2])
  then show ?thesis by (simp only: mask_7 take_bit_eq_mask)
qed

lemma last_byte: "(v :: u64) < 0x80 \<Longrightarrow> (ucast v :: byte) AND 0x80 = 0"
proof -
  assume "v < 0x80"
  then have *: "v = v AND mask 7" using small_word mask_7 by metis
  show ?thesis by (rule bit_word_eqI, subst *) (auto simp: bit_simps bit_80)
qed

lemma join_groups: "push_bit sh (v AND 0x7f) OR push_bit (sh + 7) (drop_bit 7 v) = push_bit sh (v :: u64)"
  unfolding mask_7
proof (rule bit_word_eqI)
  show "bit (push_bit sh (v AND mask 7) OR push_bit (sh + 7) (drop_bit 7 v)) n = bit (push_bit sh v) n"
    if "n < LENGTH(64)" for n
    using that by (cases "sh + 7 \<le> n") (auto simp: bit_simps)
qed

lemma read_put_varint_loop:
  assumes "sh < 64" and "unat v < 2 ^ (64 - sh)"
  shows "read_varint_loop acc sh (put_varint v @ rest) = Some (acc OR push_bit sh v, rest)"
  using assms
proof (induction v arbitrary: acc sh rule: put_varint.induct)
  case (1 v)
  show ?case
  proof (cases "0x80 \<le> v")
    case False
    then have "v < 0x80" by simp
    then show ?thesis
      using False "1.prems" small_word last_byte
      by (simp add: put_varint.simps [of v] last_byte_low)
  next
    case True
    have "2 ^ 7 \<le> unat v" using True by (simp add: word_le_nat_alt)
    from this "1.prems"(2) have "(2 :: nat) ^ 7 < 2 ^ (64 - sh)" by (rule le_less_trans)
    then have "7 < 64 - sh" by (rule power_less_imp_less_exp [rotated]) simp
    then have sh: "sh + 7 < 64" by simp
    have e: "64 - sh = (64 - (sh + 7)) + 7" using sh by simp
    have "2 ^ (64 - sh) = (2 :: nat) ^ (64 - (sh + 7)) * 128" unfolding e power_add by simp
    then have "unat (drop_bit 7 v) < 2 ^ (64 - (sh + 7))"
      using "1.prems"(2) by (simp add: unat_drop_bit_7 less_mult_imp_div_less)
    note IH = "1.IH" [OF True sh this]
    have "read_varint_loop acc sh (put_varint v @ rest) =
        read_varint_loop (acc OR push_bit sh (v AND 0x7f)) (sh + 7) (put_varint (drop_bit 7 v) @ rest)"
      using True "1.prems"(1) more_byte [of v] by (simp add: put_varint.simps [of v] more_byte_low Let_def)
    also have "\<dots> = Some ((acc OR push_bit sh (v AND 0x7f)) OR push_bit (sh + 7) (drop_bit 7 v), rest)"
      by (rule IH)
    finally show ?thesis using join_groups [of sh v] by (simp only: or.assoc)
  qed
qed

lemma read_put_varint: "read_varint (put_varint v @ rest) = Some (v, rest)"
  using read_put_varint_loop [of 0 v 0 rest] unsigned_less [of v] by (simp add: read_varint_def)

lemma varint_len_loop_put: "varint_len_loop v (Suc n) = n + length (put_varint v)"
  by (induction v arbitrary: n rule: put_varint.induct)
     (subst varint_len_loop.simps, subst put_varint.simps, simp)

lemma varint_len_put: "varint_len v = length (put_varint v)"
  using varint_len_loop_put [of v 0] by (simp add: varint_len_def)

text \<open>The frame of a payload, when it is within the limit of the decoder.\<close>

definition hunk :: "bytes \<Rightarrow> bytes" where
  "hunk p = (let m = 0x0A # put_varint (word_of_nat (length p)) @ p in 0 # be_bytes 4 (length m) @ m)"

definition hunk_fits :: "bytes \<Rightarrow> bool" where
  "hunk_fits p \<longleftrightarrow> 1 + length (put_varint (word_of_nat (length p))) + length p \<le> MAX_FRAME"

lemma encode_hunk_eq: "hunk_fits p \<Longrightarrow> encode_hunk p = Inr (hunk p)"
proof -
  assume fits: "hunk_fits p"
  let ?n = "Suc (length (put_varint (word_of_nat (length p))) + length p)"
  have "?n < 2 ^ 32" using fits by (simp add: hunk_fits_def MAX_FRAME_def)
  then have "unat (word_of_nat ?n :: u32) = ?n" by (simp add: unat_of_nat del: of_nat_Suc of_nat_add)
  with \<open>?n < 2 ^ 32\<close> show ?thesis
    by (simp add: encode_hunk_def grpc_header_def hunk_def varint_len_put be32_def del: of_nat_Suc of_nat_add)
qed

lemma parse_hunk_data:
  assumes "length p < 2 ^ 64"
  shows "parse_hunk (0x0A # put_varint (word_of_nat (length p)) @ p @ rest) = Inr p"
proof -
  have len: "unat (word_of_nat (length p) :: u64) = length p"
    using assms by (simp add: unat_of_nat)
  have "(0x0A :: byte) AND 7 = 2" "drop_bit 3 (0x0A :: byte) = 1" by simp_all
  then show ?thesis
    by (simp add: parse_hunk.simps(2) read_put_varint len)
qed

lemma hunk_parts:
  assumes "hunk_fits p"
  shows "\<exists>m. hunk p = 0 # be_bytes 4 (length m) @ m \<and> length m \<le> MAX_FRAME \<and> parse_hunk m = Inr p"
proof -
  have "length p < 2 ^ 64" using assms by (simp add: hunk_fits_def MAX_FRAME_def)
  from parse_hunk_data [OF this, of "[]"] assms show ?thesis
    by (intro exI [of _ "0x0A # put_varint (word_of_nat (length p)) @ p"])
       (simp add: hunk_def hunk_fits_def Let_def)
qed

lemma try_decode_message:
  assumes "length m \<le> MAX_FRAME"
  shows "try_decode (0 # be_bytes 4 (length m) @ m @ rest) =
    rbind (parse_hunk m) (\<lambda>payload. Inr (Some payload, rest))"
proof -
  have "be_nat (be_bytes 4 (length m)) = length m"
    using assms by (simp add: be_nat_be_bytes MAX_FRAME_def)
  moreover have "drop (length m + 5) (0 # be_bytes 4 (length m) @ m @ rest) = rest"
    using drop_append_exact [of "0 # be_bytes 4 (length m) @ m" "length m + 5" rest] by simp
  ultimately show ?thesis
    using assms by (simp add: try_decode_def Let_def)
qed

lemma try_decode_hunk:
  assumes "hunk_fits p"
  shows "try_decode (hunk p @ rest) = Inr (Some p, rest)"
proof -
  obtain m where "hunk p = 0 # be_bytes 4 (length m) @ m" "length m \<le> MAX_FRAME" "parse_hunk m = Inr p"
    using hunk_parts [OF assms] by blast
  then show ?thesis using try_decode_message [of m rest] by simp
qed

lemma try_decode_partial:
  assumes "hunk_fits p" and "hunk p = xs @ y # ys"
  shows "try_decode xs = Inr (None, xs)"
proof -
  obtain m where m: "hunk p = 0 # be_bytes 4 (length m) @ m" "length m \<le> MAX_FRAME"
    using hunk_parts [OF assms(1)] by blast
  show ?thesis
  proof (cases "length xs < 5")
    case True
    then show ?thesis by (simp add: try_decode_def)
  next
    case False
    have len: "length xs < 5 + length m" using arg_cong [OF assms(2), of length] m(1) by simp
    have xs: "xs = take (length xs) (0 # be_bytes 4 (length m) @ m)" using assms(2) m(1) by simp
    have "xs ! 0 = 0" using False by (subst xs, subst nth_take) auto
    moreover have "take 4 (drop 1 xs) = be_bytes 4 (length m)"
      using False by (subst xs) (simp add: take_drop drop_take min_def)
    moreover have "be_nat (be_bytes 4 (length m)) = length m"
      using m(2) by (simp add: be_nat_be_bytes MAX_FRAME_def)
    ultimately show ?thesis using False len m(2) by (simp add: try_decode_def Let_def)
  qed
qed

lemma try_decode_shorter: "try_decode buf = Inr (Some p, rest) \<Longrightarrow> length rest < length buf"
  by (auto simp: try_decode_def Let_def rbind_Inr_conv split: if_splits)

lemma try_decode_None: "try_decode buf = Inr (None, rest) \<Longrightarrow> rest = buf"
  by (auto simp: try_decode_def Let_def rbind_Inr_conv split: if_splits)

lemma hunk_nonempty: "hunk p \<noteq> []"
  by (simp add: hunk_def Let_def)

section \<open>The reading side\<close>

text \<open>The results of \<open>RecvStream::poll_data\<close>; when there are none left it is pending.\<close>

datatype data_event = DData bytes | DErr string | DEnd

record grpc_rx =
  g_recv_buf :: bytes
  g_pending :: bytes
  g_eof :: bool
  g_events :: "data_event list"

text \<open>\<open>poll_read\<close> of \<open>GrpcStream\<close> and of \<open>GrpcReadHalf\<close>, which are the same loop.\<close>

function grpc_poll_read :: "nat \<Rightarrow> grpc_rx \<Rightarrow> bytes io_result option \<times> grpc_rx" where
  "grpc_poll_read room s =
     (if g_pending s \<noteq> [] then
        (let n = min (length (g_pending s)) room
         in (Some (Inr (take n (g_pending s))), s\<lparr>g_pending := drop n (g_pending s)\<rparr>))
      else (case try_decode (g_recv_buf s) of
        Inl e \<Rightarrow> (Some (Inl e), s)
      | Inr (Some payload, rest) \<Rightarrow> grpc_poll_read room (s\<lparr>g_recv_buf := rest, g_pending := payload\<rparr>)
      | Inr (None, _) \<Rightarrow>
          if g_eof s then (Some (Inr []), s)
          else (case g_events s of
            [] \<Rightarrow> (None, s)
          | DData data # es \<Rightarrow> grpc_poll_read room (s\<lparr>g_recv_buf := g_recv_buf s @ data, g_events := es\<rparr>)
          | DErr e # es \<Rightarrow> (Some (Inl (IoMsg KindOther e)), s\<lparr>g_events := es\<rparr>)
          | DEnd # es \<Rightarrow> grpc_poll_read room (s\<lparr>g_eof := True, g_events := es\<rparr>))))"
  by pat_completeness auto

termination grpc_poll_read
  by (relation "measures [\<lambda>(room, s). length (g_events s), \<lambda>(room, s). length (g_recv_buf s)]")
     (auto dest: try_decode_shorter)

declare grpc_poll_read.simps [simp del]

text \<open>What the buffered and the coming bytes decode to.\<close>

function decoded :: "bytes \<Rightarrow> bytes" where
  "decoded w = (case try_decode w of Inr (Some p, rest) \<Rightarrow> p @ decoded rest | _ \<Rightarrow> [])"
  by pat_completeness auto

termination decoded
  by (relation "measure length") (auto dest: try_decode_shorter)

declare decoded.simps [simp del]

fun data_of :: "data_event list \<Rightarrow> bytes" where
  "data_of [] = []"
| "data_of (DData d # es) = d @ data_of es"
| "data_of (_ # es) = data_of es"

definition grpc_content :: "grpc_rx \<Rightarrow> bytes" where
  "grpc_content s = g_pending s @ decoded (g_recv_buf s @ data_of (g_events s))"

definition grpc_ended :: "grpc_rx \<Rightarrow> bool" where
  "grpc_ended s \<longleftrightarrow> g_eof s \<or> DEnd \<in> set (g_events s)"

fun events_ok :: "data_event list \<Rightarrow> bool" where
  "events_ok [] = True"
| "events_ok (DData d # es) = events_ok es"
| "events_ok (DEnd # es) = (es = [])"
| "events_ok (DErr e # es) = False"

definition grpc_sound :: "grpc_rx \<Rightarrow> bool" where
  "grpc_sound s \<longleftrightarrow> events_ok (g_events s) \<and> (g_eof s \<longrightarrow> g_events s = []) \<and>
     (\<exists>ps. (\<forall>p \<in> set ps. hunk_fits p) \<and> g_recv_buf s @ data_of (g_events s) = concat (map hunk ps))"

lemma decoded_hunks: "\<forall>p \<in> set ps. hunk_fits p \<Longrightarrow> decoded (concat (map hunk ps)) = concat ps"
proof (induction ps)
  case Nil
  show ?case by (subst decoded.simps) (simp add: try_decode_def)
next
  case (Cons p ps)
  then show ?case by (subst decoded.simps) (simp add: try_decode_hunk)
qed

text \<open>A buffer of frames either starts with a whole frame, or holds a part of one and asks for more.\<close>

lemma try_decode_stream:
  assumes "\<forall>p \<in> set ps. hunk_fits p" and "buf @ more_data = concat (map hunk ps)"
  shows "(\<exists>p ps'. ps = p # ps' \<and> (\<exists>rest. buf = hunk p @ rest \<and> try_decode buf = Inr (Some p, rest) \<and>
            rest @ more_data = concat (map hunk ps'))) \<or>
         (try_decode buf = Inr (None, buf) \<and> (more_data = [] \<longrightarrow> buf = [] \<and> ps = []))"
proof (cases ps)
  case Nil
  with assms show ?thesis by (simp add: try_decode_def)
next
  case (Cons p ps')
  have fits: "hunk_fits p" using assms(1) Cons by simp
  have eq: "buf @ more_data = hunk p @ concat (map hunk ps')" using assms(2) Cons by simp
  then consider (whole) us where "buf = hunk p @ us" "us @ more_data = concat (map hunk ps')"
    | (part) us where "hunk p = buf @ us" "us \<noteq> []" "more_data = us @ concat (map hunk ps')"
    by (force simp: append_eq_append_conv2)
  then show ?thesis
  proof cases
    case whole
    then show ?thesis using Cons try_decode_hunk [OF fits, of us] by blast
  next
    case part
    then obtain u us' where "us = u # us'" by (cases us) auto
    with try_decode_partial [OF fits] part show ?thesis by auto
  qed
qed

lemma events_ok_data_Nil: "events_ok es \<Longrightarrow> data_of es = [] \<Longrightarrow> set es \<subseteq> {DData [], DEnd}"
  by (induction es rule: events_ok.induct) auto

text \<open>One poll of a sound stream.\<close>

definition good_poll :: "nat \<Rightarrow> grpc_rx \<Rightarrow> bool" where
  "good_poll room s \<longleftrightarrow> (case grpc_poll_read room s of (r, s') \<Rightarrow>
     grpc_sound s' \<and> grpc_ended s' = grpc_ended s \<and>
     (if grpc_content s = [] then r = (if grpc_ended s then Some (Inr []) else None) \<and> grpc_content s' = []
      else \<exists>d. r = Some (Inr d) \<and> d \<noteq> [] \<and> length d \<le> room \<and> grpc_content s = d @ grpc_content s'))"

lemma good_poll_step:
  "good_poll room t \<Longrightarrow> grpc_poll_read room s = grpc_poll_read room t \<Longrightarrow> grpc_content t = grpc_content s \<Longrightarrow>
   grpc_ended t = grpc_ended s \<Longrightarrow> good_poll room s"
  by (simp only: good_poll_def)

lemma grpc_poll_step:
  assumes "grpc_sound s" and "0 < room"
  shows "good_poll room s"
  using assms
proof (induction room s rule: grpc_poll_read.induct)
  case (1 room s)
  obtain ps where ps: "\<forall>p \<in> set ps. hunk_fits p"
    "g_recv_buf s @ data_of (g_events s) = concat (map hunk ps)" and ev: "events_ok (g_events s)"
    "g_eof s \<longrightarrow> g_events s = []" using "1.prems"(1) by (auto simp: grpc_sound_def)
  have content: "grpc_content s = g_pending s @ concat ps"
    using decoded_hunks [OF ps(1)] ps(2) by (simp add: grpc_content_def)
  show ?case
  proof (cases "g_pending s = []")
    case False
    let ?n = "min (length (g_pending s)) room"
    have "grpc_poll_read room s = (Some (Inr (take ?n (g_pending s))), s\<lparr>g_pending := drop ?n (g_pending s)\<rparr>)"
      using False by (simp add: grpc_poll_read.simps [of room s] Let_def)
    moreover have "take ?n (g_pending s) \<noteq> []" using False "1.prems"(2) by simp
    ultimately show ?thesis
      using False "1.prems"(1) by (simp add: good_poll_def grpc_sound_def grpc_ended_def grpc_content_def)
  next
    case pending: True
    from try_decode_stream [OF ps] consider
        (frame) p ps' rest where "ps = p # ps'" "try_decode (g_recv_buf s) = Inr (Some p, rest)"
          "rest @ data_of (g_events s) = concat (map hunk ps')"
      | (part) "try_decode (g_recv_buf s) = Inr (None, g_recv_buf s)"
          "data_of (g_events s) = [] \<longrightarrow> g_recv_buf s = [] \<and> ps = []"
      by blast
    then show ?thesis
    proof cases
      case frame
      let ?s = "s\<lparr>g_recv_buf := rest, g_pending := p\<rparr>"
      have "grpc_sound ?s" using frame ps(1) ev by (auto simp: grpc_sound_def)
      moreover have "grpc_content ?s = grpc_content s" "grpc_ended ?s = grpc_ended s"
        using frame pending content ps(1) decoded_hunks [of ps']
        by (simp_all add: grpc_content_def grpc_ended_def)
      moreover have "grpc_poll_read room s = grpc_poll_read room ?s"
        using frame pending by (simp add: grpc_poll_read.simps [of room s])
      moreover have "good_poll room ?s" if "grpc_sound ?s"
        by (rule "1.IH"(3) [OF _ frame(2) refl refl]) (use pending "1.prems"(2) that in simp_all)
      ultimately show ?thesis by (blast intro: good_poll_step)
    next
      case part
      show ?thesis
      proof (cases "g_eof s \<or> g_events s = []")
        case True
        then have "data_of (g_events s) = []" using ev(2) by auto
        then have "ps = []" using part(2) by blast
        moreover have "grpc_poll_read room s = (if g_eof s then Some (Inr []) else None, s)"
          using True part(1) pending by (auto simp: grpc_poll_read.simps [of room s])
        moreover have "grpc_ended s = g_eof s" using True ev(2) by (auto simp: grpc_ended_def)
        ultimately show ?thesis using content pending "1.prems"(1) by (simp add: good_poll_def)
      next
        case False
        then obtain e es where es: "g_events s = e # es" "\<not> g_eof s" by (cases "g_events s") auto
        show ?thesis
        proof (cases e)
          case (DData d)
          let ?s = "s\<lparr>g_recv_buf := g_recv_buf s @ d, g_events := es\<rparr>"
          have "grpc_sound ?s" "grpc_content ?s = grpc_content s" "grpc_ended ?s = grpc_ended s"
            using "1.prems"(1) es DData by (auto simp: grpc_sound_def grpc_content_def grpc_ended_def)
          moreover have "grpc_poll_read room s = grpc_poll_read room ?s"
            using part(1) pending es DData by (simp add: grpc_poll_read.simps [of room s])
          moreover have "good_poll room ?s" if "grpc_sound ?s"
            by (rule "1.IH"(1) [OF _ part(1) refl refl]) (use pending es DData "1.prems"(2) that in simp_all)
          ultimately show ?thesis by (blast intro: good_poll_step)
        next
          case DEnd
          let ?s = "s\<lparr>g_eof := True, g_events := es\<rparr>"
          have "grpc_sound ?s" "grpc_content ?s = grpc_content s" "grpc_ended ?s = grpc_ended s"
            using "1.prems"(1) es DEnd by (auto simp: grpc_sound_def grpc_content_def grpc_ended_def)
          moreover have "grpc_poll_read room s = grpc_poll_read room ?s"
            using part(1) pending es DEnd by (simp add: grpc_poll_read.simps [of room s])
          moreover have "good_poll room ?s" if "grpc_sound ?s"
            by (rule "1.IH"(2) [OF _ part(1) refl refl]) (use pending es DEnd "1.prems"(2) that in simp_all)
          ultimately show ?thesis by (blast intro: good_poll_step)
        qed (use ev(1) es in auto)
      qed
    qed
  qed
qed

interpretation grpc: byte_stream grpc_poll_read grpc_content grpc_ended grpc_sound
proof
  fix s :: grpc_rx and room :: nat
  assume s: "grpc_sound s" "0 < room"
  show "\<exists>d s'. grpc_poll_read room s = (Some (Inr d), s') \<and> d \<noteq> [] \<and> length d \<le> room \<and>
        grpc_content s = d @ grpc_content s' \<and> grpc_sound s' \<and> grpc_ended s' = grpc_ended s"
    if "grpc_content s \<noteq> []" using grpc_poll_step [OF s] that by (auto simp: good_poll_def split: prod.splits)
  show "\<exists>s'. grpc_poll_read room s = (if grpc_ended s then Some (Inr []) else None, s') \<and>
        grpc_content s' = [] \<and> grpc_sound s' \<and> grpc_ended s' = grpc_ended s"
    if "grpc_content s = []" using grpc_poll_step [OF s] that by (auto simp: good_poll_def split: prod.splits)
qed

definition grpc_rx_new :: "data_event list \<Rightarrow> grpc_rx" where
  "grpc_rx_new es = \<lparr>g_recv_buf = [], g_pending = [], g_eof = False, g_events = es\<rparr>"

text \<open>
  The reading side of the tunnel delivers exactly the payloads of the peer's frames, in order, however
  HTTP/2 cut the frames into DATA frames and however much room each read has; it reports the end of the
  stream only after the peer ended it and everything was read, so an empty frame is not mistaken for it;
  and as many reads as there are bytes are enough to read everything.
\<close>

lemma grpc_reads_payloads:
  assumes "\<forall>p \<in> set ps. hunk_fits p" and "concat ds = concat (map hunk ps)"
    and "\<forall>r \<in> set rooms. 0 < r"
    and "poll_all grpc_poll_read rooms (grpc_rx_new (map DData ds @ (if fin then [DEnd] else []))) = (out, s')"
  shows "concat out @ grpc_content s' = concat ps \<and> ([] \<in> set out \<longrightarrow> fin \<and> concat out = concat ps) \<and>
    (length (concat ps) \<le> length rooms \<longrightarrow> concat out = concat ps)"
proof -
  let ?es = "map DData ds @ (if fin then [DEnd] else [])"
  let ?s = "grpc_rx_new ?es"
  have data: "data_of (map DData ds @ tl) = concat ds @ data_of tl" for tl by (induction ds) auto
  have ok: "events_ok (map DData ds @ tl) = events_ok tl" for tl by (induction ds) auto
  have sound: "grpc_sound ?s"
    using assms(1,2) by (auto simp: grpc_sound_def grpc_rx_new_def data ok)
  have content: "grpc_content ?s = concat ps"
    using assms(2) decoded_hunks [OF assms(1)] by (simp add: grpc_content_def grpc_rx_new_def data)
  have ended: "grpc_ended ?s = fin" by (auto simp: grpc_ended_def grpc_rx_new_def)
  from grpc.reads_content [OF sound assms(3,4)] grpc.reads_everything [OF sound assms(3,4)]
  show ?thesis by (auto simp: content ended)
qed

section \<open>The writing side\<close>

text \<open>
  What the send stream answers in one round of the flow-control loop: the capacity it has, or gets, with
  the error of \<open>send_data\<close> if it fails, an error, or that the stream is gone.
\<close>

datatype cap_event = Cap nat "string option" | CapErr string | CapGone

record grpc_tx =
  t_write_buf :: bytes
  t_sent :: "bytes list"
  t_caps :: "cap_event list"
  t_trailers_sent :: bool
  t_trailers :: nat

definition grpc_tx_new :: "cap_event list \<Rightarrow> grpc_tx" where
  "grpc_tx_new caps = \<lparr>t_write_buf = [], t_sent = [], t_caps = caps, t_trailers_sent = False, t_trailers = 0\<rparr>"

text \<open>\<open>flush_write_buf\<close>: no result is \<open>Pending\<close>.\<close>

fun flush_loop :: "cap_event list \<Rightarrow> bytes \<Rightarrow> bytes list \<Rightarrow> unit io_result option \<times> cap_event list \<times> bytes \<times> bytes list" where
  "flush_loop caps [] sent = (Some (Inr ()), caps, [], sent)"
| "flush_loop [] buf sent = (None, [], buf, sent)"
| "flush_loop (CapErr e # caps) buf sent = (Some (Inl (IoMsg KindOther e)), caps, buf, sent)"
| "flush_loop (CapGone # caps) buf sent = (Some (Inl (IoMsg BrokenPipe [])), caps, buf, sent)"
| "flush_loop (Cap cap err # caps) buf sent =
     (if cap = 0 then (None, caps, buf, sent)
      else let n = min cap (length buf)
           in case err of
                Some e \<Rightarrow> (Some (Inl (IoMsg KindOther e)), caps, drop n buf, sent)
              | None \<Rightarrow> flush_loop caps (drop n buf) (sent @ [take n buf]))"

definition flush_write_buf :: "grpc_tx \<Rightarrow> unit io_result option \<times> grpc_tx" where
  "flush_write_buf s = (case flush_loop (t_caps s) (t_write_buf s) (t_sent s) of (r, caps, buf, sent) \<Rightarrow>
     (r, s\<lparr>t_caps := caps, t_write_buf := buf, t_sent := sent\<rparr>))"

definition grpc_poll_write :: "bytes \<Rightarrow> grpc_tx \<Rightarrow> nat io_result option \<times> grpc_tx" where
  "grpc_poll_write buf s = (case flush_write_buf s of
     (None, s1) \<Rightarrow> (None, s1)
   | (Some (Inl e), s1) \<Rightarrow> (Some (Inl e), s1)
   | (Some (Inr _), s1) \<Rightarrow>
       if buf = [] then (Some (Inr 0), s1)
       else (case encode_hunk buf of
         Inl e \<Rightarrow> (Some (Inl e), s1)
       | Inr w \<Rightarrow> (case flush_write_buf (s1\<lparr>t_write_buf := w\<rparr>) of
           (Some (Inl e), s2) \<Rightarrow> (Some (Inl e), s2)
         | (_, s2) \<Rightarrow> (Some (Inr (length buf)), s2))))"

definition grpc_poll_shutdown :: "grpc_tx \<Rightarrow> unit io_result option \<times> grpc_tx" where
  "grpc_poll_shutdown s = (case flush_write_buf s of
     (None, s1) \<Rightarrow> (None, s1)
   | (Some (Inl e), s1) \<Rightarrow> (Some (Inl e), s1)
   | (Some (Inr _), s1) \<Rightarrow>
       (Some (Inr ()), if t_trailers_sent s1 then s1
                       else s1\<lparr>t_trailers := Suc (t_trailers s1), t_trailers_sent := True\<rparr>))"

text \<open>The write half: \<open>send_all\<close> waits where the adapter is pending, and goes round again on capacity 0.\<close>

fun send_all :: "cap_event list \<Rightarrow> bytes \<Rightarrow> bytes list \<Rightarrow> unit io_result option \<times> cap_event list \<times> bytes list" where
  "send_all caps [] sent = (Some (Inr ()), caps, sent)"
| "send_all [] buf sent = (None, [], sent)"
| "send_all (CapErr e # caps) buf sent = (Some (Inl (IoMsg KindOther e)), caps, sent)"
| "send_all (CapGone # caps) buf sent = (Some (Inl (IoMsg BrokenPipe [])), caps, sent)"
| "send_all (Cap cap err # caps) buf sent =
     (if cap = 0 then send_all caps buf sent
      else let n = min cap (length buf)
           in case err of
                Some e \<Rightarrow> (Some (Inl (IoMsg KindOther e)), caps, sent)
              | None \<Rightarrow> send_all caps (drop n buf) (sent @ [take n buf]))"

definition half_send :: "cap_event list \<Rightarrow> bytes \<Rightarrow> bytes list \<Rightarrow> unit io_result option \<times> cap_event list \<times> bytes list" where
  "half_send caps payload sent =
     (if payload = [] then (Some (Inr ()), caps, sent)
      else case grpc_header (length payload) of
        Inl e \<Rightarrow> (Some (Inl e), caps, sent)
      | Inr header \<Rightarrow> (case send_all caps header sent of
          (Some (Inr _), caps', sent') \<Rightarrow> send_all caps' payload sent'
        | failed \<Rightarrow> failed))"

text \<open>
  A writer that offers its buffers in turn, each until it is taken, and gives up on an error; the polls
  it needs are bounded by the fuel.
\<close>

fun write_run :: "nat \<Rightarrow> bytes list \<Rightarrow> grpc_tx \<Rightarrow> bytes list \<times> grpc_tx" where
  "write_run 0 bufs s = ([], s)"
| "write_run (Suc k) [] s = ([], s)"
| "write_run (Suc k) (b # bufs) s = (case grpc_poll_write b s of
     (Some (Inr _), s') \<Rightarrow> (case write_run k bufs s' of (taken, s'') \<Rightarrow> (b # taken, s''))
   | (Some (Inl _), s') \<Rightarrow> ([], s')
   | (None, s') \<Rightarrow> write_run k (b # bufs) s')"

section \<open>What is on the wire\<close>

text \<open>An empty buffer is taken without a frame.\<close>

definition wire_of :: "bytes \<Rightarrow> bytes" where
  "wire_of p = (if p = [] then [] else hunk p)"

lemma flush_loop_wire:
  "flush_loop caps buf sent = (r, caps', buf', sent') \<Longrightarrow> r = None \<or> r = Some (Inr ()) \<Longrightarrow>
   concat sent' @ buf' = concat sent @ buf \<and> (r = Some (Inr ()) \<longrightarrow> buf' = [])"
  by (induction caps buf sent rule: flush_loop.induct) (auto simp: Let_def split: if_splits option.splits)

lemma flush_loop_total: "r = None \<or> r = Some (Inr ()) \<or> (\<exists>e. r = Some (Inl e))"
  by (cases r) (auto, metis sum.exhaust unit.exhaust)

lemma flush_write_buf_wire:
  assumes "flush_write_buf s = (r, s')" and "r = None \<or> r = Some (Inr ())"
  shows "concat (t_sent s') @ t_write_buf s' = concat (t_sent s) @ t_write_buf s \<and>
    (r = Some (Inr ()) \<longrightarrow> t_write_buf s' = [])"
  using assms flush_loop_wire by (fastforce simp: flush_write_buf_def split: prod.splits)

lemma poll_write_wire:
  assumes "hunk_fits buf" and "grpc_poll_write buf s = (r, s')" and "r = None \<or> r = Some (Inr n)"
  shows "concat (t_sent s') @ t_write_buf s' =
      concat (t_sent s) @ t_write_buf s @ (if r = None then [] else wire_of buf) \<and> (r \<noteq> None \<longrightarrow> n = length buf)"
proof -
  obtain f s1 where f: "flush_write_buf s = (f, s1)" by fastforce
  have ok: "f = None \<or> f = Some (Inr ())"
    using assms(2,3) f by (cases f rule: option.exhaust) (auto simp: grpc_poll_write_def split: sum.splits)
  note w = flush_write_buf_wire [OF f ok]
  show ?thesis
  proof (cases "f = None \<or> buf = []")
    case True
    then show ?thesis using assms(2,3) f ok w by (auto simp: grpc_poll_write_def wire_of_def)
  next
    case False
    obtain g s2 where g: "flush_write_buf (s1\<lparr>t_write_buf := hunk buf\<rparr>) = (g, s2)" by fastforce
    have g_ok: "g = None \<or> g = Some (Inr ())" and r: "r = Some (Inr (length buf))" "s' = s2"
      using assms(1-3) False f g ok encode_hunk_eq [OF assms(1)]
      by (auto simp: grpc_poll_write_def split: option.splits sum.splits)
    from flush_write_buf_wire [OF g g_ok] w False ok r assms(3) show ?thesis by (auto simp: wire_of_def)
  qed
qed

lemma write_run_wire:
  assumes "\<forall>b \<in> set bufs. hunk_fits b" and "write_run k bufs s = (bufs, s')"
  shows "concat (t_sent s') @ t_write_buf s' = concat (t_sent s) @ t_write_buf s @ concat (map wire_of bufs)"
  using assms
proof (induction k bufs s rule: write_run.induct)
  case (3 k b bufs s)
  obtain r s1 where p: "grpc_poll_write b s = (r, s1)" by fastforce
  have fits: "hunk_fits b" using "3.prems"(1) by simp
  show ?case
  proof (cases r)
    case None
    then show ?thesis using "3.IH"(1) [OF p [symmetric] None] poll_write_wire [OF fits p] "3.prems" p by simp
  next
    case (Some rr)
    then obtain n where rr: "rr = Inr n" using "3.prems"(2) p by (cases rr) auto
    obtain taken s2 where w: "write_run k bufs s1 = (taken, s2)" by fastforce
    have "taken = bufs" "s2 = s'" using "3.prems"(2) p Some rr w by auto
    then show ?thesis
      using "3.IH"(2) [OF p [symmetric] Some rr] poll_write_wire [OF fits p, of n] "3.prems"(1) Some rr w by simp
  qed
qed auto

lemma send_all_wire:
  "send_all caps buf sent = (Some (Inr ()), caps', sent') \<Longrightarrow> concat sent' = concat sent @ buf"
  by (induction caps buf sent rule: send_all.induct) (auto simp: Let_def split: if_splits option.splits)

lemma half_send_wire:
  assumes "hunk_fits p" and "half_send caps p sent = (Some (Inr ()), caps', sent')"
  shows "concat sent' = concat sent @ wire_of p"
proof (cases "p = []")
  case True
  with assms(2) show ?thesis by (simp add: half_send_def wire_of_def)
next
  case False
  obtain header where h: "grpc_header (length p) = Inr header" "header @ p = hunk p"
    using encode_hunk_eq [OF assms(1)] by (auto simp: encode_hunk_def rbind_Inr_conv)
  obtain r caps1 sent1 where s1: "send_all caps header sent = (r, caps1, sent1)" by (metis prod_cases3)
  with assms(2) False h(1) have r: "r = Some (Inr ())" "send_all caps1 p sent1 = (Some (Inr ()), caps', sent')"
    by (auto simp: half_send_def split: option.splits sum.splits)
  from send_all_wire [OF s1 [unfolded r(1)]] send_all_wire [OF r(2)] h(2) False show ?thesis
    by (simp add: wire_of_def)
qed

fun half_run :: "cap_event list \<Rightarrow> bytes list \<Rightarrow> bytes list \<Rightarrow> unit io_result option \<times> cap_event list \<times> bytes list" where
  "half_run caps [] sent = (Some (Inr ()), caps, sent)"
| "half_run caps (p # ps) sent = (case half_send caps p sent of
     (Some (Inr _), caps', sent') \<Rightarrow> half_run caps' ps sent'
   | failed \<Rightarrow> failed)"

lemma half_run_wire:
  assumes "\<forall>p \<in> set ps. hunk_fits p" and "half_run caps ps sent = (Some (Inr ()), caps', sent')"
  shows "concat sent' = concat sent @ concat (map wire_of ps)"
  using assms
proof (induction ps arbitrary: caps sent)
  case (Cons p ps)
  obtain r caps1 sent1 where s1: "half_send caps p sent = (r, caps1, sent1)" by (metis prod_cases3)
  with Cons.prems(2) have r: "r = Some (Inr ())" by (auto split: option.splits sum.splits)
  with half_send_wire [of p caps sent caps1 sent1] Cons s1 show ?case by simp
qed simp

lemma wire_of_hunks: "concat (map wire_of ps) = concat (map hunk (filter (\<lambda>p. p \<noteq> []) ps))"
  by (induction ps) (auto simp: wire_of_def)

lemma concat_nonempty: "concat (filter (\<lambda>p. p \<noteq> []) ps) = concat ps"
  by (induction ps) auto

text \<open>
  C32: The tunnel carries a stream of bytes from one end to the other. Whatever buffers are written, by the
  adapter (where each is taken and then flushed) or by the write half, and whatever capacity flow control
  gives each round, the peer reads exactly the concatenation of the buffers, in order, however HTTP/2
  cuts the data and however much room each of its reads has; and it sees the end of the stream only
  after everything. The bounds on a frame are those of the decoder: the message of a buffer is at most
  16 MiB.
\<close>

theorem grpc_tunnel:
  assumes "\<forall>b \<in> set bufs. hunk_fits b"
    and "(write_run k bufs (grpc_tx_new caps) = (bufs, s1) \<and> flush_write_buf s1 = (Some (Inr ()), s2) \<and> sent = t_sent s2) \<or>
         half_run caps bufs [] = (Some (Inr ()), caps', sent)"
    and "concat ds = concat sent" and "\<forall>r \<in> set rooms. 0 < r"
    and "poll_all grpc_poll_read rooms (grpc_rx_new (map DData ds @ (if fin then [DEnd] else []))) = (out, s')"
  shows "(\<exists>unread. concat out @ unread = concat bufs) \<and> ([] \<in> set out \<longrightarrow> fin \<and> concat out = concat bufs) \<and>
    (length (concat bufs) \<le> length rooms \<longrightarrow> concat out = concat bufs)"
proof -
  let ?ps = "filter (\<lambda>p. p \<noteq> []) bufs"
  have "concat sent = concat (map wire_of bufs)"
    using assms(2)
  proof
    assume w: "write_run k bufs (grpc_tx_new caps) = (bufs, s1) \<and> flush_write_buf s1 = (Some (Inr ()), s2) \<and> sent = t_sent s2"
    with write_run_wire [OF assms(1), of k "grpc_tx_new caps" s1] flush_write_buf_wire [of s1 "Some (Inr ())" s2]
    show ?thesis by (auto simp: grpc_tx_new_def)
  next
    assume "half_run caps bufs [] = (Some (Inr ()), caps', sent)"
    from half_run_wire [OF assms(1) this] show ?thesis by simp
  qed
  then have cut: "concat ds = concat (map hunk ?ps)" using assms(3) by (simp add: wire_of_hunks)
  have "\<forall>p \<in> set ?ps. hunk_fits p" using assms(1) by simp
  from grpc_reads_payloads [OF this cut assms(4,5)] show ?thesis unfolding concat_nonempty by blast
qed

theorem grpc_tunnel_witness:
  "concat (fst (poll_all grpc_poll_read [2, 9, 9, 9]
     (grpc_rx_new (map DData [take 4 (hunk [1, 2, 3]), drop 4 (hunk [1, 2, 3])] @ [DEnd])))) = [1, 2, 3]"
proof -
  let ?ds = "[take 4 (hunk [1, 2, 3]), drop 4 (hunk [1, 2, 3])] :: bytes list"
  let ?caps = "[Cap 3 None, Cap 0 None, Cap 100 None, Cap 2 None, Cap 9 None]"
  let ?sent = "[[0, 0, 0], [0, 5, 10, 3], [1, 2], [3]] :: bytes list"
  have fits: "\<forall>b \<in> set [[1, 2, 3]]. hunk_fits b" by (simp add: hunk_fits_def MAX_FRAME_def put_varint.simps)
  have sent: "half_run ?caps [[1, 2, 3]] [] = (Some (Inr ()), [], ?sent)" by code_simp
  have ds: "concat ?ds = concat ?sent" by code_simp
  obtain out s' where r: "poll_all grpc_poll_read [2, 9, 9, 9] (grpc_rx_new (map DData ?ds @ (if True then [DEnd] else []))) = (out, s')"
    by fastforce
  from grpc_tunnel [OF fits disjI2 [OF sent] ds _ r] r show ?thesis by simp
qed

section \<open>Admission\<close>

text \<open>
  The percent encoder (crate percent-encoding) is an argument: the set of characters to escape and the
  text give the escaped text. \<open>NON_ALPHANUMERIC\<close> is every byte that is not an ASCII letter or digit.
\<close>

definition path_segment :: "char \<Rightarrow> bool" where
  "path_segment c \<longleftrightarrow> \<not> is_ascii_alphanumeric c \<and> c \<notin> set ''-_.~$&+:=@''"

type_synonym percent_encoder = "(char \<Rightarrow> bool) \<Rightarrow> string \<Rightarrow> string"

definition path_escape :: "percent_encoder \<Rightarrow> string \<Rightarrow> string" where
  "path_escape pct s = pct path_segment s"

fun join :: "string \<Rightarrow> string list \<Rightarrow> string" where
  "join sep [] = []"
| "join sep [x] = x"
| "join sep (x # xs) = x @ sep @ join sep xs"

definition grpc_path_parts :: "percent_encoder \<Rightarrow> string \<Rightarrow> string \<times> string" where
  "grpc_path_parts pct service = (case strip_prefix ''/'' service of
     None \<Rightarrow> (path_escape pct service, ''Tun'')
   | Some after \<Rightarrow>
       (case (case rsplit_once CHR ''/'' after of Some p \<Rightarrow> p | None \<Rightarrow> ([], after)) of (raw_svc, ending) \<Rightarrow>
         (join ''/'' (map (path_escape pct) (split_on (\<lambda>c. c = CHR ''/'') raw_svc)),
          path_escape pct (case split_on (\<lambda>c. c = CHR ''|'') ending of x # _ \<Rightarrow> x | [] \<Rightarrow> ending))))"

definition path_matches :: "percent_encoder \<Rightarrow> string \<Rightarrow> string \<Rightarrow> bool" where
  "path_matches pct path service = (case grpc_path_parts pct service of (svc, tun) \<Rightarrow>
     path = ''/'' @ svc @ ''/'' @ tun)"

text \<open>
  A request as far as the code looks at it: the content type is absent, not text, or the text; the last
  component is the error of sending the response head, if it fails.
\<close>

record grpc_request =
  rq_method :: string
  rq_path :: string
  rq_content_type :: "string option option"
  rq_send_error :: "string option"

definition starts_with :: "string \<Rightarrow> string \<Rightarrow> bool" where
  "starts_with p s = (take (length p) s = p)"

definition accept_request :: "percent_encoder \<Rightarrow> string \<Rightarrow> grpc_request \<Rightarrow> unit io_result" where
  "accept_request pct service rq =
     (if rq_method rq \<noteq> ''POST'' then Inl (grpc_err ''grpc: expected POST'')
      else if \<not> path_matches pct (rq_path rq) service then Inl (grpc_err ''grpc: unexpected path'')
      else if (case rq_content_type rq of
                 None \<Rightarrow> False
               | Some None \<Rightarrow> True
               | Some (Some ct) \<Rightarrow> \<not> starts_with ''application/grpc'' ct)
           then Inl (grpc_err ''grpc: unexpected content-type'')
      else case rq_send_error rq of Some e \<Rightarrow> Inl (IoMsg KindOther e) | None \<Rightarrow> Inr ())"

datatype conn_event = Request grpc_request | ConnError

datatype served = Delivered nat | Reset nat

text \<open>
  The accept loop of \<open>serve\<close>: stream number \<open>i\<close> is handed to the listener or reset. \<open>capacity\<close> is how many
  streams the listener takes before it drops the receiver, if it does.
\<close>

fun serve_loop :: "percent_encoder \<Rightarrow> string \<Rightarrow> nat option \<Rightarrow> nat \<Rightarrow> conn_event list \<Rightarrow> served list" where
  "serve_loop pct service capacity i [] = []"
| "serve_loop pct service capacity i (ConnError # es) = []"
| "serve_loop pct service capacity i (Request rq # es) = (case accept_request pct service rq of
     Inl _ \<Rightarrow> Reset i # serve_loop pct service capacity (Suc i) es
   | Inr _ \<Rightarrow> (case capacity of
       Some 0 \<Rightarrow> []
     | Some (Suc n) \<Rightarrow> Delivered i # serve_loop pct service (Some n) (Suc i) es
     | None \<Rightarrow> Delivered i # serve_loop pct service None (Suc i) es))"

text \<open>
  Admission to a gRPC connection. A stream is handed to the listener exactly when its request is a POST
  to the path of the configured service with, if it has a content type, one of gRPC; any other request
  resets its own stream only: as long as the listener takes streams and the connection lasts, every
  request gets its own answer in order, whatever the others were.
\<close>

lemma accept_request_iff:
  "accept_request pct service rq = Inr () \<longleftrightarrow>
      rq_method rq = ''POST'' \<and> path_matches pct (rq_path rq) service \<and>
      (rq_content_type rq = None \<or> (\<exists>ct. rq_content_type rq = Some (Some (''application/grpc'' @ ct)))) \<and>
      rq_send_error rq = None"
proof -
  have "starts_with p ct \<longleftrightarrow> (\<exists>tl. ct = p @ tl)" for p ct
    by (auto simp: starts_with_def) (metis append_take_drop_id)
  then show ?thesis
    by (auto simp: accept_request_def split: option.splits if_splits)
qed

lemma grpc_admission:
  "serve_loop pct service None i (map Request rqs) =
     map (\<lambda>(i, rq). if accept_request pct service rq = Inr () then Delivered i else Reset i) (enumerate i rqs)"
  by (induction rqs arbitrary: i) (auto split: sum.splits)

end
