(* ===== verification/Tree.thy ===== *)
theory Tree
  imports Rule ProxyIo
begin

text \<open>
  kernel/src/runtime/tree.rs with kernel/src/pipe/outbound.rs and kernel/src/pipe/transport.rs: the services
  of an inbound. The transport frames a connection into streams, the proxy decodes each, the route child
  decides where it goes and the outbound child runs the chosen outbound. The decoder, the transport and
  the outbounds are arguments, as they are type parameters in the code; a child driven by \<open>oneshot\<close> is a
  function from the request and the state to the result and the new state. What the model keeps of an
  outbound is that it was run, and with what.
\<close>

section \<open>The outbound list\<close>

type_synonym 'o outbound_map = "string \<rightharpoonup> 'o"

text \<open>Collected into a \<open>HashMap\<close>: the last outbound of a tag wins.\<close>

definition outbound_build :: "(string \<times> 'o) list \<Rightarrow> 'o outbound_map" where
  "outbound_build items = foldl (\<lambda>m (tg, ob). m(tg \<mapsto> ob)) Map.empty items"

definition outbound_list_new :: "(string \<times> 'o) list \<Rightarrow> 'o outbound_map rcu_cell" where
  "outbound_list_new items = outbound_build items"

definition outbound_list_get :: "'o outbound_map rcu_cell \<Rightarrow> string \<Rightarrow> 'o option" where
  "outbound_list_get l tg = rcu_load l tg"

definition outbound_list_replace :: "'o outbound_map rcu_cell \<Rightarrow> (string \<times> 'o) list \<Rightarrow> 'o outbound_map rcu_cell" where
  "outbound_list_replace l items = rcu_store l (outbound_build items)"

section \<open>The transport list\<close>

definition transport_list_new :: "'t list \<Rightarrow> 't list rcu_cell" where
  "transport_list_new items = items"

definition transport_list_load :: "'t list rcu_cell \<Rightarrow> 't list" where
  "transport_list_load l = rcu_load l"

definition transport_list_replace :: "'t list rcu_cell \<Rightarrow> 't list \<Rightarrow> 't list rcu_cell" where
  "transport_list_replace l items = rcu_store l items"

section \<open>Requests\<close>

record route_request =
  rr_target :: destination
  rr_network :: network
  rr_source :: "ip_addr option"
  rr_sniffed_domain :: "string option"
  rr_auth_hash :: "u64 option"

record outbound_request =
  or_decision :: route_decision
  or_ctx :: ctx
  or_target :: destination
  or_link :: link

section \<open>The route service\<close>

definition route_service_call ::
  "geo_matcher \<Rightarrow> u64 \<Rightarrow> route_request \<Rightarrow> route_table \<Rightarrow> route_decision result \<times> route_table" where
  "route_service_call geo rnd req tbl =
     (let query = \<lparr>target = rr_target req, q_network = rr_network req, q_source = rr_source req,
                   sniffed_domain = rr_sniffed_domain req, auth_hash = rr_auth_hash req\<rparr>
      in case route geo rnd tbl query of (decision, tbl') \<Rightarrow> (Inr decision, tbl'))"

section \<open>The outbound dispatch\<close>

record 'o dispatch =
  od_outbounds :: "'o outbound_map"
  od_freedom_tag :: "string option"

text \<open>A run of an outbound: the outbound and the arguments of its \<open>process\<close>.\<close>

type_synonym 'o run = "'o \<times> ctx \<times> destination \<times> link"

definition dispatch_call ::
  "('o run \<Rightarrow> unit io_result) \<Rightarrow> 'o dispatch \<Rightarrow> outbound_request \<Rightarrow> 'o run list \<Rightarrow> unit io_result \<times> 'o run list" where
  "dispatch_call process d req runs =
     (let tg = (case or_decision req of
                   Outbound t \<Rightarrow> Some t
                 | Freedom \<Rightarrow> od_freedom_tag d
                 | Blackhole \<Rightarrow> None)
      in case tg of
           None \<Rightarrow> (Inr (), runs)
         | Some tg \<Rightarrow> (case outbound_list_get (od_outbounds d) tg of
             None \<Rightarrow> (Inr (), runs)
           | Some ob \<Rightarrow> (let r = (ob, or_ctx req, or_target req, or_link req) in (process r, runs @ [r]))))"

section \<open>The proxy service\<close>

definition proxy_route_request :: "proxy_decision \<Rightarrow> route_request" where
  "proxy_route_request d =
     \<lparr>rr_target = pd_target d, rr_network = network (pd_target d),
      rr_source = map_option fst (ctx_source (pd_ctx d)), rr_sniffed_domain = None,
      rr_auth_hash = user_auth_hash (pd_ctx d)\<rparr>"

definition proxy_service_call ::
  "(ctx \<Rightarrow> 'st \<Rightarrow> proxy_decision io_result) \<Rightarrow> (route_request \<Rightarrow> 's \<Rightarrow> route_decision io_result \<times> 's) \<Rightarrow>
   (outbound_request \<Rightarrow> 's \<Rightarrow> unit io_result \<times> 's) \<Rightarrow> ctx \<Rightarrow> 'st \<Rightarrow> 's \<Rightarrow> unit io_result \<times> 's" where
  "proxy_service_call decode route_child outbound_child c stream s =
     (case decode c stream of
        Inl e \<Rightarrow> (Inl e, s)
      | Inr d \<Rightarrow> (case route_child (proxy_route_request d) s of
          (Inl e, s') \<Rightarrow> (Inl e, s')
        | (Inr decision, s') \<Rightarrow>
            outbound_child \<lparr>or_decision = decision, or_ctx = pd_ctx d, or_target = pd_target d, or_link = pd_link d\<rparr> s'))"

section \<open>The transport service\<close>

datatype 'st accepted = Single 'st | Multiplexed "'st list"

definition mk_ctx :: "string \<Rightarrow> socket_addr \<Rightarrow> socket_addr option \<Rightarrow> u64 \<Rightarrow> ctx \<times> u64" where
  "mk_ctx tg local source next_id =
     (case ctx_new next_id tg source of (c, next_id') \<Rightarrow> (c\<lparr>ctx_local := Some local\<rparr>, next_id'))"

text \<open>
  The streams of a carrier, as the receiver hands them out until the carrier ends; each is given to a
  spawned task, whose result nobody looks at.
\<close>

primrec spawn_streams ::
  "string \<Rightarrow> socket_addr \<Rightarrow> socket_addr option \<Rightarrow> 'st list \<Rightarrow> u64 \<Rightarrow> (ctx \<times> 'st) list \<times> u64" where
  "spawn_streams tg local source [] next_id = ([], next_id)"
| "spawn_streams tg local source (stream # rx) next_id =
     (case mk_ctx tg local source next_id of (c, next_id') \<Rightarrow>
      case spawn_streams tg local source rx next_id' of (tasks, next_id'') \<Rightarrow> ((c, stream) # tasks, next_id''))"

definition transport_service_call ::
  "('c \<Rightarrow> 'st accepted io_result) \<Rightarrow> socket_addr \<Rightarrow> string \<Rightarrow> (ctx \<Rightarrow> 'st \<Rightarrow> 's \<Rightarrow> unit io_result \<times> 's) \<Rightarrow>
   'c \<Rightarrow> socket_addr option \<Rightarrow> u64 \<Rightarrow> 's \<Rightarrow> unit io_result \<times> (ctx \<times> 'st) list \<times> u64 \<times> 's" where
  "transport_service_call accept local tg proxy_child conn source next_id s =
     (case accept conn of
        Inl e \<Rightarrow> (Inl e, [], next_id, s)
      | Inr (Single stream) \<Rightarrow> (case mk_ctx tg local source next_id of (c, next_id') \<Rightarrow>
          case proxy_child c stream s of (r, s') \<Rightarrow> (r, [], next_id', s'))
      | Inr (Multiplexed rx) \<Rightarrow> (case spawn_streams tg local source rx next_id of (tasks, next_id') \<Rightarrow>
          (Inr (), tasks, next_id', s)))"

text \<open>The children of the tree on one state: the route table and the runs so far.\<close>

type_synonym 'o tree_state = "route_table \<times> 'o run list"

definition tree_route :: "geo_matcher \<Rightarrow> u64 \<Rightarrow> route_request \<Rightarrow> 'o tree_state \<Rightarrow> route_decision io_result \<times> 'o tree_state" where
  "tree_route geo rnd req s = (case s of (tbl, rs) \<Rightarrow>
     case route_service_call geo rnd req tbl of (r, tbl') \<Rightarrow> (map_err io_from_error r, (tbl', rs)))"

definition tree_dispatch ::
  "('o run \<Rightarrow> unit io_result) \<Rightarrow> 'o dispatch \<Rightarrow> outbound_request \<Rightarrow> 'o tree_state \<Rightarrow> unit io_result \<times> 'o tree_state" where
  "tree_dispatch process d req s = (case s of (tbl, rs) \<Rightarrow>
     case dispatch_call process d req rs of (r, rs') \<Rightarrow> (r, (tbl, rs')))"

section \<open>The contract of the children\<close>

text \<open>
  What the proxy service relies on: the route child only decides, by \<open>decides\<close>, and runs nothing; the
  outbound child runs at most one outbound, the one the decision resolves to, with the context, the target
  and the link of the request, and returns its result.
\<close>

locale proxy_children =
  fixes route_child :: "route_request \<Rightarrow> 's \<Rightarrow> route_decision io_result \<times> 's"
    and outbound_child :: "outbound_request \<Rightarrow> 's \<Rightarrow> unit io_result \<times> 's"
    and process :: "'o run \<Rightarrow> unit io_result"
    and runs_of :: "'s \<Rightarrow> 'o run list"
    and decides :: "'s \<Rightarrow> route_request \<Rightarrow> route_decision \<Rightarrow> bool"
    and resolve :: "route_decision \<Rightarrow> 'o option"
  assumes route_total: "\<exists>d s'. route_child q s = (Inr d, s') \<and> decides s q d \<and> runs_of s' = runs_of s"
    and outbound_once: "outbound_child oq s = (r, s') \<Longrightarrow>
      (case resolve (or_decision oq) of
         Some ob \<Rightarrow> r = process (ob, or_ctx oq, or_target oq, or_link oq) \<and>
           runs_of s' = runs_of s @ [(ob, or_ctx oq, or_target oq, or_link oq)]
       | None \<Rightarrow> r = Inr () \<and> runs_of s' = runs_of s)"
begin

lemma flow_refused:
  "decode c stream = Inl e \<Longrightarrow> proxy_service_call decode route_child outbound_child c stream s = (Inl e, s)"
  by (simp add: proxy_service_call_def)

lemma flow_served:
  assumes "decode c stream = Inr d" and "proxy_service_call decode route_child outbound_child c stream s = (r, s')"
  shows "\<exists>decision. decides s (proxy_route_request d) decision \<and>
    (case resolve decision of
       Some ob \<Rightarrow> r = process (ob, pd_ctx d, pd_target d, pd_link d) \<and>
         runs_of s' = runs_of s @ [(ob, pd_ctx d, pd_target d, pd_link d)]
     | None \<Rightarrow> r = Inr () \<and> runs_of s' = runs_of s)"
proof -
  obtain dec s1 where route: "route_child (proxy_route_request d) s = (Inr dec, s1)"
    "decides s (proxy_route_request d) dec" "runs_of s1 = runs_of s" using route_total by blast
  have "outbound_child \<lparr>or_decision = dec, or_ctx = pd_ctx d, or_target = pd_target d, or_link = pd_link d\<rparr> s1 = (r, s')"
    using assms route(1) by (simp add: proxy_service_call_def)
  from outbound_once [OF this] route show ?thesis by (intro exI [of _ dec]) (simp split: option.splits)
qed

end

text \<open>The decision of a route table, and the outbound a dispatch runs for a decision.\<close>

definition query_of :: "route_request \<Rightarrow> route_query" where
  "query_of req = \<lparr>target = rr_target req, q_network = rr_network req, q_source = rr_source req,
     sniffed_domain = rr_sniffed_domain req, auth_hash = rr_auth_hash req\<rparr>"

definition table_decides :: "geo_matcher \<Rightarrow> route_table \<Rightarrow> route_request \<Rightarrow> route_decision \<Rightarrow> bool" where
  "table_decides geo tbl req d \<longleftrightarrow> (case find (\<lambda>rl. rule_matches geo rl (query_of req)) (rules tbl) of
     None \<Rightarrow> d = default_branch tbl
   | Some rl \<Rightarrow> (if outs rl = [] then d = Blackhole else \<exists>t \<in> set (outs rl). d = Outbound t))"

definition resolved :: "'o dispatch \<Rightarrow> route_decision \<Rightarrow> 'o option" where
  "resolved dp d = (case d of
     Outbound t \<Rightarrow> od_outbounds dp t
   | Freedom \<Rightarrow> Option.bind (od_freedom_tag dp) (od_outbounds dp)
   | Blackhole \<Rightarrow> None)"

lemma find_first: "find P (pre @ x # post) = Some x" if "\<forall>y \<in> set pre. \<not> P y" "P x"
  using that by (induction pre) auto

lemma route_table_decides:
  assumes "route geo rnd tbl (query_of req) = (d, tbl')"
  shows "table_decides geo tbl req d"
proof (cases "route_rules geo rnd (rules tbl) (query_of req)")
  case None
  then have "find (\<lambda>rl. rule_matches geo rl (query_of req)) (rules tbl) = None"
    by (simp add: find_None_iff route_rules_None)
  with None assms show ?thesis by (auto simp: table_decides_def route_def)
next
  case (Some dr)
  obtain d' rs' where dr: "dr = (d', rs')" by fastforce
  from route_rules_Some [OF Some [unfolded dr]] obtain pre rl post rl' where r:
    "rules tbl = pre @ rl # post" "\<forall>x \<in> set pre. \<not> rule_matches geo x (query_of req)"
    "rule_matches geo rl (query_of req)" "decide rnd rl (query_of req) = (d', rl')" by blast
  have "find (\<lambda>rl. rule_matches geo rl (query_of req)) (rules tbl) = Some rl"
    unfolding r(1) by (rule find_first) (use r in auto)
  with decide_outs [OF r(4)] Some dr assms show ?thesis by (auto simp: table_decides_def route_def)
qed

interpretation kt: proxy_children "tree_route geo rnd" "tree_dispatch process dp" process snd
  "\<lambda>s. table_decides geo (fst s)" "resolved dp" for geo rnd process dp
proof
  fix q :: route_request and s :: "'a tree_state"
  obtain d tbl' where r: "route geo rnd (fst s) (query_of q) = (d, tbl')" by fastforce
  then show "\<exists>d s'. tree_route geo rnd q s = (Inr d, s') \<and> table_decides geo (fst s) q d \<and> snd s' = snd s"
    using route_table_decides [OF r]
    by (intro exI [of _ d] exI [of _ "(tbl', snd s)"])
       (cases s, simp add: tree_route_def route_service_call_def query_of_def map_err_def)
next
  fix oq r and s s' :: "'a tree_state"
  assume "tree_dispatch process dp oq s = (r, s')"
  then show "case resolved dp (or_decision oq) of
      Some ob \<Rightarrow> r = process (ob, or_ctx oq, or_target oq, or_link oq) \<and>
        snd s' = snd s @ [(ob, or_ctx oq, or_target oq, or_link oq)]
    | None \<Rightarrow> r = Inr () \<and> snd s' = snd s"
    by (auto simp: tree_dispatch_def dispatch_call_def resolved_def outbound_list_get_def rcu_load_def Let_def
        split: route_decision.splits option.splits prod.splits)
qed

text \<open>
  C29: A flow through the whole tree. When the proxy refuses the stream, its error is the result and no
  outbound runs. Otherwise the first matching rule of the table decides for the flow as the proxy
  attributed it; exactly one outbound runs, the one that a tag of that rule (or the default, with its
  freedom tag) names, with the flow's context, target and link, and its result is the result; and when the
  decision names no outbound the flow is dropped without an error.
\<close>

theorem tree_flow:
  assumes "proxy_service_call decode (tree_route geo rnd) (tree_dispatch process dp) c stream s = (r, s')"
  shows "case decode c stream of
      Inl e \<Rightarrow> r = Inl e \<and> s' = s
    | Inr d \<Rightarrow> \<exists>decision. table_decides geo (fst s) (proxy_route_request d) decision \<and>
        (case resolved dp decision of
           None \<Rightarrow> r = Inr () \<and> snd s' = snd s
         | Some ob \<Rightarrow> r = process (ob, pd_ctx d, pd_target d, pd_link d) \<and>
             snd s' = snd s @ [(ob, pd_ctx d, pd_target d, pd_link d)])"
proof (cases "decode c stream")
  case (Inl e)
  then have "proxy_service_call decode (tree_route geo rnd) (tree_dispatch process dp) c stream s = (Inl e, s)"
    by (rule kt.flow_refused)
  with Inl assms show ?thesis by simp
next
  case (Inr d)
  from kt.flow_served [OF Inr assms] Inr show ?thesis by auto
qed

text \<open>The tasks of a carrier in closed form.\<close>

definition spawned ::
  "string \<Rightarrow> socket_addr \<Rightarrow> socket_addr option \<Rightarrow> u64 \<Rightarrow> 'st list \<Rightarrow> (ctx \<times> 'st) list" where
  "spawned tg loc source i rx = map (\<lambda>(k, st). (\<lparr>ctx_id = i + word_of_nat k, inbound_tag = tg, ctx_source = source,
     ctx_local = Some loc, user_email = None, user_auth_hash = None\<rparr>, st)) (enumerate 0 rx)"

lemma spawn_streams_eq:
  "spawn_streams tg loc source rx i = (spawned tg loc source i rx, i + word_of_nat (length rx))"
proof (induction rx arbitrary: i)
  case (Cons st rx)
  have "spawned tg loc source i (st # rx) =
      (\<lparr>ctx_id = i, inbound_tag = tg, ctx_source = source, ctx_local = Some loc, user_email = None, user_auth_hash = None\<rparr>, st)
      # spawned tg loc source (i + 1) rx"
    by (simp add: spawned_def enumerate_Suc_eq comp_def case_prod_beta add.assoc)
  with Cons show ?case by (simp add: mk_ctx_def ctx_new_def add.assoc)
qed (simp add: spawned_def)

text \<open>
  The contexts of a connection. Every stream of a carrier is spawned exactly once, in order, as a flow
  of its own: with the inbound's tag, the peer's address and the listener's address, no user yet, and
  consecutive identifiers, so that no two flows of the carrier share one. The call itself succeeds
  whatever becomes of the flows.
\<close>

lemma carrier_contexts:
  assumes "accept conn = Inr (Multiplexed rx)" and "length rx < 2 ^ 64"
  shows "\<exists>tasks. transport_service_call accept loc tg child conn source next_id s =
      (Inr (), tasks, next_id + word_of_nat (length rx), s) \<and> map snd tasks = rx \<and>
    (\<forall>(c, stream) \<in> set tasks. inbound_tag c = tg \<and> ctx_source c = source \<and> ctx_local c = Some loc \<and>
       user_email c = None \<and> user_auth_hash c = None) \<and>
    distinct (map (ctx_id \<circ> fst) tasks)"
proof -
  let ?tasks = "spawned tg loc source next_id rx"
  have "map (ctx_id \<circ> fst) ?tasks = map (\<lambda>k. next_id + word_of_nat k) [0..<length rx]"
    by (intro nth_equalityI) (simp_all add: spawned_def nth_enumerate_eq)
  moreover have "inj_on (\<lambda>k. next_id + word_of_nat k) {0..<length rx}"
    using assms(2) by (intro inj_onI) (simp add: word_of_nat_eq_iff take_bit_nat_eq_self)
  ultimately have "distinct (map (ctx_id \<circ> fst) ?tasks)" by (simp add: distinct_map)
  moreover have "map snd ?tasks = rx"
    by (intro nth_equalityI) (simp_all add: spawned_def nth_enumerate_eq)
  ultimately show ?thesis
    using assms(1)
    by (intro exI [of _ ?tasks]) (auto simp: transport_service_call_def spawn_streams_eq spawned_def)
qed

text \<open>A tree that blocks one domain and sends the rest to the freedom outbound.\<close>

definition sample_table :: route_table where
  "sample_table = table_new [rule_new [DomainSuffix ''blocked.com''] [''block''] Random] None"

definition sample_dispatch :: "string dispatch" where
  "sample_dispatch = \<lparr>od_outbounds = outbound_list_new [(''direct'', ''D''), (''block'', ''B'')], od_freedom_tag = Some ''direct''\<rparr>"

definition sample_flow :: "string \<Rightarrow> ctx \<Rightarrow> unit \<Rightarrow> proxy_decision io_result" where
  "sample_flow host c stream = Inr \<lparr>pd_target = dest_tcp (Domain host) 443, pd_ctx = c, pd_link = NoLink\<rparr>"

definition sample_tree_ctx :: ctx where
  "sample_tree_ctx = fst (ctx_new 1 ''in'' None)"

theorem tree_flow_witness:
  "snd (snd (proxy_service_call (sample_flow ''allowed.com'') (tree_route NoGeo 5)
      (tree_dispatch (\<lambda>_. Inr ()) sample_dispatch) sample_tree_ctx () (sample_table, []))) =
    [(''D'', sample_tree_ctx, dest_tcp (Domain ''allowed.com'') 443, NoLink)]"
proof -
  let ?p = "proxy_service_call (sample_flow ''allowed.com'') (tree_route NoGeo 5)
      (tree_dispatch (\<lambda>_. Inr ()) sample_dispatch) sample_tree_ctx () (sample_table, [])"
  let ?d = "\<lparr>pd_target = dest_tcp (Domain ''allowed.com'') 443, pd_ctx = sample_tree_ctx, pd_link = NoLink\<rparr>"
  have d: "sample_flow ''allowed.com'' sample_tree_ctx () = Inr ?d" by (simp add: sample_flow_def)
  have "find (\<lambda>rl. rule_matches NoGeo rl (query_of (proxy_route_request ?d))) (rules sample_table) = None"
    "default_branch sample_table = Freedom"
    by code_simp+
  then have "table_decides NoGeo sample_table (proxy_route_request ?d) dec \<Longrightarrow> dec = Freedom" for dec
    by (simp add: table_decides_def)
  moreover have "resolved sample_dispatch Freedom = Some ''D''" by code_simp
  moreover obtain dec where "table_decides NoGeo sample_table (proxy_route_request ?d) dec"
    "case resolved sample_dispatch dec of None \<Rightarrow> fst ?p = Inr () \<and> snd (snd ?p) = []
     | Some ob \<Rightarrow> fst ?p = Inr () \<and> snd (snd ?p) = [(ob, pd_ctx ?d, pd_target ?d, pd_link ?d)]"
    using tree_flow [of "sample_flow ''allowed.com''" NoGeo 5 "\<lambda>_. Inr ()" sample_dispatch
      sample_tree_ctx "()" "(sample_table, [])" "fst ?p" "snd ?p"] d by (auto split: option.splits)
  ultimately show ?thesis by fastforce
qed

theorem carrier_contexts_witness:
  "\<exists>tasks. transport_service_call (\<lambda>_. Inr (Multiplexed [''x'', ''y''])) (V4 0, 443) ''in'' (\<lambda>_ _ s. (Inr (), s)) () None 7 () =
     (Inr (), tasks, 9, ()) \<and> map snd tasks = [''x'', ''y''] \<and> distinct (map (ctx_id \<circ> fst) tasks)"
  using carrier_contexts [of "\<lambda>_. Inr (Multiplexed [''x'', ''y''])" "()" "[''x'', ''y'']" "(V4 0, 443)" "''in''"
      "\<lambda>_ _ s. (Inr (), s)" None 7 "()"]
  by auto

end
