(* ===== verification/Transport.thy ===== *)
theory Transport
  imports Grpc IoMonad Http Tree
begin

text \<open>
  transport/src/ws.rs, transport/src/httpupgrade.rs and transport/src/lib.rs: the WebSocket transport over the
  messages of a WebSocket implementation (crate tungstenite, an argument as the list of its messages), the
  HTTP upgrade transport, and the layering of security and transport on an accepted connection.
\<close>

section \<open>WebSocket\<close>

record ws_config =
  ws_path :: string
  ws_host :: "string option"

text \<open>The results of polling the message stream; pings, pongs and raw frames are \<open>WsControl\<close>.\<close>

datatype ws_event = WsBinary bytes | WsText bytes | WsControl | WsClose | WsEnd | WsErr string

record ws_rx =
  w_read_buf :: bytes
  w_eof :: bool
  w_events :: "ws_event list"

definition ws_new :: "ws_event list \<Rightarrow> bytes \<Rightarrow> ws_rx" where
  "ws_new inner early_data = \<lparr>w_read_buf = early_data, w_eof = False, w_events = inner\<rparr>"

text \<open>\<open>poll_read\<close> of \<open>WsStream\<close> and of \<open>WsReadHalf\<close>, which are the same loop.\<close>

function ws_poll_read :: "nat \<Rightarrow> ws_rx \<Rightarrow> bytes io_result option \<times> ws_rx" where
  "ws_poll_read room s =
     (if w_read_buf s \<noteq> [] then
        (let n = min (length (w_read_buf s)) room
         in (Some (Inr (take n (w_read_buf s))), s\<lparr>w_read_buf := drop n (w_read_buf s)\<rparr>))
      else if w_eof s then (Some (Inr []), s)
      else (case w_events s of
          [] \<Rightarrow> (None, s)
        | e # es \<Rightarrow> (case e of
            WsBinary d \<Rightarrow> ws_poll_read room (s\<lparr>w_read_buf := d, w_events := es\<rparr>)
          | WsText d \<Rightarrow> ws_poll_read room (s\<lparr>w_read_buf := d, w_events := es\<rparr>)
          | WsClose \<Rightarrow> (Some (Inr []), s\<lparr>w_eof := True, w_events := es\<rparr>)
          | WsEnd \<Rightarrow> (Some (Inr []), s\<lparr>w_eof := True, w_events := es\<rparr>)
          | WsControl \<Rightarrow> ws_poll_read room (s\<lparr>w_events := es\<rparr>)
          | WsErr m \<Rightarrow> (Some (Inl (IoMsg KindOther m)), s\<lparr>w_events := es\<rparr>))))"
  by pat_completeness auto

termination ws_poll_read
  by (relation "measure (\<lambda>(room, s). length (w_events s))") auto

declare ws_poll_read.simps [simp del]

text \<open>
  The writing side sends one binary message per buffer. \<open>sink\<close> are the answers of the message sink (the
  error, if it fails); none left is pending.
\<close>

definition ws_poll_write :: "bytes \<Rightarrow> string option list \<times> ws_event list \<Rightarrow> nat io_result option \<times> string option list \<times> ws_event list" where
  "ws_poll_write buf st = (case st of
     ([], out) \<Rightarrow> (None, [], out)
   | (Some e # sink, out) \<Rightarrow> (Some (Inl (IoMsg KindOther e)), sink, out)
   | (None # sink, out) \<Rightarrow> (Some (Inr (length buf)), sink, out @ [WsBinary buf]))"

section \<open>The WebSocket handshake\<close>

text \<open>The URL-safe base64 decoder without padding (crate base64) is an argument.\<close>

definition early_char :: "char \<Rightarrow> char option" where
  "early_char c = (if c = CHR ''+'' then Some CHR ''-'' else if c = CHR ''/'' then Some CHR ''_''
     else if c = CHR ''='' then None else Some c)"

definition decode_early_data :: "(string \<Rightarrow> bytes option) \<Rightarrow> string \<Rightarrow> bytes option" where
  "decode_early_data b64 s = b64 (List.map_filter early_char s)"

text \<open>The headers the callback looks at, each absent, not text, or text.\<close>

record ws_request =
  wr_path :: string
  wr_host :: "string option option"
  wr_protocol :: "string option option"

definition host_only :: "string \<Rightarrow> string" where
  "host_only h = (case split_on (\<lambda>c. c = CHR '':'') h of x # _ \<Rightarrow> x | [] \<Rightarrow> h)"

text \<open>The callback: a rejection with its status, or the early data and whether the protocol is echoed.\<close>

definition ws_callback :: "(string \<Rightarrow> bytes option) \<Rightarrow> ws_config \<Rightarrow> ws_request \<Rightarrow> nat + (bytes \<times> bool)" where
  "ws_callback b64 cfg rq =
     (if ws_path cfg \<noteq> [] \<and> wr_path rq \<noteq> ws_path cfg then Inl 404
      else if (case ws_host cfg of
                 None \<Rightarrow> False
               | Some h \<Rightarrow> (case wr_host rq of
                   Some (Some got) \<Rightarrow> \<not> eq_ignore_ascii_case (host_only got) h
                 | _ \<Rightarrow> True))
           then Inl 404
      else (case wr_protocol rq of
          Some (Some s) \<Rightarrow> (case decode_early_data b64 s of
              Some ed \<Rightarrow> if ed \<noteq> [] then Inr (ed, True) else Inr ([], False)
            | None \<Rightarrow> Inr ([], False))
        | _ \<Rightarrow> Inr ([], False)))"

text \<open>
  \<open>accept\<close>: \<open>upgrade\<close> is the handshake of the implementation, which fails when it is given a rejection and
  may fail on its own.
\<close>

definition ws_accept ::
  "(string \<Rightarrow> bytes option) \<Rightarrow> (nat + (bytes \<times> bool) \<Rightarrow> string + ws_event list) \<Rightarrow> ws_config \<Rightarrow> ws_request \<Rightarrow> ws_rx io_result" where
  "ws_accept b64 upgrade cfg rq =
     (let answer = ws_callback b64 cfg rq
      in case upgrade answer of
           Inl e \<Rightarrow> Inl (IoMsg KindOther e)
         | Inr inner \<Rightarrow> Inr (ws_new inner (case answer of Inr (early, _) \<Rightarrow> early | Inl _ \<Rightarrow> [])))"

section \<open>HTTP upgrade\<close>

record hu_config =
  hu_path :: string
  hu_host :: "string option"

definition MAX_UPGRADE_HEAD :: nat where "MAX_UPGRADE_HEAD = 16384"

definition UPGRADE_RESPONSE :: bytes where
  "UPGRADE_RESPONSE = bytes_of_string (''HTTP/1.1 101 Switching Protocols'' @ crlf @ ''Connection: Upgrade'' @ crlf @
     ''Upgrade: websocket'' @ crlf @ crlf)"

text \<open>A read into a buffer of one byte.\<close>

definition io_read_byte :: "byte option io" where
  "io_read_byte = (\<lambda>c. case reads c of
     [] \<Rightarrow> (Blocked, c)
   | RErr e # evs \<Rightarrow> (Fail e, c\<lparr>reads := evs\<rparr>)
   | ROk [] # evs \<Rightarrow> (Done None, c\<lparr>reads := evs\<rparr>)
   | ROk (b # d) # evs \<Rightarrow> (Done (Some b), c\<lparr>reads := (if d = [] then evs else ROk d # evs)\<rparr>))"

definition ends_head :: "bytes \<Rightarrow> bool" where
  "ends_head buf = (4 \<le> length buf \<and> drop (length buf - 4) buf = [13, 10, 13, 10])"

text \<open>
  The loop of \<open>read_head\<close>. It gives up once the buffer is longer than the limit, so the fuel, one more
  than the limit, is never used up.
\<close>

primrec read_head_loop :: "nat \<Rightarrow> bytes \<Rightarrow> bytes io" where
  "read_head_loop 0 buf = io_fail (invalid ''request head too large'')"
| "read_head_loop (Suc k) buf = io_bind io_read_byte (\<lambda>b. case b of
     None \<Rightarrow> io_fail (IoMsg UnexpectedEof ''eof in request'')
   | Some b \<Rightarrow> (let buf = buf @ [b]
       in if ends_head buf then io_return buf
          else if MAX_UPGRADE_HEAD < length buf then io_fail (invalid ''request head too large'')
          else read_head_loop k buf))"

definition read_head :: "bytes io" where
  "read_head = read_head_loop (Suc MAX_UPGRADE_HEAD) []"

record upgrade_headers =
  uh_connection :: string
  uh_upgrade :: string
  uh_host :: string

definition header_line :: "string \<Rightarrow> upgrade_headers \<Rightarrow> upgrade_headers" where
  "header_line line h = (case split_once CHR '':'' line of
     None \<Rightarrow> h
   | Some (k, v) \<Rightarrow>
       (let key = to_ascii_lowercase (trim k); val = trim v
        in if key = ''connection'' then h\<lparr>uh_connection := to_ascii_lowercase val\<rparr>
           else if key = ''upgrade'' then h\<lparr>uh_upgrade := to_ascii_lowercase val\<rparr>
           else if key = ''host'' then h\<lparr>uh_host := val\<rparr>
           else h))"

definition upgrade_check :: "hu_config \<Rightarrow> bytes \<Rightarrow> unit io_result" where
  "upgrade_check cfg head = (case from_utf8 head of
     None \<Rightarrow> Inl (invalid ''non-utf8 request'')
   | Some text \<Rightarrow>
       (case split_crlf text of
          [] \<Rightarrow> Inl (invalid ''unrecognized request'')
        | request_line # lines \<Rightarrow>
            (let path = (case split_on (\<lambda>c. c = CHR '' '') request_line of _ # p # _ \<Rightarrow> p | _ \<Rightarrow> [])
             in if hu_path cfg \<noteq> [] \<and> path \<noteq> hu_path cfg then Inl (invalid ''bad path'')
                else (let h = fold header_line lines \<lparr>uh_connection = [], uh_upgrade = [], uh_host = []\<rparr>
                      in if (case hu_host cfg of
                               Some want \<Rightarrow> \<not> eq_ignore_ascii_case (host_only (uh_host h)) want
                             | None \<Rightarrow> False)
                         then Inl (invalid ''bad host'')
                         else if uh_connection h \<noteq> ''upgrade'' \<or> uh_upgrade h \<noteq> ''websocket''
                         then Inl (invalid ''unrecognized request'')
                         else Inr ()))))"

definition upgrade_accept :: "hu_config \<Rightarrow> unit io" where
  "upgrade_accept cfg =
     io_bind read_head (\<lambda>head.
     io_bind (io_lift (upgrade_check cfg head)) (\<lambda>_.
     io_write UPGRADE_RESPONSE))"

section \<open>Layers\<close>

datatype 'tls security = SecNone | SecTls 'tls

datatype transport_kind = TrRaw | TrWs ws_config | TrHttpUpgrade hu_config | TrGrpc string

record 'tls stream_config =
  sc_security :: "'tls security"
  sc_transport :: transport_kind

definition stream_config_raw :: "'tls stream_config" where
  "stream_config_raw = \<lparr>sc_security = SecNone, sc_transport = TrRaw\<rparr>"

text \<open>
  \<open>accept_conn\<close> over the operations of the layers: the TLS handshake, the plain and upgraded streams, and
  the accept operations of the three transports.
\<close>

record ('tls, 'tcp, 'raw, 'st) layers =
  ly_tls :: "'tls \<Rightarrow> 'tcp \<Rightarrow> 'raw io_result"
  ly_tcp :: "'tcp \<Rightarrow> 'raw"
  ly_raw :: "'raw \<Rightarrow> 'st"
  ly_ws :: "ws_config \<Rightarrow> 'raw \<Rightarrow> 'st io_result"
  ly_upgrade :: "hu_config \<Rightarrow> 'raw \<Rightarrow> 'raw io_result"
  ly_grpc :: "string \<Rightarrow> 'raw \<Rightarrow> 'st list io_result"

definition accept_conn ::
  "('tls, 'tcp, 'raw, 'st) layers \<Rightarrow> 'tls stream_config \<Rightarrow> 'tcp \<Rightarrow> 'st accepted io_result" where
  "accept_conn ly cfg tcp =
     rbind (case sc_security cfg of SecNone \<Rightarrow> Inr (ly_tcp ly tcp) | SecTls server \<Rightarrow> ly_tls ly server tcp) (\<lambda>raw.
     case sc_transport cfg of
       TrRaw \<Rightarrow> Inr (Single (ly_raw ly raw))
     | TrWs c \<Rightarrow> rbind (ly_ws ly c raw) (\<lambda>st. Inr (Single st))
     | TrHttpUpgrade c \<Rightarrow> rbind (ly_upgrade ly c raw) (\<lambda>r. Inr (Single (ly_raw ly r)))
     | TrGrpc c \<Rightarrow> rbind (ly_grpc ly c raw) (\<lambda>sts. Inr (Multiplexed sts)))"

section \<open>Reading a WebSocket\<close>

fun ws_data :: "ws_event list \<Rightarrow> bytes" where
  "ws_data [] = []"
| "ws_data (WsBinary d # es) = d @ ws_data es"
| "ws_data (WsText d # es) = d @ ws_data es"
| "ws_data (WsControl # es) = ws_data es"
| "ws_data (_ # es) = []"

fun ws_ends :: "ws_event list \<Rightarrow> bool" where
  "ws_ends [] = False"
| "ws_ends (WsClose # es) = True"
| "ws_ends (WsEnd # es) = True"
| "ws_ends (_ # es) = ws_ends es"

fun ws_clean :: "ws_event list \<Rightarrow> bool" where
  "ws_clean [] = True"
| "ws_clean (WsErr m # es) = False"
| "ws_clean (WsClose # es) = True"
| "ws_clean (WsEnd # es) = True"
| "ws_clean (_ # es) = ws_clean es"

definition ws_content :: "ws_rx \<Rightarrow> bytes" where
  "ws_content s = w_read_buf s @ (if w_eof s then [] else ws_data (w_events s))"

definition ws_ended :: "ws_rx \<Rightarrow> bool" where
  "ws_ended s \<longleftrightarrow> w_eof s \<or> ws_ends (w_events s)"

definition ws_sound :: "ws_rx \<Rightarrow> bool" where
  "ws_sound s \<longleftrightarrow> w_eof s \<or> ws_clean (w_events s)"

definition ws_good_poll :: "nat \<Rightarrow> ws_rx \<Rightarrow> bool" where
  "ws_good_poll room s \<longleftrightarrow> (case ws_poll_read room s of (r, s') \<Rightarrow>
     ws_sound s' \<and> ws_ended s' = ws_ended s \<and>
     (if ws_content s = [] then r = (if ws_ended s then Some (Inr []) else None) \<and> ws_content s' = []
      else \<exists>d. r = Some (Inr d) \<and> d \<noteq> [] \<and> length d \<le> room \<and> ws_content s = d @ ws_content s'))"

lemma ws_good_poll_step:
  "ws_good_poll room t \<Longrightarrow> ws_poll_read room s = ws_poll_read room t \<Longrightarrow> ws_content t = ws_content s \<Longrightarrow>
   ws_ended t = ws_ended s \<Longrightarrow> ws_good_poll room s"
  by (simp only: ws_good_poll_def)

lemma ws_poll_step:
  assumes "ws_sound s" and "0 < room"
  shows "ws_good_poll room s"
  using assms
proof (induction "w_events s" arbitrary: s)
  case Nil
  then show ?case
    by (auto simp: ws_good_poll_def ws_poll_read.simps [of room s] ws_content_def ws_ended_def ws_sound_def Let_def
        simp flip: Nil.hyps)
next
  case (Cons e es)
  show ?case
  proof (cases "w_read_buf s \<noteq> [] \<or> w_eof s \<or> e = WsClose \<or> e = WsEnd")
    case True
    then show ?thesis
      using Cons.prems Cons.hyps(2) [symmetric]
      by (auto simp: ws_good_poll_def ws_poll_read.simps [of room s] ws_content_def ws_ended_def ws_sound_def Let_def)
  next
    case False
    then have buf: "w_read_buf s = []" "\<not> w_eof s" by auto
    note events = Cons.hyps(2) [symmetric]
    consider (data) d where "e = WsBinary d \<or> e = WsText d" | (control) "e = WsControl"
      using False Cons.prems(1) buf events by (cases e) (auto simp: ws_sound_def)
    then show ?thesis
    proof cases
      case data
      let ?s = "s\<lparr>w_read_buf := d, w_events := es\<rparr>"
      have "ws_sound ?s" "ws_content ?s = ws_content s" "ws_ended ?s = ws_ended s"
        "ws_poll_read room s = ws_poll_read room ?s"
        using data buf events Cons.prems(1)
        by (auto simp: ws_sound_def ws_content_def ws_ended_def ws_poll_read.simps [of room s])
      with Cons.hyps(1) [of ?s] Cons.prems(2) show ?thesis by (auto intro: ws_good_poll_step)
    next
      case control
      let ?s = "s\<lparr>w_events := es\<rparr>"
      have "ws_sound ?s" "ws_content ?s = ws_content s" "ws_ended ?s = ws_ended s"
        "ws_poll_read room s = ws_poll_read room ?s"
        using control buf events Cons.prems(1)
        by (auto simp: ws_sound_def ws_content_def ws_ended_def ws_poll_read.simps [of room s])
      with Cons.hyps(1) [of ?s] Cons.prems(2) show ?thesis by (auto intro: ws_good_poll_step)
    qed
  qed
qed

interpretation ws: byte_stream ws_poll_read ws_content ws_ended ws_sound
proof
  fix s :: ws_rx and room :: nat
  assume s: "ws_sound s" "0 < room"
  show "\<exists>d s'. ws_poll_read room s = (Some (Inr d), s') \<and> d \<noteq> [] \<and> length d \<le> room \<and>
        ws_content s = d @ ws_content s' \<and> ws_sound s' \<and> ws_ended s' = ws_ended s"
    if "ws_content s \<noteq> []" using ws_poll_step [OF s] that by (auto simp: ws_good_poll_def split: prod.splits)
  show "\<exists>s'. ws_poll_read room s = (if ws_ended s then Some (Inr []) else None, s') \<and>
        ws_content s' = [] \<and> ws_sound s' \<and> ws_ended s' = ws_ended s"
    if "ws_content s = []" using ws_poll_step [OF s] that by (auto simp: ws_good_poll_def split: prod.splits)
qed

definition early_of :: "(string \<Rightarrow> bytes option) \<Rightarrow> ws_request \<Rightarrow> bytes" where
  "early_of b64 rq = (case wr_protocol rq of
     Some (Some p) \<Rightarrow> (case decode_early_data b64 p of Some ed \<Rightarrow> ed | None \<Rightarrow> [])
   | _ \<Rightarrow> [])"

lemma ws_callback_Inr:
  "ws_callback b64 cfg rq = Inr (early, echo) \<Longrightarrow> early = early_of b64 rq \<and>
     (ws_path cfg = [] \<or> wr_path rq = ws_path cfg) \<and>
     (\<forall>h. ws_host cfg = Some h \<longrightarrow> (\<exists>got. wr_host rq = Some (Some got) \<and> eq_ignore_ascii_case (host_only got) h))"
  by (auto simp: ws_callback_def early_of_def split: if_splits option.splits)

text \<open>
  C33: An accepted WebSocket was asked for on the configured path and host, and reads as one stream of
  bytes: first the early data of the handshake, then the payloads of the data messages, in order, until
  the peer closes, however much room each read has. Control messages and empty messages are skipped and
  are not taken for the end of the stream, and as many reads as there are bytes read everything.
\<close>

theorem ws_stream:
  assumes "\<forall>code. \<exists>e. upgrade (Inl code) = Inl e" and "ws_accept b64 upgrade cfg rq = Inr s"
    and "ws_clean (w_events s)" and "\<forall>r \<in> set rooms. 0 < r" and "poll_all ws_poll_read rooms s = (out, s')"
  shows "(ws_path cfg = [] \<or> wr_path rq = ws_path cfg) \<and>
    (\<forall>h. ws_host cfg = Some h \<longrightarrow> (\<exists>got. wr_host rq = Some (Some got) \<and> eq_ignore_ascii_case (host_only got) h)) \<and>
    (\<exists>unread. concat out @ unread = early_of b64 rq @ ws_data (w_events s)) \<and>
    ([] \<in> set out \<longrightarrow> ws_ends (w_events s) \<and> concat out = early_of b64 rq @ ws_data (w_events s)) \<and>
    (length (early_of b64 rq @ ws_data (w_events s)) \<le> length rooms \<longrightarrow>
       concat out = early_of b64 rq @ ws_data (w_events s))"
proof -
  obtain early echo where cb: "ws_callback b64 cfg rq = Inr (early, echo)"
  proof (cases "ws_callback b64 cfg rq")
    case (Inl code)
    obtain e where "upgrade (Inl code) = Inl e" using assms(1) by blast
    with Inl assms(2) show thesis by (simp add: ws_accept_def)
  next
    case (Inr a)
    then show thesis using that by (cases a) auto
  qed
  note adm = ws_callback_Inr [OF cb]
  have s: "w_read_buf s = early_of b64 rq" "\<not> w_eof s"
    using assms(2) cb adm by (auto simp: ws_accept_def ws_new_def Let_def split: sum.splits)
  have sound: "ws_sound s" using assms(3) by (simp add: ws_sound_def)
  have content: "ws_content s = early_of b64 rq @ ws_data (w_events s)" "ws_ended s = ws_ends (w_events s)"
    using s by (simp_all add: ws_content_def ws_ended_def)
  from ws.reads_content [OF sound assms(4,5)] ws.reads_everything [OF sound assms(4,5)] adm
  show ?thesis unfolding content by auto
qed

theorem ws_stream_witness:
  "concat (fst (poll_all ws_poll_read [4, 4, 4, 4] (ws_new [WsControl, WsBinary [], WsBinary [3], WsClose] [1, 2]))) = [1, 2, 3]"
proof -
  let ?b64 = "\<lambda>s :: string. Some [1, 2 :: byte]"
  let ?up = "\<lambda>a :: nat + (bytes \<times> bool). case a of Inl _ \<Rightarrow> Inl ''rejected'' | Inr _ \<Rightarrow> Inr [WsControl, WsBinary [], WsBinary [3], WsClose]"
  let ?cfg = "\<lparr>ws_path = ''/x'', ws_host = None\<rparr>"
  let ?rq = "\<lparr>wr_path = ''/x'', wr_host = None, wr_protocol = Some (Some ''AQI='')\<rparr>"
  let ?s = "ws_new [WsControl, WsBinary [], WsBinary [3], WsClose] [1, 2]"
  obtain out s' where r: "poll_all ws_poll_read [4, 4, 4, 4] ?s = (out, s')" by fastforce
  have acc: "ws_accept ?b64 ?up ?cfg ?rq = Inr ?s"
    by (simp add: ws_accept_def ws_callback_def decode_early_data_def)
  have "early_of ?b64 ?rq = [1, 2]" by (simp add: early_of_def decode_early_data_def)
  with ws_stream [OF _ acc _ _ r] r show ?thesis by (simp add: ws_new_def)
qed

section \<open>The upgrade head\<close>

lemma runs_read_byte: "runs io_read_byte (b # r) (Some b) [] r"
  unfolding runs_def
proof (intro allI impI)
  fix c evs assume "delivers_then c (b # r) evs" and w: "write_outcomes c = []"
  then obtain ds where ds: "reads c = map ROk ds @ evs" "[] \<notin> set ds" "concat ds = b # r"
    by (auto simp: delivers_then_def)
  then obtain d ds' where d: "ds = (b # d) # ds'" "d @ concat ds' = r"
    by (cases ds; cases "hd ds") auto
  let ?c = "c\<lparr>reads := (if d = [] then map ROk ds' @ evs else ROk d # map ROk ds' @ evs)\<rparr>"
  have "delivers_then ?c r evs"
    using ds(2) d unfolding delivers_then_def
    by (intro exI [of _ "if d = [] then ds' else d # ds'"]) auto
  then show "\<exists>c'. io_read_byte c = (Done (Some b), c') \<and> delivers_then c' r evs \<and> sent c' = sent c @ [] \<and> write_outcomes c' = []"
    using ds d w by (intro exI [of _ ?c]) (simp add: io_read_byte_def)
qed

lemma runs_read_head_loop:
  assumes "ends_head (buf @ xs)" and "xs \<noteq> []" and "\<forall>k < length xs. 0 < k \<longrightarrow> \<not> ends_head (buf @ take k xs)"
    and "length buf + length xs \<le> Suc MAX_UPGRADE_HEAD" and "length xs \<le> n"
  shows "runs (read_head_loop n buf) (xs @ r) (buf @ xs) [] r"
  using assms
proof (induction n arbitrary: buf xs)
  case (Suc n)
  obtain b xs' where xs: "xs = b # xs'" using Suc.prems(2) by (cases xs) auto
  show ?case
  proof (cases "xs' = []")
    case True
    then show ?thesis
      using Suc.prems(1) xs by (auto simp: Let_def runs_return intro!: runs_bind_silent [OF runs_read_byte])
  next
    case False
    have nend: "\<not> ends_head (buf @ [b])" using Suc.prems(3) xs False by (auto dest: spec [of _ 1])
    have "runs (read_head_loop n (buf @ [b])) (xs' @ r) ((buf @ [b]) @ xs') [] r"
    proof (rule Suc.IH)
      show "\<forall>k < length xs'. 0 < k \<longrightarrow> \<not> ends_head ((buf @ [b]) @ take k xs')"
      proof (intro allI impI)
        fix k assume "k < length xs'" "0 < k"
        then show "\<not> ends_head ((buf @ [b]) @ take k xs')" using Suc.prems(3) [rule_format, of "Suc k"] xs by simp
      qed
    qed (use Suc.prems xs False in auto)
    moreover have "length (buf @ [b]) \<le> MAX_UPGRADE_HEAD"
      using Suc.prems(4) xs False by (cases xs') auto
    ultimately show ?thesis
      using nend xs by (auto simp: Let_def intro!: runs_bind_silent [OF runs_read_byte])
  qed
qed simp

lemma io_read_byte_Done:
  "io_read_byte c = (Done (Some b), c') \<Longrightarrow> consumed c c' [b] \<and> sent c' = sent c"
  by (auto simp: io_read_byte_def consumed_def split: list.splits read_event.splits if_splits)

lemma read_head_loop_Done:
  "read_head_loop n buf c = (Done head, c') \<Longrightarrow>
   \<exists>xs. head = buf @ xs \<and> consumed c c' xs \<and> sent c' = sent c \<and> ends_head head"
proof (induction n arbitrary: buf c)
  case (Suc n)
  then obtain b c1 where b: "io_read_byte c = (Done (Some b), c1)"
    and rest: "(if ends_head (buf @ [b]) then io_return (buf @ [b])
       else if MAX_UPGRADE_HEAD < length (buf @ [b]) then io_fail (invalid ''request head too large'')
       else read_head_loop n (buf @ [b])) c1 = (Done head, c')"
    by (auto simp: Let_def elim!: io_bind_Done split: option.splits)
  note one = io_read_byte_Done [OF b]
  show ?case
  proof (cases "ends_head (buf @ [b])")
    case True
    with rest one show ?thesis by auto
  next
    case False
    with rest have "read_head_loop n (buf @ [b]) c1 = (Done head, c')" by (auto split: if_splits)
    from Suc.IH [OF this] obtain xs where "head = (buf @ [b]) @ xs" "consumed c1 c' xs" "sent c' = sent c1" "ends_head head"
      by blast
    with one consumed_trans [of c c1 "[b]" c' xs] show ?thesis by (intro exI [of _ "b # xs"]) simp
  qed
qed simp

text \<open>
  The HTTP upgrade. On a connection that delivers an acceptable request head, cut in any way, followed
  by the payload, the handshake answers the upgrade and leaves exactly the payload unread, however the
  first payload bytes were cut together with the head. Conversely a handshake that succeeds has read one
  head that ends in the blank line and passes the checks, nothing beyond it, and has sent the answer
  and nothing else.
\<close>

lemma upgrade_passthrough:
  shows "(delivers_then c (head @ payload) evs \<and> write_outcomes c = [] \<and> upgrade_check cfg head = Inr () \<and>
      ends_head head \<and> (\<forall>k < length head. \<not> ends_head (take k head)) \<and> length head \<le> Suc MAX_UPGRADE_HEAD \<longrightarrow>
      (\<exists>c'. upgrade_accept cfg c = (Done (), c') \<and> delivers_then c' payload evs \<and> sent c' = sent c @ UPGRADE_RESPONSE)) \<and>
    (upgrade_accept cfg c = (Done (), c') \<longrightarrow>
      (\<exists>h. consumed c c' h \<and> ends_head h \<and> upgrade_check cfg h = Inr () \<and> sent c' = sent c @ UPGRADE_RESPONSE))"
proof (intro conjI impI)
  assume h: "delivers_then c (head @ payload) evs \<and> write_outcomes c = [] \<and> upgrade_check cfg head = Inr () \<and>
      ends_head head \<and> (\<forall>k < length head. \<not> ends_head (take k head)) \<and> length head \<le> Suc MAX_UPGRADE_HEAD"
  then have "head \<noteq> []" by (auto simp: ends_head_def)
  with h have "runs read_head (head @ payload) head [] payload"
    using runs_read_head_loop [of "[]" head "Suc MAX_UPGRADE_HEAD" payload]
    by (simp add: read_head_def del: read_head_loop.simps)
  moreover have "runs (io_bind (io_lift (upgrade_check cfg head)) (\<lambda>_. io_write UPGRADE_RESPONSE)) payload () UPGRADE_RESPONSE payload"
    using h by (auto intro: runs_bind_silent [OF runs_return runs_write])
  ultimately have "runs (upgrade_accept cfg) (head @ payload) () UPGRADE_RESPONSE payload"
    unfolding upgrade_accept_def by (rule runs_bind_silent)
  from runsD [OF this] h show "\<exists>c'. upgrade_accept cfg c = (Done (), c') \<and> delivers_then c' payload evs \<and>
      sent c' = sent c @ UPGRADE_RESPONSE" by blast
next
  assume "upgrade_accept cfg c = (Done (), c')"
  then obtain h c1 c2 where h: "read_head c = (Done h, c1)" "io_lift (upgrade_check cfg h) c1 = (Done (), c2)"
    "io_write UPGRADE_RESPONSE c2 = (Done (), c')"
    unfolding upgrade_accept_def by (auto elim!: io_bind_Done)
  have "upgrade_check cfg h = Inr ()" "c2 = c1" using h(2) by (cases "upgrade_check cfg h", auto)+
  with h(1,3) read_head_loop_Done [of "Suc MAX_UPGRADE_HEAD" "[]" c h c1] io_write_Done [of UPGRADE_RESPONSE c1 "()" c']
    consumed_trans [of c c1 h c' "[]"]
  show "\<exists>h. consumed c c' h \<and> ends_head h \<and> upgrade_check cfg h = Inr () \<and> sent c' = sent c @ UPGRADE_RESPONSE"
    by (auto simp: read_head_def simp del: read_head_loop.simps)
qed

definition sample_upgrade :: bytes where
  "sample_upgrade = bytes_of_string (''GET /u HTTP/1.1'' @ crlf @ ''Host: h:1'' @ crlf @ ''Connection: Upgrade'' @ crlf @
     ''Upgrade: WebSocket'' @ crlf @ crlf)"

theorem upgrade_passthrough_witness:
  "\<exists>c'. upgrade_accept \<lparr>hu_path = ''/u'', hu_host = Some ''H''\<rparr> (empty_conn [ROk (sample_upgrade @ [7, 8])]) = (Done (), c') \<and>
     delivers c' [7, 8]"
proof -
  let ?cfg = "\<lparr>hu_path = ''/u'', hu_host = Some ''H''\<rparr>"
  have check: "upgrade_check ?cfg sample_upgrade = Inr ()" by code_simp
  have ends: "ends_head sample_upgrade" "list_all (\<lambda>k. \<not> ends_head (take k sample_upgrade)) [0..<length sample_upgrade]"
    "length sample_upgrade \<le> Suc MAX_UPGRADE_HEAD"
    by code_simp+
  have "delivers (empty_conn [ROk (sample_upgrade @ [7, 8])]) (sample_upgrade @ [7, 8])"
    unfolding delivers_then_def by (intro exI [of _ "[sample_upgrade @ [7, 8]]"]) (simp add: empty_conn_def)
  with upgrade_passthrough [of "empty_conn [ROk (sample_upgrade @ [7, 8])]" sample_upgrade "[7, 8]" "[]" ?cfg] check ends
  show ?thesis by (auto simp: empty_conn_def list_all_iff)
qed

end
