(* ===== verification/Egress.thy ===== *)
theory Egress
  imports Tree OutboundProxy
begin

text \<open>
  saas/src/egress_config.rs and saas/src/egress_compile.rs: the egress configuration and its compilation
  to outbounds and a route table. Reading the TOML text is the business of a library; the model starts
  at the value it yields. An \<open>anyhow\<close> error is its message.
\<close>

section \<open>Configuration\<close>

datatype out_spec =
    SpecDirect
  | SpecBlock
  | SpecShadowsocks (out_listen: string) (out_server: string) (out_port: u16) (out_password: string) (out_cipher: string)
  | SpecSocks (out_listen: string) (out_server: string) (out_port: u16) (out_username: string) (out_password: string)

record route_block =
  rb_rules :: "string list"
  rb_outs :: "out_spec list"

record egress_config =
  eg_enable :: bool
  eg_routes :: "route_block list"

definition egress_default :: egress_config where
  "egress_default = \<lparr>eg_enable = True, eg_routes = []\<rparr>"

section \<open>Matcher expressions\<close>

datatype rule_expr =
    ExprSuffix string
  | ExprFull string
  | ExprKeyword string
  | ExprGeoSite string
  | ExprGeoIp string
  | CatchAll

definition nonempty :: "string \<Rightarrow> string option" where
  "nonempty s = (let trimmed = trim s in if trimmed = [] then None else Some trimmed)"

definition parse_rule_expr :: "string \<Rightarrow> rule_expr option" where
  "parse_rule_expr raw =
     (let s = trim raw in
      if s = [] \<or> strip_prefix ''#'' s \<noteq> None then None
      else if s = ''*'' then Some CatchAll
      else case strip_prefix ''domain:'' s of Some rest \<Rightarrow> map_option ExprSuffix (nonempty rest) | None \<Rightarrow>
           case strip_prefix ''suffix:'' s of Some rest \<Rightarrow> map_option ExprSuffix (nonempty rest) | None \<Rightarrow>
           case strip_prefix ''full:'' s of Some rest \<Rightarrow> map_option ExprFull (nonempty rest) | None \<Rightarrow>
           case strip_prefix ''keyword:'' s of Some rest \<Rightarrow> map_option ExprKeyword (nonempty rest) | None \<Rightarrow>
           case strip_prefix ''geosite:'' s of Some rest \<Rightarrow> map_option ExprGeoSite (nonempty rest) | None \<Rightarrow>
           case strip_prefix ''geoip:'' s of Some rest \<Rightarrow> map_option ExprGeoIp (nonempty rest) | None \<Rightarrow>
           map_option ExprSuffix (nonempty s))"

definition expr_condition :: "rule_expr \<Rightarrow> condition option" where
  "expr_condition e = (case e of
     ExprSuffix s \<Rightarrow> Some (DomainSuffix (to_ascii_lowercase s))
   | ExprFull s \<Rightarrow> Some (DomainSuffix (to_ascii_lowercase s))
   | ExprKeyword name \<Rightarrow> None
   | ExprGeoSite name \<Rightarrow> Some (GeoSite name)
   | ExprGeoIp name \<Rightarrow> Some (GeoIp name)
   | CatchAll \<Rightarrow> Some Any)"

definition rule_conditions :: "rule_expr list \<Rightarrow> condition list" where
  "rule_conditions exprs = List.map_filter expr_condition exprs"

section \<open>Normalisation\<close>

record normalized_route =
  nr_tag :: string
  nr_rules :: "rule_expr list"

record named_outbound =
  no_tag :: string
  no_spec :: out_spec

record normalized_egress =
  ne_default_tag :: string
  ne_routes :: "normalized_route list"
  ne_outbounds :: "named_outbound list"

definition default_tag :: string where "default_tag = ''default-direct''"

text \<open>The format \<open>route-{idx:03}\<close>: at least three digits, with leading zeros.\<close>

definition pad3 :: "nat \<Rightarrow> string" where
  "pad3 n = replicate (3 - length (show_nat n)) CHR ''0'' @ show_nat n"

definition route_tag :: "nat \<Rightarrow> string" where
  "route_tag idx = ''route-'' @ pad3 idx"

fun normalize_loop ::
  "nat \<Rightarrow> route_block list \<Rightarrow> normalized_route list \<Rightarrow> named_outbound list \<Rightarrow>
   string + (normalized_route list \<times> named_outbound list)" where
  "normalize_loop idx [] routes outbounds = Inr (routes, outbounds)"
| "normalize_loop idx (rb # rbs) routes outbounds =
     (let tg = route_tag idx; rs = List.map_filter parse_rule_expr (rb_rules rb) in
      if rs = [] then normalize_loop (idx + 1) rbs routes outbounds
      else if length (rb_outs rb) \<noteq> 1 then
        Inl (''egress route '' @ tg @ '' must have exactly one [[routes.Outs]] entry; got '' @ show_nat (length (rb_outs rb)))
      else normalize_loop (idx + 1) rbs
        (routes @ [\<lparr>nr_tag = tg, nr_rules = rs\<rparr>])
        (outbounds @ [\<lparr>no_tag = tg, no_spec = hd (rb_outs rb)\<rparr>]))"

definition normalize :: "egress_config \<Rightarrow> string + normalized_egress" where
  "normalize cfg =
     rbind (normalize_loop 0 (eg_routes cfg) [] []) (\<lambda>(routes, outbounds).
     Inr \<lparr>ne_default_tag = default_tag, ne_routes = routes,
          ne_outbounds = outbounds @ [\<lparr>no_tag = default_tag, no_spec = SpecDirect\<rparr>]\<rparr>)"

section \<open>Compilation\<close>

record compiled_egress =
  ce_freedom_tag :: "string option"
  ce_route_table :: route_table
  ce_outbounds :: "(string \<times> outbound) list"

definition compile_outbound :: "crypto_lib \<Rightarrow> out_spec \<Rightarrow> string + outbound" where
  "compile_outbound L spec = (case spec of
     SpecDirect \<Rightarrow> Inr outbound.Freedom
   | SpecBlock \<Rightarrow> Inr outbound.Blackhole
   | SpecShadowsocks _ server p password cipher \<Rightarrow>
       rbind (map_err (\<lambda>e. ''shadowsocks outbound: '' @ e)
                (ss_outbound_new L (address_parse server) p password cipher))
             (\<lambda>ob. Inr (OShadowsocks ob))
   | SpecSocks _ server p username password \<Rightarrow>
       Inr (OSocks (socks_outbound_new (address_parse server) p username password)))"

fun compile_outbounds :: "crypto_lib \<Rightarrow> named_outbound list \<Rightarrow> string + (string \<times> outbound) list" where
  "compile_outbounds L [] = Inr []"
| "compile_outbounds L (named # rest) =
     rbind (compile_outbound L (no_spec named)) (\<lambda>ob.
     rbind (compile_outbounds L rest) (\<lambda>obs. Inr ((no_tag named, ob) # obs)))"

definition compile_route :: "normalized_route \<Rightarrow> match_rule option" where
  "compile_route r = (let conds = rule_conditions (nr_rules r) in
     if conds = [] then None else Some (rule_new conds [nr_tag r] Random))"

definition compile_normalized :: "crypto_lib \<Rightarrow> normalized_egress \<Rightarrow> string + compiled_egress" where
  "compile_normalized L n =
     rbind (compile_outbounds L (ne_outbounds n)) (\<lambda>outbounds.
     Inr \<lparr>ce_freedom_tag = Some (ne_default_tag n),
          ce_route_table = table_new (List.map_filter compile_route (ne_routes n)) None,
          ce_outbounds = outbounds\<rparr>)"

definition compile :: "crypto_lib \<Rightarrow> egress_config \<Rightarrow> string + compiled_egress" where
  "compile L cfg =
     (if \<not> eg_enable cfg then
        Inr \<lparr>ce_freedom_tag = Some default_tag, ce_route_table = table_new [] None,
             ce_outbounds = [(default_tag, outbound.Freedom)]\<rparr>
      else rbind (normalize cfg) (compile_normalized L))"

text \<open>The shared dispatch that \<open>panel::run\<close> builds from the compiled egress.\<close>

definition egress_dispatch :: "compiled_egress \<Rightarrow> outbound dispatch" where
  "egress_dispatch ce = \<lparr>od_outbounds = outbound_list_new (ce_outbounds ce), od_freedom_tag = ce_freedom_tag ce\<rparr>"

section \<open>What the compilation preserves\<close>

text \<open>The meaning of an expression and of a block, independent of the compiled conditions.\<close>

definition expr_matches :: "geo_matcher \<Rightarrow> route_query \<Rightarrow> rule_expr \<Rightarrow> bool" where
  "expr_matches geo q e = (case e of
     ExprSuffix s \<Rightarrow> (\<exists>d. query_domain q = Some d \<and> (d = to_ascii_lowercase s \<or> (\<exists>sub. d = sub @ ''.'' @ to_ascii_lowercase s)))
   | ExprFull s \<Rightarrow> (\<exists>d. query_domain q = Some d \<and> (d = to_ascii_lowercase s \<or> (\<exists>sub. d = sub @ ''.'' @ to_ascii_lowercase s)))
   | ExprKeyword name \<Rightarrow> False
   | ExprGeoSite name \<Rightarrow> (\<exists>d. query_domain q = Some d \<and> site_contains geo name d)
   | ExprGeoIp name \<Rightarrow> (\<exists>ip. address (target q) = Ip ip \<and> ip_contains geo name ip)
   | CatchAll \<Rightarrow> True)"

definition block_exprs :: "route_block \<Rightarrow> rule_expr list" where
  "block_exprs rb = List.map_filter parse_rule_expr (rb_rules rb)"

definition block_matches :: "geo_matcher \<Rightarrow> route_query \<Rightarrow> route_block \<Rightarrow> bool" where
  "block_matches geo q rb \<longleftrightarrow> (\<exists>e \<in> set (block_exprs rb). expr_matches geo q e)"

definition numbered :: "nat \<Rightarrow> route_block list \<Rightarrow> (nat \<times> route_block) list" where
  "numbered idx rbs = filter (\<lambda>(i, rb). block_exprs rb \<noteq> []) (enumerate idx rbs)"

definition normal_route :: "nat \<times> route_block \<Rightarrow> normalized_route" where
  "normal_route p = \<lparr>nr_tag = route_tag (fst p), nr_rules = block_exprs (snd p)\<rparr>"

definition normal_outbound :: "nat \<times> route_block \<Rightarrow> named_outbound" where
  "normal_outbound p = \<lparr>no_tag = route_tag (fst p), no_spec = hd (rb_outs (snd p))\<rparr>"

lemma numbered_simps [simp]:
  "numbered idx [] = []"
  "numbered idx (rb # rbs) = (if block_exprs rb = [] then [] else [(idx, rb)]) @ numbered (Suc idx) rbs"
  by (simp_all add: numbered_def)

lemma normalize_loop_Inr:
  "normalize_loop idx rbs R O' = Inr (R', O'') \<Longrightarrow>
     R' = R @ map normal_route (numbered idx rbs) \<and> O'' = O' @ map normal_outbound (numbered idx rbs) \<and>
     (\<forall>(i, rb) \<in> set (numbered idx rbs). length (rb_outs rb) = 1)"
  by (induction idx rbs R O' rule: normalize_loop.induct)
     (auto simp: Let_def normal_route_def normal_outbound_def block_exprs_def [symmetric] split: if_splits)

lemma normalize_loop_Inl:
  "(\<exists>e. normalize_loop idx rbs R O' = Inl e) \<longleftrightarrow>
     (\<exists>rb \<in> set rbs. block_exprs rb \<noteq> [] \<and> length (rb_outs rb) \<noteq> 1)"
  by (induction idx rbs R O' rule: normalize_loop.induct) (auto simp: Let_def block_exprs_def [symmetric])

lemma dec_value_zeros: "dec_value (replicate k CHR ''0'' @ s) = dec_value s"
  by (induction k) (simp_all add: dec_value_def digit_val_def)

lemma route_tag_inj [simp]: "route_tag i = route_tag j \<longleftrightarrow> i = j"
proof
  assume "route_tag i = route_tag j"
  then have "dec_value (pad3 i) = dec_value (pad3 j)" by (simp add: route_tag_def)
  then show "i = j" by (simp add: pad3_def dec_value_zeros)
qed simp

lemma route_tag_default [simp]: "route_tag i \<noteq> default_tag" "default_tag \<noteq> route_tag i"
  by (simp_all add: route_tag_def default_tag_def)

lemma compile_outbounds_Inr:
  "compile_outbounds L ns = Inr obs \<Longrightarrow>
     map fst obs = map no_tag ns \<and> (\<forall>n \<in> set ns. \<exists>ob. compile_outbound L (no_spec n) = Inr ob \<and> (no_tag n, ob) \<in> set obs)"
  by (induction ns arbitrary: obs) (fastforce simp: rbind_Inr_conv)+

lemma compile_outbounds_Inl:
  "(\<exists>e. compile_outbounds L ns = Inl e) \<longleftrightarrow> (\<exists>n \<in> set ns. \<exists>e. compile_outbound L (no_spec n) = Inl e)"
proof (induction ns)
  case (Cons n ns)
  then show ?case
    by (cases "compile_outbound L (no_spec n)"; cases "compile_outbounds L ns") auto
qed simp

lemma outbound_build_get:
  assumes "distinct (map fst items)" "(tg, ob) \<in> set items"
  shows "outbound_build items tg = Some ob"
  using assms
proof (induction items rule: rev_induct)
  case (snoc it items)
  then show ?case by (cases it) (auto simp: outbound_build_def rev_image_eqI image_iff)
qed simp

lemma conditions_match:
  "list_ex (\<lambda>c. condition_matches geo c q) (rule_conditions es) \<longleftrightarrow> (\<exists>e \<in> set es. expr_matches geo q e)"
proof -
  have lower: "to_ascii_lowercase d = d" if "query_domain q = Some d" for d
    using that by (auto simp: query_domain_def split: address.splits)
  have "(\<exists>c. expr_condition e = Some c \<and> condition_matches geo c q) \<longleftrightarrow> expr_matches geo q e" for e
    using lower
    by (cases e) (auto simp: expr_condition_def expr_matches_def condition_matches_def domain_suffix_match_iff
        split: option.splits address.splits)
  then show ?thesis
    by (fastforce simp: rule_conditions_def list_ex_iff List.map_filter_def)
qed

definition compiled_rule :: "nat \<times> route_block \<Rightarrow> match_rule" where
  "compiled_rule p = rule_new (rule_conditions (block_exprs (snd p))) [route_tag (fst p)] Random"

lemma compile_route_normal:
  "compile_route (normal_route p) = (if rule_conditions (block_exprs (snd p)) = [] then None else Some (compiled_rule p))"
  by (simp add: compile_route_def normal_route_def compiled_rule_def)

lemma compiled_rule_matches: "rule_matches geo (compiled_rule p) q \<longleftrightarrow> block_matches geo q (snd p)"
  by (simp add: compiled_rule_def rule_matches_def rule_new_def conditions_match block_matches_def)

lemma no_conditions_no_match: "rule_conditions (block_exprs rb) = [] \<Longrightarrow> \<not> block_matches geo q rb"
  using conditions_match [of geo q "block_exprs rb"] by (simp add: block_matches_def)

lemma find_compiled:
  "find (\<lambda>rl. rule_matches geo rl q) (List.map_filter compile_route (map normal_route (numbered idx rbs))) =
     map_option compiled_rule (find (block_matches geo q \<circ> snd) (enumerate idx rbs))"
proof (induction rbs arbitrary: idx)
  case (Cons rb rbs)
  have "block_exprs rb = [] \<Longrightarrow> \<not> block_matches geo q rb" by (simp add: block_matches_def)
  with Cons [of "Suc idx"] no_conditions_no_match [of rb geo q] show ?case
    by (auto simp: List.map_filter_simps compile_route_normal compiled_rule_matches)
qed (simp add: List.map_filter_simps)

lemma find_enumerate: "map_option snd (find (P \<circ> snd) (enumerate idx rbs)) = find P rbs"
  by (induction rbs arbitrary: idx) auto

text \<open>What a successful compilation of an enabled configuration yields.\<close>

lemma compile_enabled:
  assumes "compile L cfg = Inr ce" "eg_enable cfg"
  shows "ce_freedom_tag ce = Some default_tag"
    "ce_route_table ce = table_new (List.map_filter compile_route (map normal_route (numbered 0 (eg_routes cfg)))) None"
    "map fst (ce_outbounds ce) = map (route_tag \<circ> fst) (numbered 0 (eg_routes cfg)) @ [default_tag]"
    "(default_tag, outbound.Freedom) \<in> set (ce_outbounds ce)"
    "(i, rb) \<in> set (numbered 0 (eg_routes cfg)) \<Longrightarrow>
       \<exists>spec ob. rb_outs rb = [spec] \<and> compile_outbound L spec = Inr ob \<and> (route_tag i, ob) \<in> set (ce_outbounds ce)"
proof -
  let ?n = "numbered 0 (eg_routes cfg)"
  from assms obtain R Os n obs where loop: "normalize_loop 0 (eg_routes cfg) [] [] = Inr (R, Os)"
    and n: "n = \<lparr>ne_default_tag = default_tag, ne_routes = R, ne_outbounds = Os @ [\<lparr>no_tag = default_tag, no_spec = SpecDirect\<rparr>]\<rparr>"
    and obs: "compile_outbounds L (ne_outbounds n) = Inr obs"
    and ce: "ce = \<lparr>ce_freedom_tag = Some (ne_default_tag n),
       ce_route_table = table_new (List.map_filter compile_route (ne_routes n)) None, ce_outbounds = obs\<rparr>"
    by (auto simp: compile_def normalize_def compile_normalized_def rbind_Inr_conv split: prod.splits)
  from normalize_loop_Inr [OF loop] have R: "R = map normal_route ?n" and Os: "Os = map normal_outbound ?n"
    and one: "\<forall>(i, rb) \<in> set ?n. length (rb_outs rb) = 1" by simp_all
  from compile_outbounds_Inr [OF obs] have tags: "map fst obs = map no_tag (ne_outbounds n)"
    and each: "\<forall>m \<in> set (ne_outbounds n). \<exists>ob. compile_outbound L (no_spec m) = Inr ob \<and> (no_tag m, ob) \<in> set obs"
    by simp_all
  show "ce_freedom_tag ce = Some default_tag" by (simp add: ce n)
  show "ce_route_table ce = table_new (List.map_filter compile_route (map normal_route ?n)) None" by (simp add: ce n R)
  show "map fst (ce_outbounds ce) = map (route_tag \<circ> fst) ?n @ [default_tag]"
    by (simp add: ce n Os tags) (simp add: normal_outbound_def)
  show "(default_tag, outbound.Freedom) \<in> set (ce_outbounds ce)"
    using each by (simp add: ce n compile_outbound_def)
  assume m: "(i, rb) \<in> set ?n"
  then obtain spec where spec: "rb_outs rb = [spec]" using one by (auto simp: length_Suc_conv)
  moreover have "normal_outbound (i, rb) \<in> set (ne_outbounds n)" using m by (simp add: n Os)
  ultimately show "\<exists>spec ob. rb_outs rb = [spec] \<and> compile_outbound L spec = Inr ob \<and> (route_tag i, ob) \<in> set (ce_outbounds ce)"
    using each [rule_format, of "normal_outbound (i, rb)"] by (auto simp: ce normal_outbound_def)
qed

lemma numbered_distinct: "distinct (map (route_tag \<circ> fst) (numbered idx rbs))"
proof -
  have "distinct (map fst (numbered idx rbs))"
    unfolding numbered_def by (rule distinct_map_filter) simp
  then show ?thesis by (simp add: distinct_map inj_on_def)
qed

lemma find_SomeD: "find P xs = Some x \<Longrightarrow> x \<in> set xs \<and> P x"
  by (induction xs) (auto split: if_splits)

text \<open>The outbound the configuration means for a query: of the first matching block, or direct.\<close>

definition egress_choice :: "crypto_lib \<Rightarrow> geo_matcher \<Rightarrow> egress_config \<Rightarrow> route_query \<Rightarrow> outbound \<Rightarrow> bool" where
  "egress_choice L geo cfg q ob \<longleftrightarrow>
     (case find (block_matches geo q) (if eg_enable cfg then eg_routes cfg else []) of
        None \<Rightarrow> ob = outbound.Freedom
      | Some rb \<Rightarrow> \<exists>spec. rb_outs rb = [spec] \<and> compile_outbound L spec = Inr ob)"

lemma compiled_choice:
  assumes ok: "compile L cfg = Inr ce" and dec: "table_decides geo (ce_route_table ce) req d"
  shows "\<exists>ob. resolved (egress_dispatch ce) d = Some ob \<and> egress_choice L geo cfg (query_of req) ob"
proof (cases "eg_enable cfg")
  case False
  with ok have ce: "ce = \<lparr>ce_freedom_tag = Some default_tag, ce_route_table = table_new [] None,
      ce_outbounds = [(default_tag, outbound.Freedom)]\<rparr>" by (simp add: compile_def)
  with dec have "d = route_decision.Freedom" by (simp add: table_decides_def table_new_def)
  then show ?thesis using False
    by (simp add: ce egress_dispatch_def resolved_def outbound_list_new_def outbound_build_def egress_choice_def)
next
  case True
  let ?q = "query_of req" and ?n = "numbered 0 (eg_routes cfg)"
  note f = compile_enabled(1) [OF ok True] and t = compile_enabled(2) [OF ok True]
    and tags = compile_enabled(3) [OF ok True] and dflt = compile_enabled(4) [OF ok True]
    and each = compile_enabled(5) [OF ok True]
  have dist: "distinct (map fst (ce_outbounds ce))"
    using numbered_distinct [of 0 "eg_routes cfg"] by (auto simp: tags)
  show ?thesis
  proof (cases "find (block_matches geo ?q \<circ> snd) (enumerate 0 (eg_routes cfg))")
    case None
    then have "d = route_decision.Freedom"
      using dec find_compiled [of geo ?q 0 "eg_routes cfg"] by (simp add: table_decides_def t table_new_def)
    moreover have "find (block_matches geo ?q) (eg_routes cfg) = None"
      using None find_enumerate [of "block_matches geo ?q" 0 "eg_routes cfg"] by simp
    ultimately show ?thesis using True f outbound_build_get [OF dist dflt]
      by (simp add: egress_dispatch_def resolved_def outbound_list_new_def egress_choice_def)
  next
    case (Some p)
    then have "d = Outbound (route_tag (fst p))"
      using dec find_compiled [of geo ?q 0 "eg_routes cfg"]
      by (simp add: table_decides_def t table_new_def compiled_rule_def rule_new_def)
    moreover have "find (block_matches geo ?q) (eg_routes cfg) = Some (snd p)"
      using Some find_enumerate [of "block_matches geo ?q" 0 "eg_routes cfg"] by simp
    moreover have "p \<in> set ?n"
      using find_SomeD [OF Some] by (auto simp: numbered_def block_matches_def)
    then obtain spec ob where "rb_outs (snd p) = [spec]" "compile_outbound L spec = Inr ob"
      "(route_tag (fst p), ob) \<in> set (ce_outbounds ce)" using each [of "fst p" "snd p"] by auto
    ultimately show ?thesis using True outbound_build_get [OF dist]
      by (simp add: egress_dispatch_def resolved_def outbound_list_new_def egress_choice_def)
  qed
qed

text \<open>Compiled rules have one tag each, so that routing never moves a balancer.\<close>

lemma decide_single: "outs rl = [t] \<Longrightarrow> snd (decide rnd rl q) = rl"
  by (simp add: decide_def)

lemma route_rules_single:
  "(\<forall>rl \<in> set rs. \<exists>t. outs rl = [t]) \<Longrightarrow> route_rules geo rnd rs q = Some (d, rs') \<Longrightarrow> rs' = rs"
proof (induction rs arbitrary: rs')
  case (Cons rl rs)
  then obtain t where "snd (decide rnd rl q) = rl" using decide_single [of rl _ rnd q] by auto
  with Cons show ?case by (auto split: if_splits option.splits prod.splits)
qed simp

lemma route_compiled:
  assumes "compile L cfg = Inr ce"
  shows "snd (route geo rnd (ce_route_table ce) q) = ce_route_table ce"
proof -
  have "\<forall>rl \<in> set (rules (ce_route_table ce)). \<exists>t. outs rl = [t]"
    using assms
    by (auto simp: compile_def compile_normalized_def rbind_Inr_conv table_new_def List.map_filter_def compile_route_def
        rule_new_def Let_def split: if_splits)
  from route_rules_single [OF this] show ?thesis
    by (auto simp: route_def split: option.splits prod.splits)
qed

text \<open>The route table after a flow is the one that routing the flow leaves.\<close>

lemma flow_table:
  assumes "decode c stream = Inr d"
    and "proxy_service_call decode (tree_route geo rnd) (tree_dispatch proc dp) c stream (tbl, rs) = (r, s')"
  shows "fst s' = snd (route geo rnd tbl (query_of (proxy_route_request d)))"
  using assms
  by (auto simp: proxy_service_call_def tree_route_def tree_dispatch_def route_service_call_def query_of_def
      map_err_def Let_def split: prod.splits)

text \<open>
  C37: From the egress configuration to the flow. When the configuration compiles, a flow that the proxy
  decoded runs exactly one outbound: the one of the first block, in the order of the file, one of whose
  matchers covers the flow's target, and the direct one when no block does (or routing is disabled). A
  domain matcher covers the domain and its subdomains whatever the case, a label or a keyword covers
  nothing. The tree is left as it was, so that this holds for every flow.
\<close>

theorem egress_flow:
  assumes "compile L cfg = Inr ce" and "decode c stream = Inr d"
    and "proxy_service_call decode (tree_route geo rnd) (tree_dispatch proc (egress_dispatch ce)) c stream
           (ce_route_table ce, rs) = (r, s')"
  shows "\<exists>ob. egress_choice L geo cfg (query_of (proxy_route_request d)) ob \<and>
    r = proc (ob, pd_ctx d, pd_target d, pd_link d) \<and>
    s' = (ce_route_table ce, rs @ [(ob, pd_ctx d, pd_target d, pd_link d)])"
proof -
  from kt.flow_served [OF assms(2,3)] obtain dec where
    dec: "table_decides geo (ce_route_table ce) (proxy_route_request d) dec"
    and run: "case resolved (egress_dispatch ce) dec of
        Some ob \<Rightarrow> r = proc (ob, pd_ctx d, pd_target d, pd_link d) \<and>
          snd s' = rs @ [(ob, pd_ctx d, pd_target d, pd_link d)]
      | None \<Rightarrow> r = Inr () \<and> snd s' = rs" unfolding fst_conv snd_conv by blast
  from compiled_choice [OF assms(1) dec] obtain ob where
    ob: "resolved (egress_dispatch ce) dec = Some ob" "egress_choice L geo cfg (query_of (proxy_route_request d)) ob"
    by blast
  have "fst s' = ce_route_table ce"
    using flow_table [OF assms(2,3)] route_compiled [OF assms(1)] by simp
  with run ob show ?thesis by (intro exI [of _ ob]) (auto intro: prod_eqI)
qed

text \<open>A block that cannot be compiled.\<close>

definition unusable :: "route_block \<Rightarrow> bool" where
  "unusable rb \<longleftrightarrow> rb_outs rb = [] \<or> 1 < length (rb_outs rb) \<or>
     (\<exists>listen server p pw cipher. rb_outs rb = [SpecShadowsocks listen server p pw cipher] \<and> method_kind cipher = None)"

lemma unusable_outbound:
  assumes "length (rb_outs rb) = 1"
  shows "(\<exists>e. compile_outbound L (hd (rb_outs rb)) = Inl e) \<longleftrightarrow> unusable rb"
proof -
  from assms obtain spec where spec: "rb_outs rb = [spec]" by (auto simp: length_Suc_conv)
  then show ?thesis
    by (cases spec) (auto simp: unusable_def compile_outbound_def ss_outbound_new_def ok_or_def split: option.splits)
qed

lemma unusable_count: "length (rb_outs rb) \<noteq> 1 \<Longrightarrow> unusable rb"
  by (cases "rb_outs rb") (auto simp: unusable_def)

lemma numbered_blocks: "snd ` set (numbered idx rbs) = {rb \<in> set rbs. block_exprs rb \<noteq> []}"
  by (induction rbs arbitrary: idx) auto

lemma effective_block: "block_exprs rb \<noteq> [] \<longleftrightarrow> (\<exists>raw \<in> set (rb_rules rb). parse_rule_expr raw \<noteq> None)"
  by (auto simp: block_exprs_def List.map_filter_def filter_empty_conv)

text \<open>
  C38: Exactly the configurations with an unusable block are refused: routing is enabled and some block
  with an effective matcher has no or several outbounds, or a Shadowsocks outbound of a cipher that is
  not supported. Blocks without effective matchers are not looked at.
\<close>

theorem egress_compile_errors:
  "(\<exists>e. compile L cfg = Inl e) \<longleftrightarrow> eg_enable cfg \<and>
     (\<exists>rb \<in> set (eg_routes cfg). (\<exists>raw \<in> set (rb_rules rb). parse_rule_expr raw \<noteq> None) \<and> unusable rb)"
proof (cases "normalize_loop 0 (eg_routes cfg) [] []")
  case (Inl e)
  then obtain rb where "rb \<in> set (eg_routes cfg)" "block_exprs rb \<noteq> []" "unusable rb"
    using normalize_loop_Inl [of 0 "eg_routes cfg" "[]" "[]"] unusable_count by auto
  then show ?thesis unfolding effective_block [symmetric] by (auto simp: compile_def normalize_def Inl)
next
  case (Inr ro)
  obtain R Os where ro: "ro = (R, Os)" by fastforce
  from normalize_loop_Inr [OF Inr [unfolded ro]]
  have Os: "Os = map normal_outbound (numbered 0 (eg_routes cfg))"
    and one: "\<forall>p \<in> set (numbered 0 (eg_routes cfg)). length (rb_outs (snd p)) = 1" by auto
  have "(\<exists>e. compile L cfg = Inl e) \<longleftrightarrow> eg_enable cfg \<and> (\<exists>n \<in> set Os. \<exists>e. compile_outbound L (no_spec n) = Inl e)"
    using compile_outbounds_Inl [of L "Os @ [\<lparr>no_tag = default_tag, no_spec = SpecDirect\<rparr>]"]
    by (auto simp: compile_def normalize_def compile_normalized_def Inr ro rbind_def compile_outbound_def [of L SpecDirect]
        split: sum.splits)
  also have "\<dots> \<longleftrightarrow> eg_enable cfg \<and> (\<exists>p \<in> set (numbered 0 (eg_routes cfg)). unusable (snd p))"
    using one by (simp add: Os normal_outbound_def unusable_outbound)
  also have "\<dots> \<longleftrightarrow> eg_enable cfg \<and> (\<exists>rb \<in> snd ` set (numbered 0 (eg_routes cfg)). unusable rb)" by simp
  finally show ?thesis unfolding numbered_blocks effective_block by auto
qed

text \<open>A configuration with a label, a domain sent to a SOCKS server, and a catch-all that blocks.\<close>

definition sample_egress :: egress_config where
  "sample_egress = \<lparr>eg_enable = True, eg_routes =
     [\<lparr>rb_rules = [''#SG''], rb_outs = []\<rparr>,
      \<lparr>rb_rules = [''#Video'', '' domain:Example.com ''], rb_outs = [SpecSocks [] ''proxy.net'' 1080 ''u'' ''p'']\<rparr>,
      \<lparr>rb_rules = [''*''], rb_outs = [SpecBlock]\<rparr>]\<rparr>"

definition sample_compiled :: compiled_egress where
  "sample_compiled = (case compile sample_lib sample_egress of Inr ce \<Rightarrow> ce
     | Inl _ \<Rightarrow> \<lparr>ce_freedom_tag = None, ce_route_table = table_new [] None, ce_outbounds = []\<rparr>)"

theorem egress_flow_witness:
  "snd (snd (proxy_service_call (sample_flow ''www.EXAMPLE.com'') (tree_route NoGeo 5)
      (tree_dispatch (\<lambda>_. Inr ()) (egress_dispatch sample_compiled)) sample_tree_ctx () (ce_route_table sample_compiled, []))) =
    [(OSocks (socks_outbound_new (Domain ''proxy.net'') 1080 ''u'' ''p''), sample_tree_ctx,
      dest_tcp (Domain ''www.EXAMPLE.com'') 443, NoLink)]"
proof -
  let ?p = "proxy_service_call (sample_flow ''www.EXAMPLE.com'') (tree_route NoGeo 5)
      (tree_dispatch (\<lambda>_. Inr ()) (egress_dispatch sample_compiled)) sample_tree_ctx () (ce_route_table sample_compiled, [])"
  let ?d = "\<lparr>pd_target = dest_tcp (Domain ''www.EXAMPLE.com'') 443, pd_ctx = sample_tree_ctx, pd_link = NoLink\<rparr>"
  let ?q = "query_of (proxy_route_request ?d)"
  have "(case compile sample_lib sample_egress of Inl _ \<Rightarrow> False | Inr _ \<Rightarrow> True)" by code_simp
  then have ok: "compile sample_lib sample_egress = Inr sample_compiled"
    by (simp add: sample_compiled_def split: sum.splits)
  have d: "sample_flow ''www.EXAMPLE.com'' sample_tree_ctx () = Inr ?d" by (simp add: sample_flow_def)
  have dom: "query_domain ?q = Some ''www.example.com''" by code_simp
  have "block_exprs (eg_routes sample_egress ! 0) = []" "block_exprs (eg_routes sample_egress ! 1) = [ExprSuffix ''Example.com'']"
    by code_simp+
  moreover have "expr_matches NoGeo ?q (ExprSuffix ''Example.com'')"
  proof -
    have "''www.example.com'' = ''www'' @ ''.'' @ to_ascii_lowercase ''Example.com''" by code_simp
    then show ?thesis unfolding expr_matches_def rule_expr.case dom by blast
  qed
  ultimately have "\<not> block_matches NoGeo ?q (eg_routes sample_egress ! 0)" "block_matches NoGeo ?q (eg_routes sample_egress ! 1)"
    by (simp_all add: block_matches_def del: One_nat_def)
  moreover have "eg_routes sample_egress = [eg_routes sample_egress ! 0, eg_routes sample_egress ! 1, eg_routes sample_egress ! 2]"
    by (simp add: sample_egress_def)
  ultimately have "find (block_matches NoGeo ?q) (eg_routes sample_egress) = Some (eg_routes sample_egress ! 1)"
    by (metis find.simps(2))
  then have "egress_choice sample_lib NoGeo sample_egress ?q ob \<Longrightarrow>
      ob = OSocks (socks_outbound_new (address_parse ''proxy.net'') 1080 ''u'' ''p'')" for ob
    by (simp add: egress_choice_def) (auto simp: sample_egress_def compile_outbound_def)
  moreover have "address_parse ''proxy.net'' = Domain ''proxy.net''" by code_simp
  ultimately show ?thesis
    using egress_flow [of sample_lib sample_egress sample_compiled "sample_flow ''www.EXAMPLE.com''" sample_tree_ctx "()" ?d
      NoGeo 5 "\<lambda>_. Inr ()" "[]" "fst ?p" "snd ?p", OF ok d] by auto
qed

end
