(* ===== verification/NodeBuilder.thy ===== *)
theory NodeBuilder
  imports Controller Vless Trojan Vmess Shadowsocks Socks Http Transport
begin

text \<open>
  saas/src/api.rs, saas/src/config.rs and saas/src/builder.rs: a node as the panel describes it, and the inbound
  that is built from it and its users. An \<open>anyhow\<close> error is a constructor with the values its message
  shows. The libraries the handlers call, the file system and OpenSSL are fields of records.
\<close>

section \<open>Nodes\<close>

datatype node_type = V2ray | VmessNode | VlessNode | TrojanNode | ShadowsocksNode | ShadowsocksPlugin | DokodemoNode

definition node_type_parse :: "string \<Rightarrow> node_type option" where
  "node_type_parse s =
     (if s \<in> set [''V2ray'', ''v2ray'', ''V2Ray''] then Some V2ray
      else if s \<in> set [''Vmess'', ''vmess'', ''VMess''] then Some VmessNode
      else if s \<in> set [''Vless'', ''vless'', ''VLESS''] then Some VlessNode
      else if s \<in> set [''Trojan'', ''trojan''] then Some TrojanNode
      else if s \<in> set [''Shadowsocks'', ''shadowsocks''] then Some ShadowsocksNode
      else if s \<in> set [''Shadowsocks-Plugin'', ''shadowsocks-plugin''] then Some ShadowsocksPlugin
      else if s \<in> set [''dokodemo-door'', ''dokodemo''] then Some DokodemoNode
      else None)"

definition node_type_as_str :: "node_type \<Rightarrow> string" where
  "node_type_as_str t = (case t of
     V2ray \<Rightarrow> ''V2ray'' | VmessNode \<Rightarrow> ''Vmess'' | VlessNode \<Rightarrow> ''Vless'' | TrojanNode \<Rightarrow> ''Trojan''
   | ShadowsocksNode \<Rightarrow> ''Shadowsocks'' | ShadowsocksPlugin \<Rightarrow> ''Shadowsocks-Plugin'' | DokodemoNode \<Rightarrow> ''dokodemo-door'')"

record node_info =
  ni_type :: node_type
  ni_id :: i32
  ni_port :: u32
  ni_speed_limit :: u64
  ni_alter_id :: u16
  ni_transport :: string
  ni_host :: string
  ni_path :: string
  ni_enable_tls :: bool
  ni_enable_vless :: bool
  ni_vless_flow :: string
  ni_cypher_method :: string
  ni_server_key :: string
  ni_service_name :: string
  ni_authority :: string
  ni_header :: "string option"
  ni_accept_proxy_protocol :: bool
  ni_enable_reality :: bool

section \<open>Configuration\<close>

record cert_config =
  cert_mode :: string
  cert_domain :: string
  cert_file :: string
  key_file :: string

definition cert_default :: cert_config where
  "cert_default = \<lparr>cert_mode = ''none'', cert_domain = [], cert_file = [], key_file = []\<rparr>"

text \<open>The keys of the flattened table of unknown settings are all that is read of them.\<close>

record controller_config =
  cc_listen_ip :: string
  cc_send_ip :: string
  cc_update_periodic :: u32
  cc_enable_proxy_protocol :: bool
  cc_disable_sniffing :: bool
  cc_disable_upload_traffic :: bool
  cc_disable_get_rule :: bool
  cc_dns_type :: string
  cc_cert :: cert_config
  cc_unknown :: "string list"

definition controller_default :: controller_config where
  "controller_default = \<lparr>cc_listen_ip = ''0.0.0.0'', cc_send_ip = ''0.0.0.0'', cc_update_periodic = 60,
     cc_enable_proxy_protocol = False, cc_disable_sniffing = False, cc_disable_upload_traffic = False,
     cc_disable_get_rule = False, cc_dns_type = ''AsIs'', cc_cert = cert_default, cc_unknown = []\<rparr>"

section \<open>Handlers\<close>

datatype inbound =
    InTrojan trojan_users
  | InVless vless_users
  | InShadowsocks shadowsocks
  | InSocks "socks_account list"
  | InHttp "http_account list"
  | InDokodemo dokodemo
  | InVmess vmess

definition binds_udp :: "inbound \<Rightarrow> bool" where
  "binds_udp h = (case h of InShadowsocks _ \<Rightarrow> True | _ \<Rightarrow> False)"

record libs =
  lb_crypto :: crypto_lib
  lb_vmess :: vmess_lib
  lb_sha1 :: "bytes \<Rightarrow> bytes"
  lb_sha224 :: "bytes \<Rightarrow> bytes"
  lb_hex :: "bytes \<Rightarrow> bytes"

datatype build_error =
    FlowUnsupported string
  | VmessTable error
  | NoCipher
  | UnsupportedMethod string
  | PluginUnsupported
  | NotPanelServed
  | VariantMismatch node_type
  | RealityUnsupported
  | NoCertificate string
  | Reading string io_error
  | TlsSetup error
  | XhttpUnsupported
  | UnsupportedTransport string
  | PortOutOfRange u32
  | PortZero

definition build_node_tag :: "node_info \<Rightarrow> string \<Rightarrow> string" where
  "build_node_tag node listen_ip =
     node_type_as_str (ni_type node) @ ''_'' @ listen_ip @ ''_'' @ show_nat (unat (ni_port node))"

definition is_vless :: "node_info \<Rightarrow> bool" where
  "is_vless node \<longleftrightarrow> ni_enable_vless node \<or> ni_type node = VlessNode"

definition ss_method :: "node_info \<Rightarrow> user_info list \<Rightarrow> string option" where
  "ss_method node us =
     (if ni_cypher_method node \<noteq> [] then Some (ni_cypher_method node)
      else case us of [] \<Rightarrow> None | u # _ \<Rightarrow> Some (ui_method u))"

text \<open>The loop of the VLESS and VMess tables: users whose identifier does not parse are skipped.\<close>

definition uuid_users :: "libs \<Rightarrow> user_info list \<Rightarrow> string \<Rightarrow> (uuid \<times> string \<times> u32) list" where
  "uuid_users lb us node_tag = List.map_filter (\<lambda>u.
     case uuid_parse_str (lb_sha1 lb) (ui_uuid u) of
       Inr i \<Rightarrow> Some (i, build_user_tag node_tag u, 0)
     | Inl _ \<Rightarrow> None) us"

definition build_vless_users :: "libs \<Rightarrow> user_info list \<Rightarrow> string \<Rightarrow> vless_users" where
  "build_vless_users lb us node_tag = vless_users_new (uuid_users lb us node_tag)"

definition build_vmess_users :: "libs \<Rightarrow> user_info list \<Rightarrow> string \<Rightarrow> build_error + vmess_user list" where
  "build_vmess_users lb us node_tag = map_err VmessTable (vmess_users_new (lb_vmess lb) (uuid_users lb us node_tag))"

definition build_trojan_users :: "libs \<Rightarrow> user_info list \<Rightarrow> string \<Rightarrow> trojan_users" where
  "build_trojan_users lb us node_tag =
     trojan_users_new (lb_sha224 lb) (lb_hex lb) (map (\<lambda>u. (ui_uuid u, build_user_tag node_tag u, 0)) us)"

definition build_ss_user_iter :: "user_info list \<Rightarrow> string \<Rightarrow> (string \<times> string \<times> u32) list" where
  "build_ss_user_iter us node_tag = map (\<lambda>u. (ui_passwd u, build_user_tag node_tag u, 0)) us"

definition build_inbound_handler :: "libs \<Rightarrow> node_info \<Rightarrow> user_info list \<Rightarrow> string \<Rightarrow> build_error + inbound" where
  "build_inbound_handler lb node us node_tag =
     (if ni_type node \<in> {V2ray, VmessNode, VlessNode} then
        if is_vless node then
          if ni_vless_flow node \<noteq> [] then Inl (FlowUnsupported (ni_vless_flow node))
          else Inr (InVless (build_vless_users lb us node_tag))
        else rbind (build_vmess_users lb us node_tag) (\<lambda>t. Inr (InVmess (vmess_new t)))
      else if ni_type node = TrojanNode then Inr (InTrojan (build_trojan_users lb us node_tag))
      else if ni_type node = ShadowsocksNode then
        rbind (ok_or (ss_method node us) NoCipher) (\<lambda>method.
        rbind (ok_or (method_kind method) (UnsupportedMethod method)) (\<lambda>kd.
        Inr (InShadowsocks (shadowsocks_new (lb_crypto lb) kd (build_ss_user_iter us node_tag)))))
      else if ni_type node = ShadowsocksPlugin then Inl PluginUnsupported
      else Inl NotPanelServed)"

definition apply_users :: "libs \<Rightarrow> inbound \<Rightarrow> node_info \<Rightarrow> user_info list \<Rightarrow> string \<Rightarrow> build_error + inbound" where
  "apply_users lb h node us node_tag = (case h of
     InVless _ \<Rightarrow> Inr (InVless (build_vless_users lb us node_tag))
   | InVmess v \<Rightarrow> rbind (build_vmess_users lb us node_tag) (\<lambda>t. Inr (InVmess (vmess_set_users t v)))
   | InTrojan _ \<Rightarrow> Inr (InTrojan (build_trojan_users lb us node_tag))
   | InShadowsocks s \<Rightarrow> Inr (InShadowsocks (ss_set_users (lb_crypto lb) (build_ss_user_iter us node_tag) s))
   | _ \<Rightarrow> Inl (VariantMismatch (ni_type node)))"

section \<open>Streams\<close>

record 'tls host =
  read_file :: "string \<Rightarrow> bytes io_result"
  tls_from_pem :: "bytes \<Rightarrow> bytes \<Rightarrow> string list \<Rightarrow> 'tls result"

definition build_security :: "'tls host \<Rightarrow> node_info \<Rightarrow> cert_config \<Rightarrow> build_error + 'tls security" where
  "build_security H node cert =
     (if ni_enable_tls node \<and> cert_mode cert \<noteq> ''none'' then
        if cert_file cert = [] \<or> key_file cert = [] then Inl (NoCertificate (cert_mode cert))
        else rbind (map_err (Reading (cert_file cert)) (read_file H (cert_file cert))) (\<lambda>cert_pem.
             rbind (map_err (Reading (key_file cert)) (read_file H (key_file cert))) (\<lambda>key_pem.
             rbind (map_err TlsSetup (tls_from_pem H cert_pem key_pem [''h2'', ''http/1.1''])) (\<lambda>server.
             Inr (SecTls server))))
      else Inr SecNone)"

definition opt_host :: "string \<Rightarrow> string option" where
  "opt_host h = (if h = [] then None else Some h)"

definition build_transport :: "node_info \<Rightarrow> build_error + transport_kind" where
  "build_transport node =
     (let t = ni_transport node in
      if t \<in> set [''tcp'', ''raw'', []] then Inr TrRaw
      else if t \<in> set [''ws'', ''websocket''] then
        Inr (TrWs \<lparr>ws_path = ni_path node, ws_host = opt_host (ni_host node)\<rparr>)
      else if t = ''httpupgrade'' then
        Inr (TrHttpUpgrade \<lparr>hu_path = ni_path node, hu_host = opt_host (ni_host node)\<rparr>)
      else if t \<in> set [''grpc'', ''gun''] then Inr (TrGrpc (ni_service_name node))
      else if t \<in> set [''splithttp'', ''xhttp''] then Inl XhttpUnsupported
      else Inl (UnsupportedTransport t))"

definition build_stream :: "'tls host \<Rightarrow> node_info \<Rightarrow> cert_config \<Rightarrow> build_error + 'tls stream_config" where
  "build_stream H node cert =
     (if ni_enable_reality node then Inl RealityUnsupported
      else rbind (build_security H node cert) (\<lambda>sec.
           rbind (build_transport node) (\<lambda>tr.
           Inr \<lparr>sc_security = sec, sc_transport = tr\<rparr>)))"

record 'tls built_inbound =
  bi_tag :: string
  bi_listen :: string
  bi_port :: u16
  bi_stream :: "'tls stream_config"
  bi_handler :: inbound

definition build_inbound ::
  "libs \<Rightarrow> 'tls host \<Rightarrow> node_info \<Rightarrow> user_info list \<Rightarrow> string \<Rightarrow> cert_config \<Rightarrow> build_error + 'tls built_inbound" where
  "build_inbound lb H node us listen_ip cert =
     (if 65535 < ni_port node then Inl (PortOutOfRange (ni_port node))
      else let p = ucast (ni_port node) in
        if p = 0 then Inl PortZero
        else let tg = build_node_tag node listen_ip in
          rbind (build_inbound_handler lb node us tg) (\<lambda>handler.
          rbind (build_stream H node cert) (\<lambda>stream.
          Inr \<lparr>bi_tag = tg, bi_listen = listen_ip, bi_port = p, bi_stream = stream, bi_handler = handler\<rparr>)))"

section \<open>Attribution\<close>

text \<open>The tags a handler can attribute a flow to.\<close>

definition handler_emails :: "inbound \<Rightarrow> string set" where
  "handler_emails h = (case h of
     InVless t \<Rightarrow> {vl_email u | u k. vless_get t k = Some u}
   | InVmess v \<Rightarrow> vu_email ` set (vm_users v)
   | InTrojan t \<Rightarrow> {tr_email u | u k. trojan_get t k = Some u}
   | InShadowsocks s \<Rightarrow> su_email ` set (ss_users s)
   | _ \<Rightarrow> {})"

lemma vmess_users_email:
  "vmess_users_new V us = Inr t \<Longrightarrow> u \<in> set t \<Longrightarrow> \<exists>i l. (i, vu_email u, l) \<in> set us"
  by (induction us arbitrary: t) (fastforce simp: Let_def rbind_Inr_conv split: if_splits)+

lemma uuid_users_tag: "(i, e, l) \<in> set (uuid_users lb us tg) \<Longrightarrow> e \<in> build_user_tag tg ` set us"
  by (auto simp: uuid_users_def List.map_filter_def split: sum.splits)

lemma find_mem: "find P xs = Some x \<Longrightarrow> x \<in> set xs"
  by (auto simp: find_Some_iff)

lemma vless_email: "vless_get (build_vless_users lb us tg) k = Some u \<Longrightarrow> vl_email u \<in> build_user_tag tg ` set us"
  by (auto simp: build_vless_users_def vless_users_new_get intro: uuid_users_tag dest!: find_mem)

lemma vmess_email: "vmess_users_new V (uuid_users lb us tg) = Inr t \<Longrightarrow> u \<in> set t \<Longrightarrow> vu_email u \<in> build_user_tag tg ` set us"
  by (blast dest: vmess_users_email uuid_users_tag)

lemma trojan_email: "trojan_get (build_trojan_users lb us tg) k = Some u \<Longrightarrow> tr_email u \<in> build_user_tag tg ` set us"
  by (auto simp: build_trojan_users_def trojan_users_new_get dest!: find_mem)

lemma ss_email: "u \<in> set (build_ss_users L kd (build_ss_user_iter us tg)) \<Longrightarrow> su_email u \<in> build_user_tag tg ` set us"
  by (auto simp: build_ss_users_def build_ss_user_iter_def)

lemmas table_emails = vless_email vmess_email trojan_email ss_email

lemmas table_simps = handler_emails_def build_vmess_users_def vmess_new_def vmess_set_users_def shadowsocks_new_def
  ss_set_users_def

lemma handler_emails_built:
  assumes "build_inbound_handler lb node us tg = Inr h"
  shows "handler_emails h \<subseteq> build_user_tag tg ` set us"
  using assms
  by (auto simp: build_inbound_handler_def table_simps rbind_Inr_conv intro: table_emails split: if_splits)

lemma handler_emails_applied:
  assumes "apply_users lb h0 node us tg = Inr h"
  shows "handler_emails h \<subseteq> build_user_tag tg ` set us"
  using assms
  by (auto simp: apply_users_def table_simps rbind_Inr_conv intro: table_emails split: inbound.splits)

section \<open>Live synchronisation\<close>

text \<open>
  Two handlers that authenticate alike: the same variant with the same user table, and the same cipher. What a
  VMess handler learnt (recent users, replay filter, counters) is left out.
\<close>

definition same_users :: "inbound \<Rightarrow> inbound \<Rightarrow> bool" where
  "same_users h h' = (case (h, h') of
     (InVless t, InVless t') \<Rightarrow> t = t'
   | (InVmess v, InVmess v') \<Rightarrow> vm_users v = vm_users v'
   | (InTrojan t, InTrojan t') \<Rightarrow> t = t'
   | (InShadowsocks s, InShadowsocks s') \<Rightarrow> s = s'
   | _ \<Rightarrow> False)"

text \<open>A handler of the variant that the node builds; a Shadowsocks handler with the cipher of its method.\<close>

definition handles :: "node_info \<Rightarrow> user_info list \<Rightarrow> inbound \<Rightarrow> bool" where
  "handles node us h = (case h of
     InVless _ \<Rightarrow> ni_type node \<in> {V2ray, VmessNode, VlessNode} \<and> is_vless node
   | InVmess _ \<Rightarrow> ni_type node \<in> {V2ray, VmessNode, VlessNode} \<and> \<not> is_vless node
   | InTrojan _ \<Rightarrow> ni_type node = TrojanNode
   | InShadowsocks s \<Rightarrow> ni_type node = ShadowsocksNode \<and> Option.bind (ss_method node us) method_kind = Some (ss_kind s)
   | _ \<Rightarrow> False)"

lemma built_handles:
  assumes "build_inbound_handler lb node us tg = Inr h"
  shows "handles node us h"
  using assms
  by (auto simp: build_inbound_handler_def handles_def rbind_Inr_conv ok_or_Inr shadowsocks_new_def split: if_splits)

lemma apply_users_rebuild:
  assumes h: "handles node us0 h" and m: "ss_method node us = ss_method node us0"
    and b: "build_inbound_handler lb node us tg = Inr h1"
  shows "\<exists>h'. apply_users lb h node us tg = Inr h' \<and> same_users h' h1"
  using assms
  by (cases h) (auto simp: handles_def apply_users_def build_inbound_handler_def same_users_def rbind_Inr_conv
      ok_or_Inr vmess_new_def vmess_set_users_def shadowsocks_new_def ss_set_users_def split: if_splits)

end
