(* ===== verification/NodeController.thy ===== *)
theory NodeController
  imports NodeBuilder Service
begin

text \<open>
  saas/src/inbound_manager.rs and the node half of saas/src/controller.rs (the traffic half is the theory
  Controller): the live inbounds of the process, and the controller that keeps one node's inbound in line
  with the panel. The panel's answers and the results of binding sockets are arguments. A handler is
  shared by the manager's entry and the inbound's tree and holds its user table in a cell, so the entry of
  the manager is the place where it is updated.
\<close>

section \<open>Listen addresses\<close>

text \<open>
  \<open>str::parse::<SocketAddr>\<close>: an IPv4 address or a bracketed IPv6 address, with an optional scope, which a
  socket address of the model does not keep, then a colon and the port.
\<close>

definition read_port_number :: "string \<Rightarrow> (nat \<times> string) option" where
  "read_port_number s = Option.bind (read_given_char CHR '':'' s) (\<lambda>r. read_number dec_digit 10 (length r) 65535 True r)"

definition read_scope :: "string \<Rightarrow> string option" where
  "read_scope s = (case read_given_char CHR ''%'' s of
     None \<Rightarrow> Some s
   | Some r \<Rightarrow> map_option snd (read_number dec_digit 10 (length r) (2 ^ 32 - 1) True r))"

definition parse_socket_addr :: "string \<Rightarrow> socket_addr option" where
  "parse_socket_addr s =
     (case Option.bind (read_ipv4_addr s) (\<lambda>(os, r). map_option (Pair os) (read_port_number r)) of
        Some (os, p, r) \<Rightarrow> if r = [] then Some (V4 (word_of_nat (nat_of_groups 256 os)), word_of_nat p) else None
      | None \<Rightarrow> do {
          s1 \<leftarrow> read_given_char CHR ''['' s;
          (gs, s2) \<leftarrow> read_ipv6_addr s1;
          s3 \<leftarrow> read_scope s2;
          s4 \<leftarrow> read_given_char CHR '']'' s3;
          (p, s5) \<leftarrow> read_port_number s4;
          if s5 = [] then Some (V6 (word_of_nat (nat_of_groups 65536 gs)), word_of_nat p) else None })"

section \<open>The inbound manager\<close>

text \<open>A task of an inbound, by what it serves: the UDP socket, or the accept loop with the stream of its tree.\<close>

datatype 'tls task = UdpTask socket_addr | AcceptTask socket_addr "'tls stream_config"

text \<open>
  The accept loop, over what its \<open>select!\<close> sees: the token, a connection with its peer, or a failed accept
  with its operating system code and whether it is an aborted connection. The result is the connections
  handed to the tree, each in a task of its own, and the number of pauses on exhausted descriptors; the
  events after the cancellation are never looked at, and an exhausted list is a loop that still waits.
\<close>

datatype 'conn accept_event = TokenCancelled | AcceptedConn 'conn socket_addr | AcceptError "nat option" bool

fun accept_loop :: "'conn accept_event list \<Rightarrow> ('conn \<times> socket_addr option) list \<times> nat" where
  "accept_loop [] = ([], 0)"
| "accept_loop (TokenCancelled # _) = ([], 0)"
| "accept_loop (AcceptError code ab # evs) = (case accept_loop evs of (conns, pauses) \<Rightarrow>
     (conns, if code = Some 23 \<or> code = Some 24 then Suc pauses else pauses))"
| "accept_loop (AcceptedConn tcp peer # evs) = (case accept_loop evs of (conns, pauses) \<Rightarrow>
     ((tcp, Some peer) # conns, pauses))"

text \<open>
  Errors never end the loop, and what is accepted before the cancellation is handed on once, in order; nothing is
  after it.
\<close>

lemma accept_loop_conns:
  "fst (accept_loop evs) = List.map_filter (\<lambda>e. case e of AcceptedConn tcp peer \<Rightarrow> Some (tcp, Some peer) | _ \<Rightarrow> None)
     (takeWhile (\<lambda>e. e \<noteq> TokenCancelled) evs)"
  by (induction evs rule: accept_loop.induct) (auto simp: List.map_filter_simps case_prod_beta)

record 'tls running =
  rn_token :: nat
  rn_handler :: inbound
  rn_tasks :: "'tls task list"

record 'tls inbounds =
  ib_running :: "string \<rightharpoonup> 'tls running"
  ib_tokens :: tokens

record sockets =
  sk_bind_tcp :: "socket_addr \<Rightarrow> unit io_result"
  sk_bind_udp :: "socket_addr \<Rightarrow> unit io_result"

datatype add_error = AlreadyRunning string | InvalidListen string u16 | Binding socket_addr io_error

definition manager_new :: "'tls inbounds" where
  "manager_new = \<lparr>ib_running = Map.empty, ib_tokens = \<lparr>tk_next = 0, tk_cancelled = {}\<rparr>\<rparr>"

definition manager_handler :: "'tls inbounds \<Rightarrow> string \<Rightarrow> inbound option" where
  "manager_handler m tg = map_option rn_handler (ib_running m tg)"

definition manager_contains :: "'tls inbounds \<Rightarrow> string \<Rightarrow> bool" where
  "manager_contains m tg \<longleftrightarrow> ib_running m tg \<noteq> None"

definition manager_add :: "sockets \<Rightarrow> 'tls built_inbound \<Rightarrow> 'tls inbounds \<Rightarrow> add_error + 'tls inbounds" where
  "manager_add S built m =
     (if manager_contains m (bi_tag built) then Inl (AlreadyRunning (bi_tag built))
      else rbind (ok_or (parse_socket_addr (bi_listen built @ '':'' @ show_nat (unat (bi_port built))))
                        (InvalidListen (bi_listen built) (bi_port built))) (\<lambda>adr.
           rbind (map_err (Binding adr) (sk_bind_tcp S adr)) (\<lambda>_.
           let (t, st) = token_new (ib_tokens m);
               udp = (if binds_udp (bi_handler built)
                      then (case sk_bind_udp S adr of Inr _ \<Rightarrow> [UdpTask adr] | Inl _ \<Rightarrow> []) else []);
               entry = \<lparr>rn_token = t, rn_handler = bi_handler built, rn_tasks = udp @ [AcceptTask adr (bi_stream built)]\<rparr>
           in Inr \<lparr>ib_running = (ib_running m)(bi_tag built \<mapsto> entry), ib_tokens = st\<rparr>)))"

text \<open>
  The removed entry's token is cancelled and its accept and UDP tasks are aborted. Connections that were accepted
  before run on in tasks of their own, which the manager does not keep.
\<close>

definition manager_remove :: "string \<Rightarrow> 'tls inbounds \<Rightarrow> 'tls inbounds" where
  "manager_remove tg m = (case ib_running m tg of
     None \<Rightarrow> m
   | Some r \<Rightarrow> \<lparr>ib_running = (ib_running m)(tg := None), ib_tokens = token_cancel (rn_token r) (ib_tokens m)\<rparr>)"

definition manager_len :: "'tls inbounds \<Rightarrow> nat" where
  "manager_len m = card (dom (ib_running m))"

definition manager_is_empty :: "'tls inbounds \<Rightarrow> bool" where
  "manager_is_empty m \<longleftrightarrow> ib_running m = Map.empty"

text \<open>The cell of a live handler after \<open>set_users\<close>.\<close>

definition put_handler :: "string \<Rightarrow> inbound \<Rightarrow> 'tls inbounds \<Rightarrow> 'tls inbounds" where
  "put_handler tg h m = m\<lparr>ib_running := (ib_running m)(tg := map_option (\<lambda>r. r\<lparr>rn_handler := h\<rparr>) (ib_running m tg))\<rparr>"

section \<open>The controller\<close>

datatype api_error =
    NotModified
  | RequestFailed string string
  | StatusFailed string u16 string
  | RetFailed u64
  | DecodeFailed string string
  | ParseNode string

type_synonym 'a api_result = "api_error + 'a"

record controller =
  ct_node_info :: "node_info option"
  ct_node_tag :: string
  ct_user_list :: "user_info list"

record 'tls world =
  wd_controller :: controller
  wd_inbounds :: "'tls inbounds"
  wd_stats :: stats

text \<open>What a controller is given once: its configuration, the libraries and the machine it runs on.\<close>

record 'tls setting =
  st_cfg :: controller_config
  st_libs :: libs
  st_host :: "'tls host"
  st_sockets :: sockets

definition controller_new :: controller where
  "controller_new = \<lparr>ct_node_info = None, ct_node_tag = [], ct_user_list = []\<rparr>"

datatype start_error = InitialNode api_error | InitialUsers api_error | ServerPort | StartBuild build_error | StartAdd add_error

definition controller_build :: "'tls setting \<Rightarrow> node_info \<Rightarrow> user_info list \<Rightarrow> build_error + 'tls built_inbound" where
  "controller_build E node us =
     build_inbound (st_libs E) (st_host E) node us (cc_listen_ip (st_cfg E)) (cc_cert (st_cfg E))"

definition controller_start ::
  "'tls setting \<Rightarrow> node_info api_result \<Rightarrow> user_info list api_result \<Rightarrow> 'tls world \<Rightarrow> start_error + 'tls world" where
  "controller_start E node_ans users_ans w =
     rbind (map_err InitialNode node_ans) (\<lambda>node.
     if ni_port node = 0 then Inl ServerPort
     else rbind (case users_ans of Inr u \<Rightarrow> Inr u | Inl NotModified \<Rightarrow> Inr [] | Inl e \<Rightarrow> Inl (InitialUsers e)) (\<lambda>us.
          rbind (map_err StartBuild (controller_build E node us)) (\<lambda>built.
          rbind (map_err StartAdd (manager_add (st_sockets E) built (wd_inbounds w))) (\<lambda>m.
          Inr (w\<lparr>wd_inbounds := m,
                 wd_controller := \<lparr>ct_node_info = Some node, ct_node_tag = bi_tag built, ct_user_list = us\<rparr>\<rparr>)))))"

text \<open>The two branches of \<open>node_info_monitor\<close>: a changed node, and a user list for the same node.\<close>

definition rebuild_node ::
  "'tls setting \<Rightarrow> node_info \<Rightarrow> user_info list option \<Rightarrow> 'tls world \<Rightarrow> 'tls world" where
  "rebuild_node E node new_users w =
     (if ni_port node = 0 then w
      else let c = wd_controller w;
               us = (case new_users of Some us \<Rightarrow> us | None \<Rightarrow> ct_user_list c);
               w1 = w\<lparr>wd_inbounds := manager_remove (ct_node_tag c) (wd_inbounds w),
                       wd_stats := prune_all_stats (ct_node_tag c) (ct_user_list c) (wd_stats w)\<rparr>
           in case controller_build E node us of
                Inl _ \<Rightarrow> w1
              | Inr built \<Rightarrow>
                 (case manager_add (st_sockets E) built (wd_inbounds w1) of
                    Inl _ \<Rightarrow> w1
                  | Inr m \<Rightarrow> w1\<lparr>wd_inbounds := m,
                      wd_controller := \<lparr>ct_node_info = Some node, ct_node_tag = bi_tag built, ct_user_list = us\<rparr>\<rparr>))"

definition sync_users :: "'tls setting \<Rightarrow> user_info list \<Rightarrow> 'tls world \<Rightarrow> 'tls world" where
  "sync_users E us w =
     (let c = wd_controller w in
      if \<not> users_differ (ct_user_list c) us then w
      else case ct_node_info c of None \<Rightarrow> w | Some node \<Rightarrow>
           case manager_handler (wd_inbounds w) (ct_node_tag c) of None \<Rightarrow> w | Some h \<Rightarrow>
           case apply_users (st_libs E) h node us (ct_node_tag c) of
             Inl _ \<Rightarrow> w
           | Inr h' \<Rightarrow> w\<lparr>wd_inbounds := put_handler (ct_node_tag c) h' (wd_inbounds w),
                          wd_stats := prune_removed_stats (ct_node_tag c) (ct_user_list c) us (wd_stats w),
                          wd_controller := c\<lparr>ct_user_list := us\<rparr>\<rparr>)"

definition node_info_monitor ::
  "'tls setting \<Rightarrow> node_info api_result \<Rightarrow> user_info list api_result \<Rightarrow> 'tls world \<Rightarrow> 'tls world" where
  "node_info_monitor E node_ans users_ans w =
     (case (case node_ans of Inr n \<Rightarrow> Some (Some n) | Inl NotModified \<Rightarrow> Some None | Inl _ \<Rightarrow> None) of
        None \<Rightarrow> w
      | Some new_node \<Rightarrow>
     (case (case users_ans of Inr u \<Rightarrow> Some (Some u) | Inl NotModified \<Rightarrow> Some None | Inl _ \<Rightarrow> None) of
        None \<Rightarrow> w
      | Some new_users \<Rightarrow>
         (if new_node \<noteq> None \<and> new_node \<noteq> ct_node_info (wd_controller w)
          then rebuild_node E (the new_node) new_users w
          else case new_users of None \<Rightarrow> w | Some us \<Rightarrow> sync_users E us w)))"

record tick =
  tc_node :: "node_info api_result"
  tc_users :: "user_info list api_result"
  tc_accepts :: "user_traffic list \<Rightarrow> bool"

definition controller_tick :: "'tls setting \<Rightarrow> tick \<Rightarrow> 'tls world \<Rightarrow> user_traffic list option \<times> 'tls world" where
  "controller_tick E t w =
     (let w1 = node_info_monitor E (tc_node t) (tc_users t) w
      in case user_info_monitor (cc_disable_upload_traffic (st_cfg E)) (ct_node_tag (wd_controller w1)) (tc_accepts t) (wd_stats w1) of
           (report, s) \<Rightarrow> (report, w1\<lparr>wd_stats := s\<rparr>))"

text \<open>The loop until shutdown: the ticks that came before it, then the removal.\<close>

definition controller_run :: "'tls setting \<Rightarrow> tick list \<Rightarrow> 'tls world \<Rightarrow> 'tls world" where
  "controller_run E ts w =
     (let w1 = foldl (\<lambda>w t. snd (controller_tick E t w)) w ts
      in w1\<lparr>wd_inbounds := manager_remove (ct_node_tag (wd_controller w1)) (wd_inbounds w1)\<rparr>)"

section \<open>What a live handler serves\<close>

text \<open>A handler of the node's variant whose table is the one built from the users.\<close>

definition serving :: "libs \<Rightarrow> node_info \<Rightarrow> string \<Rightarrow> user_info list \<Rightarrow> inbound \<Rightarrow> bool" where
  "serving lb node tg us h = (case h of
     InVless t \<Rightarrow> ni_type node \<in> {V2ray, VmessNode, VlessNode} \<and> is_vless node \<and> t = build_vless_users lb us tg
   | InVmess v \<Rightarrow> ni_type node \<in> {V2ray, VmessNode, VlessNode} \<and> \<not> is_vless node \<and> build_vmess_users lb us tg = Inr (vm_users v)
   | InTrojan t \<Rightarrow> ni_type node = TrojanNode \<and> t = build_trojan_users lb us tg
   | InShadowsocks s \<Rightarrow> ni_type node = ShadowsocksNode \<and>
       ss_users s = build_ss_users (lb_crypto lb) (ss_kind s) (build_ss_user_iter us tg)
   | _ \<Rightarrow> False)"

lemma built_serving:
  "build_inbound_handler lb node us tg = Inr h \<Longrightarrow> serving lb node tg us h"
  by (auto simp: build_inbound_handler_def serving_def rbind_Inr_conv ok_or_Inr shadowsocks_new_def vmess_new_def
      split: if_splits)

lemma applied_serving:
  "serving lb node tg us0 h \<Longrightarrow> apply_users lb h node us tg = Inr h' \<Longrightarrow> serving lb node tg us h'"
  by (cases h) (auto simp: serving_def apply_users_def rbind_Inr_conv vmess_set_users_def ss_set_users_def)

lemma serving_same: "serving lb node tg us h \<Longrightarrow> same_users h h' \<Longrightarrow> serving lb node tg us h'"
  by (cases h; cases h') (simp_all add: serving_def same_users_def)

lemma serving_emails: "serving lb node tg us h \<Longrightarrow> handler_emails h \<subseteq> build_user_tag tg ` set us"
  by (cases h) (auto simp: serving_def table_simps map_err_def intro: table_emails split: sum.splits)

lemma serving_applies:
  assumes "serving lb node tg us0 h" "is_vless node \<or> ni_type node = TrojanNode \<or> ni_type node = ShadowsocksNode"
  shows "\<exists>h'. apply_users lb h node us tg = Inr h'"
  using assms by (cases h) (auto simp: serving_def apply_users_def)

section \<open>The inbounds\<close>

lemma handler_simps [simp]:
  "manager_handler (manager_remove tg m) tg' = (if tg' = tg then None else manager_handler m tg')"
  "manager_handler (put_handler tg h m) tg' =
     (if tg' = tg then map_option (\<lambda>_. h) (manager_handler m tg) else manager_handler m tg')"
  by (auto simp: manager_handler_def manager_remove_def put_handler_def map_option.compositionality comp_def
      split: option.splits)

lemma manager_addE:
  assumes "manager_add S built m = Inr m'"
  obtains adr r where "parse_socket_addr (bi_listen built @ '':'' @ show_nat (unat (bi_port built))) = Some adr"
    "sk_bind_tcp S adr = Inr ()" "manager_handler m (bi_tag built) = None"
    "ib_running m' = (ib_running m)(bi_tag built \<mapsto> r)" "rn_handler r = bi_handler built"
    "rn_token r = tk_next (ib_tokens m)" "AcceptTask adr (bi_stream built) \<in> set (rn_tasks r)"
  using assms
  by (auto simp: manager_add_def manager_contains_def manager_handler_def rbind_Inr_conv ok_or_Inr token_new_def
      Let_def split: if_splits)

lemma manager_add_handler:
  "manager_add S built m = Inr m' \<Longrightarrow>
     manager_handler m' tg = (if tg = bi_tag built then Some (bi_handler built) else manager_handler m tg)"
  by (erule manager_addE) (simp add: manager_handler_def)

lemma build_inboundE:
  assumes "build_inbound lb H node us ip cert = Inr b"
  shows "bi_tag b = build_node_tag node ip" "build_inbound_handler lb node us (bi_tag b) = Inr (bi_handler b)"
    "build_stream H node cert = Inr (bi_stream b)" "unat (bi_port b) = unat (ni_port node)" "bi_port b \<noteq> 0" "bi_listen b = ip"
proof -
  have "unat (ucast (ni_port node) :: u16) = unat (ni_port node)" if "\<not> 65535 < ni_port node"
    using that by (simp add: unsigned_ucast_eq word_less_nat_alt take_bit_nat_eq_self)
  with assms show "bi_tag b = build_node_tag node ip" "build_inbound_handler lb node us (bi_tag b) = Inr (bi_handler b)"
    "build_stream H node cert = Inr (bi_stream b)" "unat (bi_port b) = unat (ni_port node)" "bi_port b \<noteq> 0" "bi_listen b = ip"
    by (auto simp: build_inbound_def rbind_Inr_conv Let_def split: if_splits)
qed

section \<open>The invariant of a node\<close>

definition node_ok :: "'tls setting \<Rightarrow> 'tls world \<Rightarrow> bool" where
  "node_ok E w \<longleftrightarrow> (\<exists>node. ct_node_info (wd_controller w) = Some node \<and>
     ct_node_tag (wd_controller w) = build_node_tag node (cc_listen_ip (st_cfg E)) \<and>
     (\<forall>h. manager_handler (wd_inbounds w) (ct_node_tag (wd_controller w)) = Some h \<longrightarrow>
        serving (st_libs E) node (ct_node_tag (wd_controller w)) (ct_user_list (wd_controller w)) h))"

lemma installed_node_ok:
  assumes b: "controller_build E node us = Inr built" and a: "manager_add S built m = Inr m'"
  shows "node_ok E (w\<lparr>wd_inbounds := m', wd_controller := \<lparr>ct_node_info = Some node, ct_node_tag = bi_tag built, ct_user_list = us\<rparr>\<rparr>)"
proof -
  note built = b [unfolded controller_build_def]
  show ?thesis
    using build_inboundE(1) [OF built] built_serving [OF build_inboundE(2) [OF built]] manager_add_handler [OF a]
    by (simp add: node_ok_def)
qed

lemma start_node_ok:
  assumes "controller_start E na ua w = Inr w'"
  shows "node_ok E w'"
proof -
  from assms obtain node us built m where "controller_build E node us = Inr built"
    "manager_add (st_sockets E) built (wd_inbounds w) = Inr m"
    "w' = w\<lparr>wd_inbounds := m, wd_controller := \<lparr>ct_node_info = Some node, ct_node_tag = bi_tag built, ct_user_list = us\<rparr>\<rparr>"
    by (auto simp: controller_start_def rbind_Inr_conv split: if_splits)
  then show ?thesis by (simp add: installed_node_ok)
qed

lemma node_ok_stats [simp]: "node_ok E (w\<lparr>wd_stats := s\<rparr>) = node_ok E w"
  by (simp add: node_ok_def)

text \<open>A rebuild either installs the new inbound or leaves the old node without one.\<close>

lemma rebuild_cases:
  assumes "ni_port node \<noteq> 0"
  shows "let c = wd_controller w; w' = rebuild_node E node new_users w;
      us = (case new_users of Some us \<Rightarrow> us | None \<Rightarrow> ct_user_list c);
      m = manager_remove (ct_node_tag c) (wd_inbounds w) in
    (wd_controller w' = c \<and> wd_inbounds w' = m) \<or>
    (\<exists>built m'. controller_build E node us = Inr built \<and> manager_add (st_sockets E) built m = Inr m' \<and>
       wd_inbounds w' = m' \<and> wd_controller w' = \<lparr>ct_node_info = Some node, ct_node_tag = bi_tag built, ct_user_list = us\<rparr>)"
  using assms by (simp add: rebuild_node_def Let_def split: sum.splits)

lemma node_ok_cong: "wd_controller w = wd_controller w' \<Longrightarrow> wd_inbounds w = wd_inbounds w' \<Longrightarrow> node_ok E w = node_ok E w'"
  by (simp add: node_ok_def)

lemma node_ok_removed:
  "node_ok E w \<Longrightarrow> wd_controller w' = wd_controller w \<Longrightarrow>
     wd_inbounds w' = manager_remove (ct_node_tag (wd_controller w)) (wd_inbounds w) \<Longrightarrow> node_ok E w'"
  by (auto simp: node_ok_def split: option.splits)

lemma rebuild_node_ok:
  assumes "node_ok E w"
  shows "node_ok E (rebuild_node E node new_users w)"
proof (cases "ni_port node = 0")
  case True
  with assms show ?thesis by (simp add: rebuild_node_def)
next
  case False
  let ?w' = "rebuild_node E node new_users w"
  from rebuild_cases [OF False, of w E new_users] show ?thesis
    unfolding Let_def
  proof (elim disjE conjE exE)
    assume "wd_controller ?w' = wd_controller w"
      "wd_inbounds ?w' = manager_remove (ct_node_tag (wd_controller w)) (wd_inbounds w)"
    with assms show ?thesis by (rule node_ok_removed)
  next
    fix built m'
    let ?us = "case new_users of Some us \<Rightarrow> us | None \<Rightarrow> ct_user_list (wd_controller w)"
    assume b: "controller_build E node ?us = Inr built"
      "manager_add (st_sockets E) built (manager_remove (ct_node_tag (wd_controller w)) (wd_inbounds w)) = Inr m'"
      "wd_inbounds ?w' = m'"
      "wd_controller ?w' = \<lparr>ct_node_info = Some node, ct_node_tag = bi_tag built, ct_user_list = ?us\<rparr>"
    show ?thesis
      using installed_node_ok [OF b(1,2), of ?w']
      by (rule node_ok_cong [THEN iffD1, rotated 2]) (simp_all add: b(3,4))
  qed
qed

lemma sync_users_node_ok:
  assumes "node_ok E w"
  shows "node_ok E (sync_users E us w)"
  using assms
  by (auto simp: sync_users_def node_ok_def Let_def dest: applied_serving split: option.splits sum.splits)

lemma monitor_node_ok: "node_ok E w \<Longrightarrow> node_ok E (node_info_monitor E na ua w)"
  by (auto simp: node_info_monitor_def rebuild_node_ok sync_users_node_ok split: option.splits sum.splits api_error.splits)

lemma tick_node_ok: "node_ok E w \<Longrightarrow> node_ok E (snd (controller_tick E t w))"
  by (simp add: controller_tick_def Let_def monitor_node_ok split: prod.splits)

text \<open>
  What happens to a node's world: ticks of its controller, connections that change what a handler learnt but not
  its users, traffic on the counters, and the other nodes' inbounds, as far as they leave the inbound under
  this node's tag alone. That they do is a condition on the nodes of the process, not a fact of the code:
  the theory Panel proves it for nodes with disjoint tags (\<open>panel_isolates_nodes\<close>) and shows how it fails when
  two nodes come to share a tag (\<open>stale_tag_overwrites\<close>).
\<close>

inductive panel_step :: "'tls setting \<Rightarrow> 'tls world \<Rightarrow> 'tls world \<Rightarrow> bool" for E where
  tick: "panel_step E w (snd (controller_tick E t w))"
| serve: "manager_handler (wd_inbounds w) tg = Some h \<Longrightarrow> same_users h h' \<Longrightarrow>
    panel_step E w (w\<lparr>wd_inbounds := put_handler tg h' (wd_inbounds w)\<rparr>)"
| traffic: "panel_step E w (w\<lparr>wd_stats := s\<rparr>)"
| others: "manager_handler m (ct_node_tag (wd_controller w)) = manager_handler (wd_inbounds w) (ct_node_tag (wd_controller w)) \<Longrightarrow>
    panel_step E w (w\<lparr>wd_inbounds := m\<rparr>)"

lemma panel_step_node_ok: "panel_step E w w' \<Longrightarrow> node_ok E w \<Longrightarrow> node_ok E w'"
proof (induction rule: panel_step.induct)
  case (serve w tg h h')
  then show ?case
    by (auto simp: node_ok_def intro: serving_same split: option.splits)
qed (simp_all add: tick_node_ok, simp add: node_ok_def)

lemma panel_steps_node_ok: "(panel_step E)\<^sup>*\<^sup>* w w' \<Longrightarrow> node_ok E w \<Longrightarrow> node_ok E w'"
  by (induction rule: rtranclp_induct) (auto intro: panel_step_node_ok)

section \<open>Properties of a node\<close>

text \<open>
  C34: Once started, a node keeps its tag and never serves anybody else, as long as no other node of the process
  changes the inbound under its tag: whatever the panel answers on the node's ticks, and whatever connections,
  traffic and such other nodes do between them, the handler that runs under the node's tag is of the node's
  protocol and its table is the one built from the controller's user list, and every user tag it can
  attribute a flow to is one that the traffic report reads back to the uid and email of a user of that list.
\<close>

theorem node_serves_users:
  assumes "controller_start E node_ans users_ans w0 = Inr w1" and "(panel_step E)\<^sup>*\<^sup>* w1 w"
  shows "\<exists>node. ct_node_info (wd_controller w) = Some node \<and>
    ct_node_tag (wd_controller w) = build_node_tag node (cc_listen_ip (st_cfg E)) \<and>
    (\<forall>h. manager_handler (wd_inbounds w) (ct_node_tag (wd_controller w)) = Some h \<longrightarrow>
       serving (st_libs E) node (ct_node_tag (wd_controller w)) (ct_user_list (wd_controller w)) h \<and>
       (\<forall>e \<in> handler_emails h. \<exists>u \<in> set (ct_user_list (wd_controller w)).
          parse_user_tag (ct_node_tag (wd_controller w)) e = Some (ui_uid u, ui_email u)))"
proof -
  have "node_ok E w" using assms start_node_ok panel_steps_node_ok by blast
  then obtain node where "ct_node_info (wd_controller w) = Some node"
    "ct_node_tag (wd_controller w) = build_node_tag node (cc_listen_ip (st_cfg E))"
    "\<And>h. manager_handler (wd_inbounds w) (ct_node_tag (wd_controller w)) = Some h \<Longrightarrow>
       serving (st_libs E) node (ct_node_tag (wd_controller w)) (ct_user_list (wd_controller w)) h"
    by (auto simp: node_ok_def)
  moreover have "\<exists>u \<in> set us. parse_user_tag tg e = Some (ui_uid u, ui_email u)"
    if "serving lb node tg us h" "e \<in> handler_emails h" for lb tg us h e
    using serving_emails [OF that(1)] that(2) parse_build_user_tag by blast
  ultimately show ?thesis by blast
qed

lemma users_same_set:
  assumes "\<not> users_differ old new" "distinct new"
  shows "set old = set new"
proof -
  from assms(1) have "length old = length new" "set new \<subseteq> set old"
    by (auto simp: users_differ_def list_ex_iff split: if_splits)
  moreover have "card (set old) \<le> length old" "card (set new) = length new"
    using assms(2) by (simp_all add: card_length distinct_card)
  ultimately show ?thesis using card_seteq [of "set old" "set new"] by simp
qed

lemma prune_keeps:
  assumes "u \<in> set us"
  shows "stat_users (prune_removed_stats tg old us s) (build_user_tag tg u) = stat_users s (build_user_tag tg u)"
proof -
  let ?step = "\<lambda>s v. if build_user_tag tg v \<in> build_user_tag tg ` set us then s else stats_remove (build_user_tag tg v) s"
  have "stat_users (?step s v) (build_user_tag tg u) = stat_users s (build_user_tag tg u)" for s v
    using imageI [OF assms, of "build_user_tag tg"] by (auto simp: stats_remove_def simp del: imageI)
  then have "stat_users (foldl ?step s old) (build_user_tag tg u) = stat_users s (build_user_tag tg u)" for s
    by (induction old arbitrary: s) simp_all
  then show ?thesis by (simp add: prune_removed_stats_def Let_def)
qed

text \<open>The comparison counts positions, so a user can leave unnoticed when another one is listed twice.\<close>

lemma duplicate_user_unnoticed: "a \<noteq> b \<Longrightarrow> \<not> users_differ [a, b] [a, a] \<and> set [a, b] \<noteq> set [a, a]"
  by (auto simp: users_differ_def)

text \<open>
  A live user change. When a VLESS, trojan or Shadowsocks node is unchanged and its inbound runs, a tick that
  brings a user list without duplicates leaves the same inbound running with exactly those users in the
  table; the tag, the node and the other inbounds are untouched, and the counters of users who stay are
  kept.
\<close>

lemma live_user_sync:
  assumes ok: "controller_start E node_ans users_ans w0 = Inr w1" "(panel_step E)\<^sup>*\<^sup>* w1 w"
    and node: "ct_node_info (wd_controller w) = Some node"
    and h: "manager_handler (wd_inbounds w) (ct_node_tag (wd_controller w)) = Some h"
    and proto: "is_vless node \<or> ni_type node = TrojanNode \<or> ni_type node = ShadowsocksNode"
    and same: "na = Inr node \<or> na = Inl NotModified" and fresh: "distinct us"
  shows "let w' = node_info_monitor E na (Inr us) w; tg = ct_node_tag (wd_controller w) in
    ct_node_info (wd_controller w') = Some node \<and> ct_node_tag (wd_controller w') = tg \<and>
    set (ct_user_list (wd_controller w')) = set us \<and>
    (\<exists>h'. manager_handler (wd_inbounds w') tg = Some h' \<and>
       serving (st_libs E) node tg (ct_user_list (wd_controller w')) h') \<and>
    (\<forall>tg'. tg' \<noteq> tg \<longrightarrow> manager_handler (wd_inbounds w') tg' = manager_handler (wd_inbounds w) tg') \<and>
    (\<forall>u \<in> set us. stat_users (wd_stats w') (build_user_tag tg u) = stat_users (wd_stats w) (build_user_tag tg u))"
proof -
  let ?c = "wd_controller w" and ?w' = "node_info_monitor E na (Inr us) w"
  have sv: "serving (st_libs E) node (ct_node_tag ?c) (ct_user_list ?c) h"
    using start_node_ok [OF ok(1)] panel_steps_node_ok [OF ok(2)] node h by (auto simp: node_ok_def)
  have w': "?w' = sync_users E us w" using same node by (auto simp: node_info_monitor_def)
  show ?thesis
  proof (cases "users_differ (ct_user_list ?c) us")
    case False
    then show ?thesis using users_same_set [OF False fresh] sv h node
      by (simp add: Let_def w' sync_users_def)
  next
    case True
    from serving_applies [OF sv proto] obtain h' where h': "apply_users (st_libs E) h node us (ct_node_tag ?c) = Inr h'" by blast
    show ?thesis using applied_serving [OF sv h'] True h node h'
      by (simp add: Let_def w' sync_users_def prune_keeps)
  qed
qed

text \<open>Ticks on which the panel has nothing new about the node.\<close>

lemma idle_tick:
  assumes "tc_node t = Inl e"
  shows "let w' = snd (controller_tick E t w) in
    ct_node_info (wd_controller w') = ct_node_info (wd_controller w) \<and>
    ct_node_tag (wd_controller w') = ct_node_tag (wd_controller w) \<and>
    (manager_handler (wd_inbounds w) (ct_node_tag (wd_controller w)) = None \<longrightarrow>
       manager_handler (wd_inbounds w') (ct_node_tag (wd_controller w)) = None)"
  using assms
  by (auto simp: controller_tick_def node_info_monitor_def sync_users_def Let_def
      split: prod.splits option.splits sum.splits api_error.splits)

lemma idle_ticks:
  assumes "\<forall>t \<in> set ts. \<exists>e. tc_node t = Inl e"
  shows "let w' = foldl (\<lambda>w t. snd (controller_tick E t w)) w ts in
    ct_node_info (wd_controller w') = ct_node_info (wd_controller w) \<and>
    ct_node_tag (wd_controller w') = ct_node_tag (wd_controller w) \<and>
    (manager_handler (wd_inbounds w) (ct_node_tag (wd_controller w)) = None \<longrightarrow>
       manager_handler (wd_inbounds w') (ct_node_tag (wd_controller w)) = None)"
  using assms
proof (induction ts arbitrary: w)
  case (Cons t ts)
  from Cons.prems obtain e where "tc_node t = Inl e" by auto
  from idle_tick [OF this, of E w] Cons.IH [of "snd (controller_tick E t w)"] Cons.prems show ?case by (simp add: Let_def)
qed (simp add: Let_def)

lemma tick_monitor:
  "wd_controller (snd (controller_tick E t w)) = wd_controller (node_info_monitor E (tc_node t) (tc_users t) w)"
  "wd_inbounds (snd (controller_tick E t w)) = wd_inbounds (node_info_monitor E (tc_node t) (tc_users t) w)"
  by (simp_all add: controller_tick_def Let_def split: prod.splits)

lemma bind_refused:
  assumes "\<forall>adr. \<exists>e. sk_bind_tcp S adr = Inl e"
  shows "manager_add S built m \<noteq> Inr m'"
  using assms by (metis manager_addE sum.distinct(1))

text \<open>A rebuild for which no inbound can be built, or none can be bound, with any users.\<close>

definition rebuild_fails :: "'tls setting \<Rightarrow> node_info \<Rightarrow> bool" where
  "rebuild_fails E node \<longleftrightarrow> (\<forall>us. \<exists>e. controller_build E node us = Inl e) \<or> (\<forall>adr. \<exists>e. sk_bind_tcp (st_sockets E) adr = Inl e)"

lemma rebuild_failed:
  assumes "rebuild_fails E node" "ni_port node \<noteq> 0"
  shows "wd_controller (rebuild_node E node new_users w) = wd_controller w"
    "manager_handler (wd_inbounds (rebuild_node E node new_users w)) (ct_node_tag (wd_controller w)) = None"
proof -
  let ?us = "case new_users of Some us \<Rightarrow> us | None \<Rightarrow> ct_user_list (wd_controller w)"
  have "\<not> (\<exists>built m'. controller_build E node ?us = Inr built \<and>
      manager_add (st_sockets E) built (manager_remove (ct_node_tag (wd_controller w)) (wd_inbounds w)) = Inr m')"
    using assms(1) bind_refused unfolding rebuild_fails_def by (metis sum.distinct(1))
  with rebuild_cases [OF assms(2), of w E new_users]
  show "wd_controller (rebuild_node E node new_users w) = wd_controller w"
    "manager_handler (wd_inbounds (rebuild_node E node new_users w)) (ct_node_tag (wd_controller w)) = None"
    by (auto simp: Let_def)
qed

text \<open>
  A node change that fails takes the node down for good. When a tick brings a changed node for which no
  inbound can be built or bound, the old inbound is removed while the controller keeps the old node as its
  current one; as long as the panel then answers nothing new about the node, no later tick brings an inbound
  back, whatever it answers about the users.
\<close>

lemma failed_rebuild_stays_down:
  assumes new: "tc_node t = Inr node" "Some node \<noteq> ct_node_info (wd_controller w)" "ni_port node \<noteq> 0"
    and us: "tc_users t = Inr us \<or> tc_users t = Inl NotModified" and fails: "rebuild_fails E node"
    and later: "\<forall>t' \<in> set ts. \<exists>e. tc_node t' = Inl e"
  shows "let w' = foldl (\<lambda>w t. snd (controller_tick E t w)) w (t # ts) in
    ct_node_info (wd_controller w') = ct_node_info (wd_controller w) \<and>
    ct_node_tag (wd_controller w') = ct_node_tag (wd_controller w) \<and>
    manager_handler (wd_inbounds w') (ct_node_tag (wd_controller w)) = None"
proof -
  from new us obtain new_users where
    "node_info_monitor E (tc_node t) (tc_users t) w = rebuild_node E node new_users w"
    by (auto simp: node_info_monitor_def)
  then have "wd_controller (snd (controller_tick E t w)) = wd_controller w"
    "manager_handler (wd_inbounds (snd (controller_tick E t w))) (ct_node_tag (wd_controller w)) = None"
    unfolding tick_monitor using rebuild_failed [OF fails new(3)] by simp_all
  with idle_ticks [OF later, of E "snd (controller_tick E t w)"] show ?thesis by (simp add: Let_def)
qed

text \<open>
  A node change is also lost when the user list cannot be fetched on the tick that brings it: nothing is
  changed then, and the panel has already handed out the entity tag of the new node.
\<close>

lemma node_change_forgotten:
  assumes "tc_node t = Inr node" "tc_users t = Inl e" "e \<noteq> NotModified"
    and later: "\<forall>t' \<in> set ts. \<exists>e. tc_node t' = Inl e"
  shows "let w' = foldl (\<lambda>w t. snd (controller_tick E t w)) w (t # ts) in
    ct_node_info (wd_controller w') = ct_node_info (wd_controller w)"
proof -
  have "node_info_monitor E (tc_node t) (tc_users t) w = w"
    using assms(1-3) by (auto simp: node_info_monitor_def split: api_error.splits)
  with idle_ticks [OF later, of E "snd (controller_tick E t w)"] show ?thesis
    by (simp add: Let_def tick_monitor)
qed

section \<open>A node of one user\<close>

definition sample_node :: node_info where
  "sample_node = \<lparr>ni_type = TrojanNode, ni_id = 7, ni_port = 443, ni_speed_limit = 0, ni_alter_id = 0,
     ni_transport = ''tcp'', ni_host = [], ni_path = [], ni_enable_tls = False, ni_enable_vless = False,
     ni_vless_flow = [], ni_cypher_method = [], ni_server_key = [], ni_service_name = [], ni_authority = [],
     ni_header = None, ni_accept_proxy_protocol = False, ni_enable_reality = False\<rparr>"

definition sample_setting :: "unit setting" where
  "sample_setting = \<lparr>
     st_cfg = controller_default\<lparr>cc_listen_ip := ''127.0.0.1''\<rparr>,
     st_libs = \<lparr>lb_crypto = sample_lib, lb_vmess = sample_vmess_lib, lb_sha1 = (\<lambda>_. []), lb_sha224 = (\<lambda>_. []),
                lb_hex = (\<lambda>_. replicate 56 1)\<rparr>,
     st_host = \<lparr>read_file = (\<lambda>_. Inl (IoMsg NotFound [])), tls_from_pem = (\<lambda>_ _ _. Inr ())\<rparr>,
     st_sockets = \<lparr>sk_bind_tcp = (\<lambda>_. Inr ()), sk_bind_udp = (\<lambda>_. Inr ())\<rparr>\<rparr>"

definition sample_world :: "unit world" where
  "sample_world = \<lparr>wd_controller = controller_new, wd_inbounds = manager_new, wd_stats = stats_new\<rparr>"

definition sample_inbound :: inbound where
  "sample_inbound = InTrojan (build_trojan_users (st_libs sample_setting) [sample_info] ''Trojan_127.0.0.1_443'')"

definition sample_running :: "unit world" where
  "sample_running = sample_world\<lparr>
     wd_inbounds := \<lparr>ib_running = [''Trojan_127.0.0.1_443'' \<mapsto> \<lparr>rn_token = 0, rn_handler = sample_inbound,
         rn_tasks = [AcceptTask (V4 0x7f000001, 443) stream_config_raw]\<rparr>],
       ib_tokens = \<lparr>tk_next = 1, tk_cancelled = {}\<rparr>\<rparr>,
     wd_controller := \<lparr>ct_node_info = Some sample_node, ct_node_tag = ''Trojan_127.0.0.1_443'', ct_user_list = [sample_info]\<rparr>\<rparr>"

lemma sample_started:
  "controller_start sample_setting (Inr sample_node) (Inr [sample_info]) sample_world = Inr sample_running"
proof -
  have tg: "build_node_tag sample_node ''127.0.0.1'' = ''Trojan_127.0.0.1_443''"
    and adr: "parse_socket_addr (''127.0.0.1'' @ '':'' @ show_nat 443) = Some (V4 0x7f000001, 443)"
    by code_simp+
  have built: "controller_build sample_setting sample_node [sample_info] =
      Inr \<lparr>bi_tag = ''Trojan_127.0.0.1_443'', bi_listen = ''127.0.0.1'', bi_port = 443, bi_stream = stream_config_raw,
           bi_handler = sample_inbound\<rparr>"
    using tg
    by (simp add: controller_build_def build_inbound_def build_inbound_handler_def build_stream_def build_security_def
        build_transport_def sample_setting_def controller_default_def cert_default_def sample_inbound_def sample_node_def stream_config_raw_def Let_def)
  show ?thesis
    using adr built
    by (simp add: controller_start_def manager_add_def manager_contains_def sample_world_def manager_new_def
        sample_running_def token_new_def binds_udp_def sample_inbound_def Let_def)
       (simp add: sample_setting_def sample_node_def)
qed

lemma sample_handler: "manager_handler (wd_inbounds sample_running) ''Trojan_127.0.0.1_443'' = Some sample_inbound"
  by (simp add: sample_running_def manager_handler_def)

lemma sample_controller:
  "wd_controller sample_running = \<lparr>ct_node_info = Some sample_node, ct_node_tag = ''Trojan_127.0.0.1_443'', ct_user_list = [sample_info]\<rparr>"
  by (simp add: sample_running_def)

theorem node_serves_users_witness:
  "serving (st_libs sample_setting) sample_node ''Trojan_127.0.0.1_443'' [sample_info] sample_inbound \<and>
   handler_emails sample_inbound \<subseteq> {e. parse_user_tag ''Trojan_127.0.0.1_443'' e = Some (7, ''a|b'')}"
proof -
  from node_serves_users [OF sample_started rtranclp.rtrancl_refl]
  have "serving (st_libs sample_setting) sample_node ''Trojan_127.0.0.1_443'' [sample_info] sample_inbound \<and>
    (\<forall>e \<in> handler_emails sample_inbound. \<exists>u \<in> set [sample_info]. parse_user_tag ''Trojan_127.0.0.1_443'' e = Some (ui_uid u, ui_email u))"
    unfolding sample_controller controller.simps option.inject by (metis sample_handler)
  moreover have "ui_uid sample_info = 7" "ui_email sample_info = ''a|b''" by (simp_all add: sample_info_def)
  ultimately show ?thesis by auto
qed

text \<open>The user changes his identifier.\<close>

definition sample_info' :: user_info where
  "sample_info' = sample_info\<lparr>ui_uuid := ''x''\<rparr>"

theorem live_user_sync_witness:
  "let w' = node_info_monitor sample_setting (Inl NotModified) (Inr [sample_info']) sample_running in
     set (ct_user_list (wd_controller w')) = {sample_info'} \<and>
     (\<exists>h. manager_handler (wd_inbounds w') ''Trojan_127.0.0.1_443'' = Some h)"
proof -
  have node: "ct_node_info (wd_controller sample_running) = Some sample_node" by (simp add: sample_controller)
  have h: "manager_handler (wd_inbounds sample_running) (ct_node_tag (wd_controller sample_running)) = Some sample_inbound"
    by (simp add: sample_controller sample_handler)
  have proto: "is_vless sample_node \<or> ni_type sample_node = TrojanNode \<or> ni_type sample_node = ShadowsocksNode"
    by (simp add: sample_node_def)
  have "distinct [sample_info']" by simp
  from live_user_sync [OF sample_started rtranclp.rtrancl_refl node h proto _ this, of "Inl NotModified"] show ?thesis
    by (auto simp: Let_def sample_controller)
qed

definition sample_changed :: node_info where
  "sample_changed = sample_node\<lparr>ni_transport := ''xhttp''\<rparr>"

definition sample_tick :: "node_info api_result \<Rightarrow> user_info list api_result \<Rightarrow> tick" where
  "sample_tick na ua = \<lparr>tc_node = na, tc_users = ua, tc_accepts = (\<lambda>_. True)\<rparr>"

theorem failed_rebuild_stays_down_witness:
  "let w' = foldl (\<lambda>w t. snd (controller_tick sample_setting t w)) sample_running
      [sample_tick (Inr sample_changed) (Inl NotModified), sample_tick (Inl NotModified) (Inr [sample_info'])] in
    ct_node_info (wd_controller w') = Some sample_node \<and>
    manager_handler (wd_inbounds sample_running) ''Trojan_127.0.0.1_443'' = Some sample_inbound \<and>
    manager_handler (wd_inbounds w') ''Trojan_127.0.0.1_443'' = None"
proof -
  have "build_transport sample_changed = Inl XhttpUnsupported"
    by (simp add: build_transport_def sample_changed_def sample_node_def)
  then have "\<forall>us. \<exists>e. controller_build sample_setting sample_changed us = Inl e"
    by (auto simp: controller_build_def build_inbound_def build_stream_def rbind_def Let_def split: sum.splits)
  then have "rebuild_fails sample_setting sample_changed" by (simp add: rebuild_fails_def)
  moreover have "Some sample_changed \<noteq> ct_node_info (wd_controller sample_running)" "ni_port sample_changed \<noteq> 0"
    by (simp_all add: sample_controller sample_changed_def sample_node_def)
  ultimately show ?thesis
    using failed_rebuild_stays_down [of "sample_tick (Inr sample_changed) (Inl NotModified)" sample_changed sample_running _
        sample_setting "[sample_tick (Inl NotModified) (Inr [sample_info'])]"] sample_handler
    by (simp add: Let_def sample_tick_def sample_controller)
qed

end
