(* ===== verification/AppConfig.thy ===== *)
theory AppConfig
  imports Egress NodeController
begin

text \<open>
  app/src/config.rs and app/src/instance.rs: the stand-alone server. Its configuration, as the TOML library yields
  it, is turned into the shared route table and outbound dispatch and one inbound for each entry; the
  instance then serves them. An \<open>anyhow\<close> error is a constructor with the values its message shows.
\<close>

section \<open>Configuration\<close>

record id_user_cfg =
  iu_uuid :: string
  iu_email :: string
  iu_level :: u32

record password_user_cfg =
  pu_password :: string
  pu_email :: string
  pu_level :: u32

record account_user_cfg =
  au_username :: string
  au_password :: string

datatype inbound_protocol_cfg =
    CfgVless "id_user_cfg list"
  | CfgVmess "id_user_cfg list"
  | CfgTrojan "password_user_cfg list"
  | CfgShadowsocks string "password_user_cfg list"
  | CfgSocks "account_user_cfg list"
  | CfgHttp "account_user_cfg list"
  | CfgDokodemo string u16

definition protocol_tag :: "inbound_protocol_cfg \<Rightarrow> string" where
  "protocol_tag p = (case p of
     CfgVless _ \<Rightarrow> ''vless'' | CfgVmess _ \<Rightarrow> ''vmess'' | CfgTrojan _ \<Rightarrow> ''trojan'' | CfgShadowsocks _ _ \<Rightarrow> ''shadowsocks''
   | CfgSocks _ \<Rightarrow> ''socks'' | CfgHttp _ \<Rightarrow> ''http'' | CfgDokodemo _ _ \<Rightarrow> ''dokodemo'')"

record tls_cfg =
  tl_cert :: string
  tl_key :: string
  tl_alpn :: "string list option"

datatype transport_cfg = CfgRaw | CfgWs string "string option" | CfgHttpUpgrade string "string option" | CfgGrpc string

record inbound_cfg =
  in_tag :: "string option"
  in_listen :: string
  in_port :: u16
  in_protocol :: inbound_protocol_cfg
  in_tls :: "tls_cfg option"
  in_transport :: "transport_cfg option"

datatype outbound_protocol_cfg = CfgFreedom | CfgBlackhole

definition outbound_tag :: "outbound_protocol_cfg \<Rightarrow> string" where
  "outbound_tag p = (case p of CfgFreedom \<Rightarrow> ''freedom'' | CfgBlackhole \<Rightarrow> ''blackhole'')"

record outbound_cfg =
  ob_tag :: "string option"
  ob_protocol :: outbound_protocol_cfg

record route_cfg =
  rc_outbound :: string
  rc_domain :: "string list"
  rc_ip :: "string list"
  rc_source :: "string list"
  rc_port :: "string list"
  rc_network :: "string list"
  rc_inbound_tag :: "string list"
  rc_protocol :: "string list"

record app_config =
  ac_log_level :: "string option"
  ac_inbounds :: "inbound_cfg list"
  ac_outbounds :: "outbound_cfg list"
  ac_routes :: "route_cfg list"

section \<open>Routes and outbounds\<close>

datatype app_error =
    ResolverFailed string
  | BadUuid error
  | VmessUsersError error
  | AppMethod string
  | BadIp string
  | BadPort string
  | AppReading string io_error
  | AppTls error
  | AppListen string u16

definition domain_condition :: "string \<Rightarrow> condition option" where
  "domain_condition d =
     (case strip_prefix ''full:'' d of Some x \<Rightarrow> condition_parse (''domain:'' @ x) | None \<Rightarrow>
      case strip_prefix ''suffix:'' d of Some x \<Rightarrow> condition_parse (''domain:'' @ x) | None \<Rightarrow>
      if strip_prefix ''domain:'' d \<noteq> None \<or> strip_prefix ''geosite:'' d \<noteq> None then condition_parse d
      else if strip_prefix ''keyword:'' d \<noteq> None then None
      else condition_parse (''domain:'' @ d))"

fun parse_all :: "('a \<Rightarrow> 'e + 'b) \<Rightarrow> 'a list \<Rightarrow> 'e + 'b list" where
  "parse_all f [] = Inr []"
| "parse_all f (x # xs) = rbind (f x) (\<lambda>y. rbind (parse_all f xs) (\<lambda>ys. Inr (y # ys)))"

definition build_match_rule :: "route_cfg \<Rightarrow> app_error + match_rule option" where
  "build_match_rule r =
     rbind (parse_all (\<lambda>ip. ok_or (condition_parse (''ip:'' @ ip)) (BadIp ip)) (rc_ip r)) (\<lambda>ips.
     rbind (parse_all (\<lambda>p. ok_or (condition_parse (''port:'' @ p)) (BadPort p)) (rc_port r)) (\<lambda>ports.
     let conds = List.map_filter domain_condition (rc_domain r) @ ips @ ports in
     if conds = [] then Inr None else Inr (Some (rule_new conds [rc_outbound r] Random))))"

text \<open>The loop over the outbounds: the items, and the tag of the first freedom outbound.\<close>

fun outbound_items :: "outbound_cfg list \<Rightarrow> (string \<times> outbound) list \<Rightarrow> string option \<Rightarrow> (string \<times> outbound) list \<times> string option" where
  "outbound_items [] items freedom = (items, freedom)"
| "outbound_items (ob # obs) items freedom =
     (let tg = (case ob_tag ob of Some t \<Rightarrow> t | None \<Rightarrow> outbound_tag (ob_protocol ob)) in
      case ob_protocol ob of
        CfgFreedom \<Rightarrow> outbound_items obs (items @ [(tg, outbound.Freedom)]) (if freedom = None then Some tg else freedom)
      | CfgBlackhole \<Rightarrow> outbound_items obs (items @ [(tg, outbound.Blackhole)]) freedom)"

definition build_outbounds :: "outbound_cfg list \<Rightarrow> (string \<times> outbound) list \<times> string option" where
  "build_outbounds obs =
     (case outbound_items obs [] None of (items, freedom) \<Rightarrow>
      let (items, freedom) = (if items = [] then ([(''freedom'', outbound.Freedom)], Some ''freedom'') else (items, freedom))
      in (items, case freedom of Some t \<Rightarrow> Some t | None \<Rightarrow> (case items of (t, _) # _ \<Rightarrow> Some t | [] \<Rightarrow> None)))"

section \<open>Inbounds\<close>

definition id_users :: "libs \<Rightarrow> id_user_cfg list \<Rightarrow> app_error + (uuid \<times> string \<times> u32) list" where
  "id_users lb us = parse_all (\<lambda>u. rbind (map_err BadUuid (uuid_parse_str (lb_sha1 lb) (iu_uuid u)))
     (\<lambda>i. Inr (i, iu_email u, iu_level u))) us"

definition password_users :: "password_user_cfg list \<Rightarrow> (string \<times> string \<times> u32) list" where
  "password_users us = map (\<lambda>u. (pu_password u, pu_email u, pu_level u)) us"

definition app_handler :: "libs \<Rightarrow> inbound_protocol_cfg \<Rightarrow> app_error + inbound" where
  "app_handler lb p = (case p of
     CfgVless us \<Rightarrow> rbind (id_users lb us) (\<lambda>us. Inr (InVless (vless_users_new us)))
   | CfgVmess us \<Rightarrow> rbind (id_users lb us) (\<lambda>us.
       rbind (map_err VmessUsersError (vmess_users_new (lb_vmess lb) us)) (\<lambda>t. Inr (InVmess (vmess_new t))))
   | CfgTrojan us \<Rightarrow> Inr (InTrojan (trojan_users_new (lb_sha224 lb) (lb_hex lb) (password_users us)))
   | CfgShadowsocks method us \<Rightarrow> rbind (ok_or (method_kind method) (AppMethod method)) (\<lambda>kd.
       Inr (InShadowsocks (shadowsocks_new (lb_crypto lb) kd (password_users us))))
   | CfgSocks us \<Rightarrow> Inr (InSocks (map (\<lambda>u. \<lparr>so_username = au_username u, so_password = au_password u\<rparr>) us))
   | CfgHttp us \<Rightarrow> Inr (InHttp (map (\<lambda>u. \<lparr>ha_username = au_username u, ha_password = au_password u\<rparr>) us))
   | CfgDokodemo adr p \<Rightarrow> Inr (InDokodemo \<lparr>dk_address = address_parse adr, dk_port = p\<rparr>))"

definition app_stream :: "'tls host \<Rightarrow> tls_cfg option \<Rightarrow> transport_cfg option \<Rightarrow> app_error + 'tls stream_config" where
  "app_stream H tls transport =
     rbind (case tls of
        None \<Rightarrow> Inr SecNone
      | Some t \<Rightarrow>
          rbind (map_err (AppReading (tl_cert t)) (read_file H (tl_cert t))) (\<lambda>cert.
          rbind (map_err (AppReading (tl_key t)) (read_file H (tl_key t))) (\<lambda>key.
          rbind (map_err AppTls (tls_from_pem H cert key (case tl_alpn t of Some a \<Rightarrow> a | None \<Rightarrow> [''h2'', ''http/1.1'']))) (\<lambda>server.
          Inr (SecTls server))))) (\<lambda>sec.
     Inr \<lparr>sc_security = sec, sc_transport = (case transport of
        None \<Rightarrow> TrRaw | Some CfgRaw \<Rightarrow> TrRaw
      | Some (CfgWs path hst) \<Rightarrow> TrWs \<lparr>ws_path = path, ws_host = hst\<rparr>
      | Some (CfgHttpUpgrade path hst) \<Rightarrow> TrHttpUpgrade \<lparr>hu_path = path, hu_host = hst\<rparr>
      | Some (CfgGrpc service) \<Rightarrow> TrGrpc service)\<rparr>)"

text \<open>An instance: the tree is given by the tag, the stream and the handler, and the shared children.\<close>

record 'tls inbound_instance =
  ii_tag :: string
  ii_listen :: socket_addr
  ii_stream :: "'tls stream_config"
  ii_handler :: inbound

definition app_inbound :: "libs \<Rightarrow> 'tls host \<Rightarrow> inbound_cfg \<Rightarrow> app_error + 'tls inbound_instance" where
  "app_inbound lb H ib =
     (let tg = (case in_tag ib of Some t \<Rightarrow> t | None \<Rightarrow> protocol_tag (in_protocol ib)) in
      rbind (app_handler lb (in_protocol ib)) (\<lambda>handler.
      rbind (app_stream H (in_tls ib) (in_transport ib)) (\<lambda>stream.
      rbind (ok_or (parse_socket_addr (in_listen ib @ '':'' @ show_nat (unat (in_port ib)))) (AppListen (in_listen ib) (in_port ib))) (\<lambda>adr.
      Inr \<lparr>ii_tag = tg, ii_listen = adr, ii_stream = stream, ii_handler = handler\<rparr>))))"

record 'tls app_built =
  ab_inbounds :: "'tls inbound_instance list"
  ab_table :: route_table
  ab_dispatch :: "outbound dispatch"

definition app_build :: "libs \<Rightarrow> 'tls host \<Rightarrow> string + unit \<Rightarrow> app_config \<Rightarrow> app_error + 'tls app_built" where
  "app_build lb H resolver cfg =
     rbind (map_err ResolverFailed resolver) (\<lambda>_.
     case build_outbounds (ac_outbounds cfg) of (items, freedom) \<Rightarrow>
     rbind (parse_all build_match_rule (ac_routes cfg)) (\<lambda>rls.
     rbind (parse_all (app_inbound lb H) (ac_inbounds cfg)) (\<lambda>ibs.
     Inr \<lparr>ab_inbounds = ibs, ab_table = table_new (List.map_filter (\<lambda>r. r) rls) None,
          ab_dispatch = \<lparr>od_outbounds = outbound_list_new items, od_freedom_tag = freedom\<rparr>\<rparr>)))"

section \<open>The instance\<close>

text \<open>
  \<open>serve\<close> up to its endless loop: the tasks of an inbound, or the error of binding its listener. \<open>run\<close> spawns them
  all and waits for them without looking at their results.
\<close>

definition app_serve :: "sockets \<Rightarrow> 'tls inbound_instance \<Rightarrow> io_error + 'tls task list" where
  "app_serve S ib =
     rbind (sk_bind_tcp S (ii_listen ib)) (\<lambda>_.
     Inr ((if binds_udp (ii_handler ib)
           then (case sk_bind_udp S (ii_listen ib) of Inr _ \<Rightarrow> [UdpTask (ii_listen ib)] | Inl _ \<Rightarrow> []) else [])
          @ [AcceptTask (ii_listen ib) (ii_stream ib)]))"

definition instance_run :: "sockets \<Rightarrow> 'tls app_built \<Rightarrow> string + (unit \<times> 'tls task list)" where
  "instance_run S b =
     (if ab_inbounds b = [] then Inl ''no inbounds configured''
      else Inr ((), concat (map (\<lambda>ib. case app_serve S ib of Inr ts \<Rightarrow> ts | Inl _ \<Rightarrow> []) (ab_inbounds b))))"

section \<open>From the configuration to the flow\<close>

text \<open>The configured outbounds in order, and the tag of the default one.\<close>

definition cfg_item :: "outbound_cfg \<Rightarrow> string \<times> outbound" where
  "cfg_item ob = (case ob_tag ob of Some t \<Rightarrow> t | None \<Rightarrow> outbound_tag (ob_protocol ob),
     case ob_protocol ob of CfgFreedom \<Rightarrow> outbound.Freedom | CfgBlackhole \<Rightarrow> outbound.Blackhole)"

definition app_items :: "app_config \<Rightarrow> (string \<times> outbound) list" where
  "app_items cfg = (if ac_outbounds cfg = [] then [(''freedom'', outbound.Freedom)] else map cfg_item (ac_outbounds cfg))"

definition app_default :: "app_config \<Rightarrow> string" where
  "app_default cfg = (case find (\<lambda>(t, ob). ob = outbound.Freedom) (app_items cfg) of
     Some (t, _) \<Rightarrow> t | None \<Rightarrow> fst (hd (app_items cfg)))"

text \<open>The conditions of a route, with those that cannot be parsed left out.\<close>

definition route_conditions :: "route_cfg \<Rightarrow> condition list" where
  "route_conditions r = List.map_filter domain_condition (rc_domain r) @
     List.map_filter (\<lambda>ip. condition_parse (''ip:'' @ ip)) (rc_ip r) @
     List.map_filter (\<lambda>p. condition_parse (''port:'' @ p)) (rc_port r)"

definition route_covers :: "geo_matcher \<Rightarrow> route_query \<Rightarrow> route_cfg \<Rightarrow> bool" where
  "route_covers geo q r \<longleftrightarrow> list_ex (\<lambda>c. condition_matches geo c q) (route_conditions r)"

lemma outbound_items_eq:
  "outbound_items obs items freedom = (items @ map cfg_item obs,
     case freedom of Some t \<Rightarrow> Some t | None \<Rightarrow> map_option fst (find (\<lambda>(t, ob). ob = outbound.Freedom) (map cfg_item obs)))"
  by (induction obs items freedom rule: outbound_items.induct)
     (auto simp: cfg_item_def Let_def split: outbound_protocol_cfg.splits option.splits)

lemma build_outbounds_eq: "build_outbounds (ac_outbounds cfg) = (app_items cfg, Some (app_default cfg))"
  by (cases "ac_outbounds cfg")
     (auto simp: build_outbounds_def outbound_items_eq app_items_def app_default_def Let_def split: option.splits)

lemma parse_all_ok_or:
  "parse_all (\<lambda>x. ok_or (f x) (e x)) xs = Inr ys \<Longrightarrow> ys = List.map_filter f xs"
  by (induction xs arbitrary: ys) (auto simp: rbind_Inr_conv ok_or_Inr List.map_filter_simps)

definition app_rule :: "route_cfg \<Rightarrow> match_rule" where
  "app_rule r = rule_new (route_conditions r) [rc_outbound r] Random"

lemma build_match_rule_Inr:
  "build_match_rule r = Inr o' \<Longrightarrow> o' = (if route_conditions r = [] then None else Some (app_rule r))"
  by (auto simp: build_match_rule_def rbind_Inr_conv Let_def route_conditions_def app_rule_def dest!: parse_all_ok_or)

lemma build_rules_Inr:
  "parse_all build_match_rule rts = Inr rls \<Longrightarrow>
     List.map_filter (\<lambda>r. r) rls = map app_rule (filter (\<lambda>r. route_conditions r \<noteq> []) rts)"
  by (induction rts arbitrary: rls) (auto simp: rbind_Inr_conv List.map_filter_simps dest!: build_match_rule_Inr)

lemma app_buildE:
  assumes "app_build lb H resolver cfg = Inr b"
  shows "ab_table b = table_new (map app_rule (filter (\<lambda>r. route_conditions r \<noteq> []) (ac_routes cfg))) None"
    "ab_dispatch b = \<lparr>od_outbounds = outbound_list_new (app_items cfg), od_freedom_tag = Some (app_default cfg)\<rparr>"
  using assms by (auto simp: app_build_def build_outbounds_eq rbind_Inr_conv dest!: build_rules_Inr)

lemma outbound_build_last: "outbound_build items tg = map_of (rev items) tg"
proof (induction items rule: rev_induct)
  case (snoc it items)
  then show ?case by (cases it) (simp add: outbound_build_def)
qed (simp add: outbound_build_def)

lemma find_app_rule:
  "find (\<lambda>rl. rule_matches geo rl q) (map app_rule (filter (\<lambda>r. route_conditions r \<noteq> []) rts)) =
     map_option app_rule (find (route_covers geo q) rts)"
  by (induction rts) (auto simp: rule_matches_def app_rule_def rule_new_def route_covers_def)

text \<open>The tag the configuration means for a query.\<close>

definition app_tag :: "geo_matcher \<Rightarrow> app_config \<Rightarrow> route_query \<Rightarrow> string" where
  "app_tag geo cfg q = (case find (route_covers geo q) (ac_routes cfg) of Some r \<Rightarrow> rc_outbound r | None \<Rightarrow> app_default cfg)"

lemma app_decides:
  assumes "app_build lb H resolver cfg = Inr b" "table_decides geo (ab_table b) req d"
  shows "resolved (ab_dispatch b) d = map_of (rev (app_items cfg)) (app_tag geo cfg (query_of req))"
  using assms(2) unfolding table_decides_def app_buildE [OF assms(1)]
  by (auto simp: table_new_def find_app_rule app_rule_def rule_new_def app_tag_def resolved_def outbound_list_new_def
      outbound_build_last split: option.splits)

text \<open>
  Three points where the code's meaning is not the one config.example.toml and README.md document: an exact domain
  matches like a suffix, a keyword matches nothing, and a route is covered when one of its dimensions is,
  not when all are. The fourth is \<open>app_default\<close>, the first freedom outbound instead of the first entry.
\<close>

lemma full_is_suffix: "domain_condition (''full:'' @ x) = domain_condition (''suffix:'' @ x)"
  by (simp add: domain_condition_def)

lemma keyword_covers_nothing:
  "(\<forall>d \<in> set (rc_domain r). \<exists>x. d = ''keyword:'' @ x) \<Longrightarrow> rc_ip r = [] \<Longrightarrow> rc_port r = [] \<Longrightarrow> \<not> route_covers geo q r"
proof -
  assume *: "\<forall>d \<in> set (rc_domain r). \<exists>x. d = ''keyword:'' @ x" "rc_ip r = []" "rc_port r = []"
  have "domain_condition (''keyword:'' @ x) = None" for x by (simp add: domain_condition_def)
  then have "List.map_filter domain_condition (rc_domain r) = []"
    using *(1) by (auto simp: List.map_filter_def filter_empty_conv)
  then show ?thesis using *(2,3) by (simp add: route_covers_def route_conditions_def List.map_filter_simps)
qed

lemma one_dimension_covers:
  assumes "p \<in> set (rc_port r)" "condition_parse (''port:'' @ p) = Some c" "condition_matches geo c q"
  shows "route_covers geo q r"
proof -
  have "c \<in> set (List.map_filter (\<lambda>p. condition_parse (''port:'' @ p)) (rc_port r))"
    using assms(1,2) by (force simp: List.map_filter_def image_iff)
  then show ?thesis using assms(3) by (auto simp: route_covers_def route_conditions_def list_ex_iff)
qed

text \<open>
  C36: A flow of the stand-alone server, as the code routes it. When the configuration builds, a decoded flow goes to
  the outbound that the first route covering it names, or to the default outbound when no route covers it:
  the first freedom outbound, else the first one, else an implicit freedom outbound. A route covers a flow
  when one of its domain, address or port conditions matches, where \<open>full:\<close> means a suffix and \<open>keyword:\<close> is
  left out; config.example.toml and README.md say otherwise on these points. The last outbound configured
  under the tag runs, once; when a route names a tag that no outbound has, the flow is dropped without an
  error. The tree is left as it was.
\<close>

theorem app_flow:
  assumes "app_build lb H resolver cfg = Inr b" and "decode c stream = Inr d"
    and "proxy_service_call decode (tree_route geo rnd) (tree_dispatch proc (ab_dispatch b)) c stream (ab_table b, rs) = (r, s')"
  shows "case map_of (rev (app_items cfg)) (app_tag geo cfg (query_of (proxy_route_request d))) of
      Some ob \<Rightarrow> r = proc (ob, pd_ctx d, pd_target d, pd_link d) \<and> s' = (ab_table b, rs @ [(ob, pd_ctx d, pd_target d, pd_link d)])
    | None \<Rightarrow> r = Inr () \<and> s' = (ab_table b, rs)"
proof -
  from kt.flow_served [OF assms(2,3)] obtain dec where
    dec: "table_decides geo (ab_table b) (proxy_route_request d) dec"
    and run: "case resolved (ab_dispatch b) dec of
        Some ob \<Rightarrow> r = proc (ob, pd_ctx d, pd_target d, pd_link d) \<and>
          snd s' = rs @ [(ob, pd_ctx d, pd_target d, pd_link d)]
      | None \<Rightarrow> r = Inr () \<and> snd s' = rs" unfolding fst_conv snd_conv by blast
  have "\<forall>rl \<in> set (rules (ab_table b)). \<exists>t. outs rl = [t]"
    by (auto simp: app_buildE(1) [OF assms(1)] table_new_def app_rule_def rule_new_def)
  from route_rules_single [OF this]
  have "snd (route geo rnd (ab_table b) (query_of (proxy_route_request d))) = ab_table b"
    by (auto simp: route_def split: option.splits prod.splits)
  then have "fst s' = ab_table b" using flow_table [OF assms(2,3)] by simp
  with run app_decides [OF assms(1) dec] show ?thesis by (auto split: option.splits intro: prod_eqI)
qed

text \<open>The default outbound always exists, so that a flow no route covers is never dropped for want of one.\<close>

lemma app_default_exists: "map_of (rev (app_items cfg)) (app_default cfg) \<noteq> None"
proof -
  have "app_items cfg \<noteq> []" by (auto simp: app_items_def)
  then have "app_default cfg \<in> fst ` set (app_items cfg)"
    unfolding app_default_def by (auto split: option.splits prod.splits dest!: find_mem intro: rev_image_eqI)
  then show ?thesis by (simp add: map_of_eq_None_iff)
qed

text \<open>
  A server none of whose listeners can be bound runs all the same, with nothing listening: the results of its tasks
  are not looked at.
\<close>

lemma instance_run_ignores_binding:
  assumes "ab_inbounds b \<noteq> []" "\<forall>adr. \<exists>e. sk_bind_tcp S adr = Inl e"
  shows "instance_run S b = Inr ((), [])"
proof -
  have "(case app_serve S ib of Inr ts \<Rightarrow> ts | Inl _ \<Rightarrow> []) = []" for ib :: "'a inbound_instance"
  proof -
    obtain e where "sk_bind_tcp S (ii_listen ib) = Inl e" using assms(2) by blast
    then show ?thesis by (simp add: app_serve_def)
  qed
  then show ?thesis using assms(1) by (simp add: instance_run_def)
qed

definition sample_app :: app_config where
  "sample_app = \<lparr>ac_log_level = None, ac_inbounds = [],
     ac_outbounds = [\<lparr>ob_tag = Some ''drop'', ob_protocol = CfgBlackhole\<rparr>, \<lparr>ob_tag = None, ob_protocol = CfgFreedom\<rparr>],
     ac_routes = [\<lparr>rc_outbound = ''drop'', rc_domain = [''full:ads.net'', ''keyword:x''], rc_ip = [], rc_source = [],
        rc_port = [''25''], rc_network = [], rc_inbound_tag = [], rc_protocol = []\<rparr>]\<rparr>"

definition sample_built :: "unit app_built" where
  "sample_built = (case app_build (st_libs sample_setting) (st_host sample_setting) (Inr ()) sample_app of
     Inr b \<Rightarrow> b | Inl _ \<Rightarrow> \<lparr>ab_inbounds = [], ab_table = table_new [] None,
       ab_dispatch = \<lparr>od_outbounds = Map.empty, od_freedom_tag = None\<rparr>\<rparr>)"

theorem app_flow_witness:
  "snd (snd (proxy_service_call (sample_flow ''www.ads.net'') (tree_route NoGeo 5)
      (tree_dispatch (\<lambda>_. Inr ()) (ab_dispatch sample_built)) sample_tree_ctx () (ab_table sample_built, []))) =
    [(outbound.Blackhole, sample_tree_ctx, dest_tcp (Domain ''www.ads.net'') 443, NoLink)]"
proof -
  let ?p = "proxy_service_call (sample_flow ''www.ads.net'') (tree_route NoGeo 5)
      (tree_dispatch (\<lambda>_. Inr ()) (ab_dispatch sample_built)) sample_tree_ctx () (ab_table sample_built, [])"
  let ?d = "\<lparr>pd_target = dest_tcp (Domain ''www.ads.net'') 443, pd_ctx = sample_tree_ctx, pd_link = NoLink\<rparr>"
  have "(case parse_all build_match_rule (ac_routes sample_app) of Inl _ \<Rightarrow> False | Inr _ \<Rightarrow> True)" by code_simp
  then obtain rls where "parse_all build_match_rule (ac_routes sample_app) = Inr rls" by (auto split: sum.splits)
  moreover have "ac_inbounds sample_app = []" by (simp add: sample_app_def)
  ultimately have ok: "app_build (st_libs sample_setting) (st_host sample_setting) (Inr ()) sample_app = Inr sample_built"
    by (simp add: sample_built_def app_build_def build_outbounds_eq)
  have d: "sample_flow ''www.ads.net'' sample_tree_ctx () = Inr ?d" by (simp add: sample_flow_def)
  have "map_of (rev (app_items sample_app)) (app_tag NoGeo sample_app (query_of (proxy_route_request ?d))) = Some outbound.Blackhole"
    by code_simp
  with app_flow [of "st_libs sample_setting" "st_host sample_setting" "Inr ()" sample_app sample_built "sample_flow ''www.ads.net''"
      sample_tree_ctx "()" ?d NoGeo 5 "\<lambda>_. Inr ()" "[]" "fst ?p" "snd ?p", OF ok d]
  show ?thesis by simp
qed

end
