(* ===== verification/Sspanel.thy ===== *)
theory Sspanel
  imports NodeController
begin

text \<open>
  saas/src/sspanel/mod.rs with the wire values of saas/src/sspanel/model.rs: the panel's client. The HTTP client, the
  JSON decoder, the regular expressions and floating point are parameters: a request has the result of each
  attempt to send it, a decoder is a function that may fail, and of a floating point number the code uses
  whether it is positive and the bytes per second it stands for. Error messages keep the offending text and
  leave out what a library adds to it.
\<close>

section \<open>Wire values\<close>

record 'f user_response =
  ur_id :: i32
  ur_passwd :: string
  ur_port :: u32
  ur_method :: string
  ur_node_speedlimit :: 'f
  ur_node_iplimit :: i32
  ur_uuid :: string
  ur_alive_ip :: i32

text \<open>The fields of a node response and of its custom configuration that the client reads; \<open>'j\<close> is a JSON value.\<close>

record ('f, 'j) node_response =
  nr_speedlimit :: 'f
  nr_server :: string
  nr_custom_config :: 'j
  nr_version :: string

record 'j custom_config =
  cu_offset_port_node :: string
  cu_host :: string
  cu_method :: string
  cu_server_key :: string
  cu_enable_vless :: string
  cu_network :: string
  cu_security :: string
  cu_path :: string
  cu_header :: 'j
  cu_servicename :: string
  cu_flow :: string
  cu_enable_reality :: bool

record 'f parse_params =
  pp_node_type :: node_type
  pp_node_id :: i32
  pp_enable_vless :: bool
  pp_vless_flow :: string
  pp_speed_limit :: 'f
  pp_device_limit :: i32

record 'f float_ops =
  fl_positive :: "'f \<Rightarrow> bool"
  fl_bytes :: "'f \<Rightarrow> u64"

record ('f, 'j) json_lib =
  js_envelope :: "string \<Rightarrow> string + u64 \<times> 'j"
  js_node :: "'j \<Rightarrow> string + ('f, 'j) node_response"
  js_users :: "'j \<Rightarrow> string + 'f user_response list"
  js_custom :: "'j \<Rightarrow> string + 'j custom_config"
  js_null :: "'j \<Rightarrow> bool"
  js_show :: "'j \<Rightarrow> string"
  js_type :: "string \<Rightarrow> string"

record regexes =
  re_first_port :: "string \<Rightarrow> string option"
  re_second_port :: "string \<Rightarrow> string option"
  re_host :: "string \<Rightarrow> string option"

section \<open>Parsers\<close>

definition speed_limit_bytes :: "'f float_ops \<Rightarrow> 'f \<Rightarrow> 'f \<Rightarrow> u64" where
  "speed_limit_bytes F override panel = fl_bytes F (if fl_positive F override then override else panel)"

text \<open>The cast from \<open>i32\<close> to \<open>u32\<close> keeps the bits.\<close>

definition parse_port_i32 :: "string \<Rightarrow> u32 api_result" where
  "parse_port_i32 s = ok_or (parse_i32 s) (ParseNode (''invalid port '' @ s))"

definition parse_i16 :: "string \<Rightarrow> u16 option" where
  "parse_i16 s = (case s of
     CHR ''-'' # d \<Rightarrow>
       if d = [] \<or> \<not> list_all is_ascii_digit d \<or> 2 ^ 15 < dec_value d then None
       else Some (- word_of_nat (dec_value d))
   | _ \<Rightarrow> map_option word_of_nat (parse_uint (2 ^ 15 - 1) s))"

definition parse_alter_id :: "string \<Rightarrow> u16 api_result" where
  "parse_alter_id s = ok_or (parse_i16 s) (ParseNode (''invalid alterId '' @ s))"

abbreviation split_at :: "char \<Rightarrow> string \<Rightarrow> string list" where
  "split_at c s \<equiv> split_on (\<lambda>x. x = c) s"

text \<open>The loop over the items \<open>key=value\<close> of a server string: the value behind the first equals sign, and the rest rejoined.\<close>

definition fold_items :: "(string \<Rightarrow> string \<Rightarrow> string \<Rightarrow> 's \<Rightarrow> 's) \<Rightarrow> string \<Rightarrow> 's \<Rightarrow> 's" where
  "fold_items f text s0 = foldl (\<lambda>s item.
     let parts = split_at CHR ''='' item; key = hd parts in
     if key = [] then s
     else f key (case tl parts of v # _ \<Rightarrow> v | [] \<Rightarrow> []) (join ''='' (tl parts)) s) s0 (split_at CHR ''|'' text)"

definition parse_v2ray_node_response ::
  "'f float_ops \<Rightarrow> ('f, 'j) json_lib \<Rightarrow> 'f parse_params \<Rightarrow> ('f, 'j) node_response \<Rightarrow> node_info api_result" where
  "parse_v2ray_node_response F J p resp =
     (if nr_server resp = [] then Inl (ParseNode ''no server info in response'')
      else let conf = split_at CHR '';'' (nr_server resp) in
        if length conf < 6 then Inl (ParseNode (''malformed v2ray server string: '' @ nr_server resp))
        else
          rbind (parse_port_i32 (conf ! 1)) (\<lambda>prt.
          rbind (parse_alter_id (conf ! 2)) (\<lambda>alter.
          let (tls, transport) = foldl (\<lambda>(tls, transport) value.
                if value = ''tls'' then (True, transport) else if value = [] then (tls, transport) else (tls, value))
                (False, []) [conf ! 3, conf ! 4];
              (path, host, service, header) = fold_items (\<lambda>key value rest (path, host, service, header).
                if key = ''path'' then (rest, host, service, header)
                else if key = ''host'' then (path, value, service, header)
                else if key = ''servicename'' then (path, host, value, header)
                else if key = ''headerType'' then (path, host, service, value)
                else (path, host, service, header)) (conf ! 5) ([], [], [], [])
          in Inr \<lparr>ni_type = pp_node_type p, ni_id = pp_node_id p, ni_port = prt,
               ni_speed_limit = speed_limit_bytes F (pp_speed_limit p) (nr_speedlimit resp), ni_alter_id = alter,
               ni_transport = transport, ni_host = host, ni_path = path, ni_enable_tls = tls,
               ni_enable_vless = pp_enable_vless p, ni_vless_flow = pp_vless_flow p, ni_cypher_method = [],
               ni_server_key = [], ni_service_name = service, ni_authority = [],
               ni_header = (if header = [] then None else Some (js_type J header)),
               ni_accept_proxy_protocol = False, ni_enable_reality = False\<rparr>)))"

definition parse_ss_node_response ::
  "'f float_ops \<Rightarrow> 'f parse_params \<Rightarrow> ('f, 'j) node_response \<Rightarrow> u32 \<Rightarrow> node_info api_result" where
  "parse_ss_node_response F p resp first_user_port =
     Inr \<lparr>ni_type = pp_node_type p, ni_id = pp_node_id p, ni_port = first_user_port,
          ni_speed_limit = speed_limit_bytes F (pp_speed_limit p) (nr_speedlimit resp), ni_alter_id = 0,
          ni_transport = ''tcp'', ni_host = [], ni_path = [], ni_enable_tls = False, ni_enable_vless = False,
          ni_vless_flow = [], ni_cypher_method = [], ni_server_key = [], ni_service_name = [], ni_authority = [],
          ni_header = None, ni_accept_proxy_protocol = False, ni_enable_reality = False\<rparr>"

definition parse_ss_plugin_node_response ::
  "'f float_ops \<Rightarrow> 'f parse_params \<Rightarrow> ('f, 'j) node_response \<Rightarrow> node_info api_result" where
  "parse_ss_plugin_node_response F p resp =
     (let conf = split_at CHR '';'' (nr_server resp) in
      if length conf < 6 then Inl (ParseNode (''malformed shadowsocks-plugin server string: '' @ nr_server resp))
      else rbind (parse_port_i32 (conf ! 1)) (\<lambda>node_port.
        let prt = node_port - 1 in
        if prt = 0 then Inl (ParseNode ''Shadowsocks-Plugin listen port must bigger than 1'')
        else
          let (tls, transport) = foldl (\<lambda>(tls, transport) value.
                if value = ''tls'' then (True, transport) else if value = ''ws'' then (tls, ''ws'')
                else if value = ''obfs'' then (tls, ''tcp'') else (tls, transport)) (False, []) [conf ! 3, conf ! 4];
              (path, host) = fold_items (\<lambda>key value rest (path, host).
                if key = ''path'' then (rest, host) else if key = ''host'' then (path, value) else (path, host))
                (conf ! 5) ([], [])
          in Inr \<lparr>ni_type = pp_node_type p, ni_id = pp_node_id p, ni_port = prt,
               ni_speed_limit = speed_limit_bytes F (pp_speed_limit p) (nr_speedlimit resp), ni_alter_id = 0,
               ni_transport = transport, ni_host = host, ni_path = path, ni_enable_tls = tls, ni_enable_vless = False,
               ni_vless_flow = [], ni_cypher_method = [], ni_server_key = [], ni_service_name = [], ni_authority = [],
               ni_header = None, ni_accept_proxy_protocol = False, ni_enable_reality = False\<rparr>))"

definition capture :: "(string \<Rightarrow> string option) \<Rightarrow> string \<Rightarrow> string" where
  "capture re text = (case re text of Some m \<Rightarrow> m | None \<Rightarrow> [])"

definition parse_trojan_node_response ::
  "'f float_ops \<Rightarrow> regexes \<Rightarrow> 'f parse_params \<Rightarrow> ('f, 'j) node_response \<Rightarrow> node_info api_result" where
  "parse_trojan_node_response F X p resp =
     (if nr_server resp = [] then Inl (ParseNode ''no server info in response'')
      else
        let outside = capture (re_first_port X) (nr_server resp);
            inside = capture (re_second_port X) (nr_server resp);
            host = capture (re_host X) (nr_server resp)
        in rbind (parse_port_i32 (if inside \<noteq> [] then inside else outside)) (\<lambda>prt.
          let extra = (case tl (split_at CHR '';'' (nr_server resp)) of x # _ \<Rightarrow> x | [] \<Rightarrow> []);
              (transport, service) = fold_items (\<lambda>key value rest (transport, service).
                if key = ''grpc'' then (''grpc'', service) else if key = ''servicename'' then (transport, value)
                else (transport, service)) extra (''tcp'', [])
          in Inr \<lparr>ni_type = pp_node_type p, ni_id = pp_node_id p, ni_port = prt,
               ni_speed_limit = speed_limit_bytes F (pp_speed_limit p) (nr_speedlimit resp), ni_alter_id = 0,
               ni_transport = transport, ni_host = host, ni_path = [], ni_enable_tls = True, ni_enable_vless = False,
               ni_vless_flow = [], ni_cypher_method = [], ni_server_key = [], ni_service_name = service, ni_authority = [],
               ni_header = None, ni_accept_proxy_protocol = False, ni_enable_reality = False\<rparr>))"

text \<open>Signed comparison and subtraction of the limits, at their width.\<close>

fun parse_user_list_response :: "'f float_ops \<Rightarrow> 'f parse_params \<Rightarrow> 'f user_response list \<Rightarrow> user_info list" where
  "parse_user_list_response F p [] = []"
| "parse_user_list_response F p (user # us) =
     (let limit = (if 0 < sint (pp_device_limit p) then pp_device_limit p else ur_node_iplimit user);
          info = (\<lambda>lim. \<lparr>ui_uid = ur_id user, ui_email = [], ui_uuid = ur_uuid user, ui_passwd = ur_passwd user,
             ui_port = ur_port user, ui_alter_id = 0, ui_method = ur_method user,
             ui_speed_limit = speed_limit_bytes F (pp_speed_limit p) (ur_node_speedlimit user), ui_device_limit = lim\<rparr>)
      in if 0 < sint limit \<and> 0 < sint (ur_alive_ip user) then
           (if 0 < sint (limit - ur_alive_ip user)
            then info (limit - ur_alive_ip user) # parse_user_list_response F p us
            else parse_user_list_response F p us)
         else info limit # parse_user_list_response F p us)"

definition parse_sspanel_node_info ::
  "'f float_ops \<Rightarrow> ('f, 'j) json_lib \<Rightarrow> 'f parse_params \<Rightarrow> ('f, 'j) node_response \<Rightarrow> node_info api_result" where
  "parse_sspanel_node_info F J p resp =
     (if js_null J (nr_custom_config resp) then Inl (ParseNode ''custom_config is empty, disable custom config'')
      else rbind (map_err (\<lambda>e. ParseNode (''custom_config format error: '' @ e)) (js_custom J (nr_custom_config resp))) (\<lambda>cfg.
           rbind (parse_port_i32 (cu_offset_port_node cfg)) (\<lambda>prt.
           let (tls, vless, transport) =
             (if pp_node_type p = ShadowsocksNode then (False, False, ''tcp'')
              else if pp_node_type p = V2ray then
                (cu_security cfg = ''tls'' \<or> cu_security cfg = ''xtls'', cu_enable_vless cfg = ''1'', cu_network cfg)
              else if pp_node_type p = TrojanNode then
                (True, False, if cu_network cfg \<noteq> [] then cu_network cfg else ''tcp'')
              else (False, False, []))
           in Inr \<lparr>ni_type = pp_node_type p, ni_id = pp_node_id p, ni_port = prt,
                ni_speed_limit = speed_limit_bytes F (pp_speed_limit p) (nr_speedlimit resp), ni_alter_id = 0,
                ni_transport = transport, ni_host = cu_host cfg, ni_path = cu_path cfg, ni_enable_tls = tls,
                ni_enable_vless = vless, ni_vless_flow = cu_flow cfg, ni_cypher_method = cu_method cfg,
                ni_server_key = cu_server_key cfg, ni_service_name = cu_servicename cfg, ni_authority = [],
                ni_header = (if js_null J (cu_header cfg) then None else Some (js_show J (cu_header cfg))),
                ni_accept_proxy_protocol = False, ni_enable_reality = cu_enable_reality cfg\<rparr>)))"

section \<open>Versions\<close>

text \<open>
  \<open>compare_version\<close>: the number of a segment, at the width of \<open>i64\<close>, up to the next dot, which is skipped, and the
  loop while one of the texts has characters left.
\<close>

fun version_segment :: "64 word \<Rightarrow> string \<Rightarrow> 64 word \<times> string" where
  "version_segment x [] = (x, [])"
| "version_segment x (c # cs) =
     (if c = CHR ''.'' then (x, cs) else version_segment (x * 10 + (of_nat (code_of c) - 48)) cs)"

lemma version_segment_length: "length (snd (version_segment x s)) \<le> length s - 1"
  by (induction x s rule: version_segment.induct) (auto simp: le_diff_conv)

function compare_version :: "string \<Rightarrow> string \<Rightarrow> int" where
  "compare_version v1 v2 =
     (if v1 = [] \<and> v2 = [] then 0
      else case version_segment 0 v1 of (x, r1) \<Rightarrow> case version_segment 0 v2 of (y, r2) \<Rightarrow>
        if sint y < sint x then 1 else if sint x < sint y then - 1 else compare_version r1 r2)"
  by pat_completeness auto

lemma version_rests_shorter:
  assumes "\<not> (v1 = [] \<and> v2 = [])"
  shows "length (snd (version_segment x v1)) + length (snd (version_segment y v2)) < length v1 + length v2"
proof -
  have "0 < length v1 \<or> 0 < length v2" using assms by auto
  with version_segment_length [of x v1] version_segment_length [of y v2] show ?thesis by arith
qed

termination compare_version
proof (relation "measure (\<lambda>(v1, v2). length v1 + length v2)", goal_cases)
  case (2 v1 v2 x r1 y r2)
  then show ?case using version_rests_shorter [of v1 v2 0 0] by (metis in_measure case_prod_conv snd_conv)
qed simp

declare compare_version.simps [simp del]

section \<open>The client\<close>

record http_response =
  ht_status :: u16
  ht_etag :: "string option"
  ht_body :: string

datatype http_method = MethodGet | MethodPost

record http_request =
  hq_method :: http_method
  hq_path :: string
  hq_if_none_match :: "string option"
  hq_node_id :: bool

record 'f client =
  cl_params :: "'f parse_params"
  cl_disable_custom_config :: bool
  cl_etags :: "string \<rightharpoonup> string"
  cl_version :: string

text \<open>
  A panel: what each attempt to send a request meets, a transport failure or a response. A request that can
  be cloned is tried twice and then sent for good; one that cannot is sent once.
\<close>

type_synonym panel = "http_request \<Rightarrow> nat \<Rightarrow> string + http_response"

definition send_with_retry :: "bool \<Rightarrow> (nat \<Rightarrow> string + http_response) \<Rightarrow> string \<Rightarrow> http_response api_result" where
  "send_with_retry cloneable attempt path =
     (if cloneable then
        (case attempt 0 of Inr r \<Rightarrow> Inr r | Inl _ \<Rightarrow>
        (case attempt 1 of Inr r \<Rightarrow> Inr r | Inl _ \<Rightarrow> map_err (RequestFailed path) (attempt 2)))
      else map_err (RequestFailed path) (attempt 0))"

definition get_etag :: "'f client \<Rightarrow> string \<Rightarrow> string" where
  "get_etag cl key = (case cl_etags cl key of Some v \<Rightarrow> v | None \<Rightarrow> [])"

definition set_etag :: "string \<Rightarrow> string \<Rightarrow> 'f client \<Rightarrow> bool \<times> 'f client" where
  "set_etag key value cl =
     (if value = [] then (False, cl)
      else if cl_etags cl key = Some value then (False, cl)
      else (True, cl\<lparr>cl_etags := (cl_etags cl)(key \<mapsto> value)\<rparr>))"

definition parse_response :: "('f, 'j) json_lib \<Rightarrow> string \<Rightarrow> http_response \<Rightarrow> 'j api_result" where
  "parse_response J path resp =
     (if 400 < ht_status resp then Inl (StatusFailed path (ht_status resp) (ht_body resp))
      else rbind (map_err (DecodeFailed ''response envelope'') (js_envelope J (ht_body resp))) (\<lambda>(ret, data).
           if ret \<noteq> 1 then Inl (RetFailed ret) else Inr data))"

definition get_json ::
  "('f, 'j) json_lib \<Rightarrow> panel \<Rightarrow> string \<Rightarrow> string \<Rightarrow> bool \<Rightarrow> 'f client \<Rightarrow> 'j api_result \<times> 'f client" where
  "get_json J P path key node_id_query cl =
     (let req = \<lparr>hq_method = MethodGet, hq_path = path, hq_if_none_match = Some (get_etag cl key), hq_node_id = node_id_query\<rparr>
      in case send_with_retry True (P req) path of
           Inl e \<Rightarrow> (Inl e, cl)
         | Inr resp \<Rightarrow>
             if ht_status resp = 304 then (Inl NotModified, cl)
             else let v = (case ht_etag resp of Some v \<Rightarrow> v | None \<Rightarrow> [])
                  in (parse_response J path resp, snd (set_etag key v cl)))"

definition post_json :: "('f, 'j) json_lib \<Rightarrow> panel \<Rightarrow> string \<Rightarrow> bool \<Rightarrow> unit api_result" where
  "post_json J P path node_id_query =
     (let req = \<lparr>hq_method = MethodPost, hq_path = path, hq_if_none_match = None, hq_node_id = node_id_query\<rparr>
      in rbind (send_with_retry True (P req) path) (\<lambda>resp.
         rbind (parse_response J path resp) (\<lambda>_. Inr ())))"

definition fetch_first_user_port :: "('f, 'j) json_lib \<Rightarrow> panel \<Rightarrow> u32 api_result" where
  "fetch_first_user_port J P =
     (let path = ''/mod_mu/users'';
          req = \<lparr>hq_method = MethodGet, hq_path = path, hq_if_none_match = None, hq_node_id = True\<rparr>
      in rbind (send_with_retry True (P req) path) (\<lambda>resp.
         rbind (parse_response J path resp) (\<lambda>data.
         rbind (map_err (DecodeFailed ''user list'') (js_users J data)) (\<lambda>us.
         Inr (case us of u # _ \<Rightarrow> ur_port u | [] \<Rightarrow> 0)))))"

definition node_path :: "i32 \<Rightarrow> string" where
  "node_path i = ''/mod_mu/nodes/'' @ show_i32 i @ ''/info''"

definition parse_node ::
  "'f float_ops \<Rightarrow> ('f, 'j) json_lib \<Rightarrow> regexes \<Rightarrow> panel \<Rightarrow> 'f client \<Rightarrow> ('f, 'j) node_response \<Rightarrow> node_info api_result" where
  "parse_node F J X P cl resp =
     (let p = cl_params cl in
      if cl_disable_custom_config cl \<or> compare_version (nr_version resp) ''2021.11'' = - 1 then
        (case pp_node_type p of
           V2ray \<Rightarrow> parse_v2ray_node_response F J p resp
         | TrojanNode \<Rightarrow> parse_trojan_node_response F X p resp
         | ShadowsocksNode \<Rightarrow> rbind (fetch_first_user_port J P) (parse_ss_node_response F p resp)
         | ShadowsocksPlugin \<Rightarrow> parse_ss_plugin_node_response F p resp
         | other \<Rightarrow> Inl (ParseNode (''unsupported node type: '' @ node_type_as_str other)))
      else parse_sspanel_node_info F J p resp)"

definition get_node_info ::
  "'f float_ops \<Rightarrow> ('f, 'j) json_lib \<Rightarrow> regexes \<Rightarrow> panel \<Rightarrow> 'f client \<Rightarrow> node_info api_result \<times> 'f client" where
  "get_node_info F J X P cl =
     (case get_json J P (node_path (pp_node_id (cl_params cl))) ''node'' False cl of
        (Inl e, cl1) \<Rightarrow> (Inl e, cl1)
      | (Inr data, cl1) \<Rightarrow>
          (case js_node J data of
             Inl e \<Rightarrow> (Inl (DecodeFailed ''node info'' e), cl1)
           | Inr resp \<Rightarrow> let cl2 = cl1\<lparr>cl_version := nr_version resp\<rparr> in (parse_node F J X P cl2 resp, cl2)))"

definition get_user_list ::
  "'f float_ops \<Rightarrow> ('f, 'j) json_lib \<Rightarrow> panel \<Rightarrow> 'f client \<Rightarrow> user_info list api_result \<times> 'f client" where
  "get_user_list F J P cl =
     (case get_json J P ''/mod_mu/users'' ''users'' True cl of
        (Inl e, cl1) \<Rightarrow> (Inl e, cl1)
      | (Inr data, cl1) \<Rightarrow>
          (case js_users J data of
             Inl e \<Rightarrow> (Inl (DecodeFailed ''user list'' e), cl1)
           | Inr us \<Rightarrow> (Inr (parse_user_list_response F (cl_params cl1) us), cl1)))"

text \<open>Whether \<open>report_node_status\<close> talks to the panel, and the entries of a traffic report.\<close>

definition report_node_status :: "('f, 'j) json_lib \<Rightarrow> panel \<Rightarrow> 'f client \<Rightarrow> unit api_result" where
  "report_node_status J P cl =
     (if compare_version (cl_version cl) ''2023.2'' = - 1
      then post_json J P (node_path (pp_node_id (cl_params cl))) False else Inr ())"

definition traffic_wire :: "user_traffic list \<Rightarrow> (i32 \<times> int \<times> int) list" where
  "traffic_wire ts = map (\<lambda>t. (ut_uid t, upload t, download t)) ts"

text \<open>
  The panel's side of a tick: the node is asked for first, and the users only when that was not refused. The
  users' answer of a tick that does not ask is not looked at by the monitor.
\<close>

definition client_tick ::
  "'f float_ops \<Rightarrow> ('f, 'j) json_lib \<Rightarrow> regexes \<Rightarrow> panel \<Rightarrow> (user_traffic list \<Rightarrow> bool) \<Rightarrow> 'f client \<Rightarrow> tick \<times> 'f client" where
  "client_tick F J X P accepts cl =
     (case get_node_info F J X P cl of (na, cl1) \<Rightarrow>
        if (case na of Inr _ \<Rightarrow> True | Inl e \<Rightarrow> e = NotModified)
        then (case get_user_list F J P cl1 of (ua, cl2) \<Rightarrow> (\<lparr>tc_node = na, tc_users = ua, tc_accepts = accepts\<rparr>, cl2))
        else (\<lparr>tc_node = na, tc_users = rbind na (\<lambda>_. Inr []), tc_accepts = accepts\<rparr>, cl1))"

section \<open>Entity tags\<close>

text \<open>
  What the code relies on of a panel whose node has the entity tag \<open>v\<close>: a response with content carries the tag,
  and a request that names the tag is answered with the status 304.
\<close>

definition tagged :: "panel \<Rightarrow> string \<Rightarrow> string \<Rightarrow> bool" where
  "tagged P path v \<longleftrightarrow> v \<noteq> [] \<and> (\<forall>req k r. P req k = Inr r \<longrightarrow> hq_path req = path \<longrightarrow>
     (ht_status r \<noteq> 304 \<longrightarrow> ht_etag r = Some v) \<and> (hq_if_none_match req = Some v \<longrightarrow> ht_status r = 304))"

lemma send_with_retry_Inr: "send_with_retry c f path = Inr r \<Longrightarrow> \<exists>k. f k = Inr r"
  by (auto simp: send_with_retry_def split: if_splits sum.splits)

lemma set_etag_simps:
  "cl_params (snd (set_etag key v cl)) = cl_params cl"
  "cl_etags (snd (set_etag key v cl)) key' = (if key' = key \<and> v \<noteq> [] then Some v else cl_etags cl key')"
  by (auto simp: set_etag_def)

lemma get_json_frame:
  assumes "get_json J P path key q cl = (r, cl')"
  shows "cl_params cl' = cl_params cl" "key' \<noteq> key \<Longrightarrow> get_etag cl' key' = get_etag cl key'"
  using assms by (auto simp: get_json_def get_etag_def set_etag_simps Let_def split: sum.splits if_splits)

lemma get_json_learns:
  assumes "get_json J P path key q cl = (Inr data, cl')" "tagged P path v"
  shows "get_etag cl' key = v"
proof -
  let ?req = "\<lparr>hq_method = MethodGet, hq_path = path, hq_if_none_match = Some (get_etag cl key), hq_node_id = q\<rparr>"
  from assms(1) obtain resp where resp: "send_with_retry True (P ?req) path = Inr resp" "ht_status resp \<noteq> 304"
    "cl' = snd (set_etag key (case ht_etag resp of Some v \<Rightarrow> v | None \<Rightarrow> []) cl)"
    by (auto simp: get_json_def Let_def split: sum.splits if_splits)
  then have "ht_etag resp = Some v" "v \<noteq> []"
    using assms(2) send_with_retry_Inr [OF resp(1)] by (auto simp: tagged_def)
  then show ?thesis by (simp add: resp(3) get_etag_def set_etag_simps)
qed

lemma get_json_known:
  assumes "get_etag cl key = v" "tagged P path v" "get_json J P path key q cl = (r, cl')"
  shows "cl' = cl \<and> (\<exists>e. r = Inl e)"
proof -
  let ?req = "\<lparr>hq_method = MethodGet, hq_path = path, hq_if_none_match = Some (get_etag cl key), hq_node_id = q\<rparr>"
  have "ht_status resp = 304" if "send_with_retry True (P ?req) path = Inr resp" for resp
    using send_with_retry_Inr [OF that] assms(1,2) by (auto simp: tagged_def)
  then show ?thesis using assms(3) by (auto simp: get_json_def Let_def split: sum.splits)
qed

lemma get_node_info_learns:
  assumes "get_node_info F J X P cl = (Inr node, cl')" "tagged P (node_path (pp_node_id (cl_params cl))) v"
  shows "get_etag cl' ''node'' = v" "cl_params cl' = cl_params cl"
proof -
  obtain r cl1 where g: "get_json J P (node_path (pp_node_id (cl_params cl))) ''node'' False cl = (r, cl1)" by fastforce
  with assms(1) have "\<exists>data ver. r = Inr data \<and> cl' = cl1\<lparr>cl_version := ver\<rparr>"
    by (auto simp: get_node_info_def Let_def split: sum.splits)
  then obtain data ver where "r = Inr data" "cl' = cl1\<lparr>cl_version := ver\<rparr>" by blast
  with get_json_learns [OF _ assms(2), of J "''node''" False cl data cl1] get_json_frame(1) [OF g] g
  show "get_etag cl' ''node'' = v" "cl_params cl' = cl_params cl" by (simp_all add: get_etag_def)
qed

lemma get_node_info_known:
  assumes "get_etag cl ''node'' = v" "tagged P (node_path (pp_node_id (cl_params cl))) v"
  shows "\<exists>e. get_node_info F J X P cl = (Inl e, cl)"
proof -
  obtain r cl1 where g: "get_json J P (node_path (pp_node_id (cl_params cl))) ''node'' False cl = (r, cl1)" by fastforce
  from get_json_known [OF assms g] show ?thesis by (auto simp: get_node_info_def g)
qed

lemma get_user_list_frame:
  assumes "get_user_list F J P cl = (r, cl')"
  shows "cl_params cl' = cl_params cl" "get_etag cl' ''node'' = get_etag cl ''node''"
proof -
  obtain r1 cl1 where g: "get_json J P ''/mod_mu/users'' ''users'' True cl = (r1, cl1)" by fastforce
  then have "cl' = cl1" using assms by (auto simp: get_user_list_def split: sum.splits)
  with get_json_frame(1) [OF g] get_json_frame(2) [OF g, of "''node''"]
  show "cl_params cl' = cl_params cl" "get_etag cl' ''node'' = get_etag cl ''node''" by simp_all
qed

lemma client_tick_known:
  assumes "get_etag cl ''node'' = v" "tagged P (node_path (pp_node_id (cl_params cl))) v" "client_tick F J X P acc cl = (t, cl')"
  shows "(\<exists>e. tc_node t = Inl e) \<and> get_etag cl' ''node'' = v \<and> cl_params cl' = cl_params cl"
proof -
  from get_node_info_known [OF assms(1,2)] obtain e where "get_node_info F J X P cl = (Inl e, cl)" by blast
  with assms(1,3) get_user_list_frame [of F J P cl] show ?thesis
    by (auto simp: client_tick_def split: if_splits prod.splits)
qed

text \<open>One tick for each panel of a list, as the panel is at that time.\<close>

fun client_ticks ::
  "'f float_ops \<Rightarrow> ('f, 'j) json_lib \<Rightarrow> regexes \<Rightarrow> (user_traffic list \<Rightarrow> bool) \<Rightarrow> panel list \<Rightarrow> 'f client \<Rightarrow> tick list" where
  "client_ticks F J X acc [] cl = []"
| "client_ticks F J X acc (P # Ps) cl = (case client_tick F J X P acc cl of (t, cl') \<Rightarrow> t # client_ticks F J X acc Ps cl')"

lemma client_ticks_known:
  assumes "get_etag cl ''node'' = v" "\<forall>P \<in> set Ps. tagged P (node_path (pp_node_id (cl_params cl))) v"
  shows "\<forall>t \<in> set (client_ticks F J X acc Ps cl). \<exists>e. tc_node t = Inl e"
  using assms
proof (induction Ps arbitrary: cl)
  case (Cons P Ps)
  obtain t cl' where t: "client_tick F J X P acc cl = (t, cl')" by fastforce
  from client_tick_known [OF Cons.prems(1) _ t] Cons.prems have k: "(\<exists>e. tc_node t = Inl e) \<and> get_etag cl' ''node'' = v"
    "cl_params cl' = cl_params cl" by auto
  with Cons.IH [of cl'] Cons.prems t show ?case by auto
qed simp

lemma client_tick_learns:
  assumes "client_tick F J X P acc cl = (t, cl')" "tc_node t = Inr node" "tagged P (node_path (pp_node_id (cl_params cl))) v"
  shows "get_etag cl' ''node'' = v \<and> cl_params cl' = cl_params cl"
proof -
  obtain na cl1 where na: "get_node_info F J X P cl = (na, cl1)" by fastforce
  with assms(1,2) have "na = Inr node" by (auto simp: client_tick_def split: if_splits prod.splits)
  with na get_node_info_learns [OF _ assms(3)] have "get_etag cl1 ''node'' = v" "cl_params cl1 = cl_params cl" by auto
  with na \<open>na = Inr node\<close> assms(1) get_user_list_frame [of F J P cl1] show ?thesis
    by (auto simp: client_tick_def split: prod.splits)
qed

text \<open>
  C39: A failed node change is an outage. A controller polls a panel whose node keeps its entity tag; the first
  poll brings a node other than the controller's for which no inbound can be built or bound. From that tick on
  the node serves nobody, on every later tick, whatever else the panel answers or fails to answer: the
  client has learnt the tag with the first answer, so that the panel never sends the node again.
\<close>

theorem outage_until_panel_changes:
  assumes first: "client_tick F J X P acc cl = (t, cl1)" "tc_node t = Inr node"
    and users: "tc_users t = Inr us \<or> tc_users t = Inl NotModified"
    and changed: "Some node \<noteq> ct_node_info (wd_controller w)" "ni_port node \<noteq> 0" and fails: "rebuild_fails E node"
    and tag: "\<forall>P' \<in> set (P # Ps). tagged P' (node_path (pp_node_id (cl_params cl))) v"
  shows "let w' = foldl (\<lambda>w t. snd (controller_tick E t w)) w (client_ticks F J X acc (P # Ps) cl) in
    ct_node_info (wd_controller w') = ct_node_info (wd_controller w) \<and>
    manager_handler (wd_inbounds w') (ct_node_tag (wd_controller w)) = None"
proof -
  from client_tick_learns [OF first] tag have "get_etag cl1 ''node'' = v" "cl_params cl1 = cl_params cl" by auto
  with client_ticks_known [of cl1 v Ps F J X acc] tag
  have "\<forall>t' \<in> set (client_ticks F J X acc Ps cl1). \<exists>e. tc_node t' = Inl e" by simp
  from failed_rebuild_stays_down [OF first(2) changed users fails this] first(1) show ?thesis by (simp add: Let_def)
qed

section \<open>Version order\<close>

text \<open>The numbers of a version, of which all but finitely many are zero.\<close>

definition version_number :: "string \<Rightarrow> nat \<Rightarrow> nat" where
  "version_number v i = (let segs = split_at CHR ''.'' v in if i < length segs then dec_value (segs ! i) else 0)"

definition wf_version :: "string \<Rightarrow> bool" where
  "wf_version v \<longleftrightarrow> (\<forall>s \<in> set (split_at CHR ''.'' v). list_all is_ascii_digit s \<and> dec_value s < 2 ^ 63)"

definition version_less :: "string \<Rightarrow> string \<Rightarrow> bool" where
  "version_less v1 v2 \<longleftrightarrow> (\<exists>i. (\<forall>j < i. version_number v1 j = version_number v2 j) \<and> version_number v1 i < version_number v2 i)"

lemma segment_digits:
  "list_all is_ascii_digit s \<Longrightarrow>
     version_segment (of_nat a) (s @ r) = version_segment (of_nat (foldl (\<lambda>a c. a * 10 + digit_val c) a s)) r"
proof (induction s arbitrary: a)
  case (Cons c s)
  then have c: "48 \<le> code_of c" "c \<noteq> CHR ''.''" by (auto simp: is_ascii_digit_def)
  then have "(of_nat a * 10 + (of_nat (code_of c) - 48) :: 64 word) = of_nat (a * 10 + digit_val c)"
    by (simp add: digit_val_def of_nat_diff)
  then have "version_segment (of_nat a) ((c # s) @ r) = version_segment (of_nat (a * 10 + digit_val c)) (s @ r)"
    using c(2) by (simp only: append_Cons version_segment.simps if_False)
  with Cons.IH [of "a * 10 + digit_val c"] Cons.prems show ?case by simp
qed simp

text \<open>The first number of a version and the rest.\<close>

lemma version_head:
  assumes "wf_version v"
  shows "\<exists>rest. version_segment 0 v = (of_nat (version_number v 0), rest) \<and> wf_version rest \<and>
    (\<forall>i. version_number rest i = version_number v (Suc i)) \<and> version_number v 0 < 2 ^ 63"
proof (cases "split_once CHR ''.'' v")
  case None
  then have s: "split_at CHR ''.'' v = [v]" by (intro split_on_none) (auto simp: split_once_None)
  then have "list_all is_ascii_digit v" "dec_value v < 2 ^ 63" using assms by (auto simp: wf_version_def)
  with segment_digits [of v 0 "[]"] s show ?thesis
    by (auto simp: version_number_def wf_version_def dec_value_def)
next
  case (Some ab)
  then obtain a b where v: "v = a @ CHR ''.'' # b" "CHR ''.'' \<notin> set a" by (cases ab) (auto simp: split_once_Some)
  then have s: "split_at CHR ''.'' v = a # split_at CHR ''.'' b" by (auto intro: split_on_append)
  then have "list_all is_ascii_digit a" "dec_value a < 2 ^ 63" "wf_version b" using assms by (auto simp: wf_version_def)
  with segment_digits [of a 0 "CHR ''.'' # b"] s v(1) show ?thesis
    by (auto simp: version_number_def dec_value_def Let_def)
qed

lemma version_less_rest:
  assumes "\<forall>i. version_number r1 i = version_number v1 (Suc i)" "\<forall>i. version_number r2 i = version_number v2 (Suc i)"
  shows "version_less v1 v2 \<longleftrightarrow> version_number v1 0 < version_number v2 0 \<or>
    version_number v1 0 = version_number v2 0 \<and> version_less r1 r2"
proof -
  have ex: "(\<exists>i. P i) \<longleftrightarrow> P 0 \<or> (\<exists>i. P (Suc i))" for P :: "nat \<Rightarrow> bool" by (metis not0_implies_Suc)
  show ?thesis unfolding version_less_def using assms by (subst ex) (auto simp: All_less_Suc2)
qed

text \<open>
  C40: Version comparison is the lexicographic order of the numbers between the dots, with missing numbers counted
  as zero, for versions that consist of decimal numbers that fit 63 bits.
\<close>

theorem compare_version_spec:
  "wf_version v1 \<Longrightarrow> wf_version v2 \<Longrightarrow>
     compare_version v1 v2 = (if version_less v1 v2 then - 1 else if version_less v2 v1 then 1 else 0)"
proof (induction v1 v2 rule: compare_version.induct)
  case (1 v1 v2)
  show ?case
  proof (cases "v1 = [] \<and> v2 = []")
    case True
    then show ?thesis by (simp add: compare_version.simps version_less_def)
  next
    case False
    from version_head [OF "1.prems"(1)] obtain r1 where r1: "version_segment 0 v1 = (of_nat (version_number v1 0), r1)"
      "wf_version r1" "\<forall>i. version_number r1 i = version_number v1 (Suc i)" "version_number v1 0 < 2 ^ 63" by blast
    from version_head [OF "1.prems"(2)] obtain r2 where r2: "version_segment 0 v2 = (of_nat (version_number v2 0), r2)"
      "wf_version r2" "\<forall>i. version_number r2 i = version_number v2 (Suc i)" "version_number v2 0 < 2 ^ 63" by blast
    have sint: "sint (of_nat n :: 64 word) = int n" if "n < 2 ^ 63" for n
      using that by (simp add: signed_of_nat signed_take_bit_int_eq_self)
    have IH: "compare_version r1 r2 = (if version_less r1 r2 then - 1 else if version_less r2 r1 then 1 else 0)"
      if "version_number v1 0 = version_number v2 0"
      using "1.IH" [OF False r1(1) [symmetric] r2(1) [symmetric]] r1 r2 that by (simp add: sint)
    show ?thesis
      using False r1(1,4) r2(1,4) IH version_less_rest [OF r1(3) r2(3)] version_less_rest [OF r2(3) r1(3)]
      by (subst compare_version.simps) (auto simp: sint)
  qed
qed

section \<open>Device limits\<close>

text \<open>
  A user is dropped exactly when his live devices reach a positive limit; of the others the limit that is left is
  positive when there was one, and no subtraction leaves the range of the type.
\<close>

definition effective_limit :: "'f parse_params \<Rightarrow> 'f user_response \<Rightarrow> int" where
  "effective_limit p u = (if 0 < sint (pp_device_limit p) then sint (pp_device_limit p) else sint (ur_node_iplimit u))"

lemma sint_diff_positive:
  fixes a b :: i32
  assumes "0 < sint a" "0 < sint b"
  shows "sint (a - b) = sint a - sint b"
proof -
  have "- (2 ^ 31) \<le> sint a - sint b \<and> sint a - sint b < 2 ^ 31"
    using assms sint_i32_range [of a] sint_i32_range [of b] by auto
  then show ?thesis by (simp add: sint_word_diff signed_take_bit_int_eq_self)
qed

lemma users_within_limits:
  "map (\<lambda>u. (ui_uid u, sint (ui_device_limit u))) (parse_user_list_response F p us) =
     List.map_filter (\<lambda>u. let lim = effective_limit p u; alive = sint (ur_alive_ip u) in
       if 0 < lim \<and> lim \<le> alive then None
       else Some (ur_id u, if 0 < lim \<and> 0 < alive then lim - alive else lim)) us"
  by (induction us) (auto simp: Let_def effective_limit_def sint_diff_positive List.map_filter_simps)

section \<open>A panel whose node cannot be built\<close>

definition sample_float :: "unit float_ops" where
  "sample_float = \<lparr>fl_positive = (\<lambda>_. False), fl_bytes = (\<lambda>_. 0)\<rparr>"

definition sample_json :: "(unit, unit) json_lib" where
  "sample_json = \<lparr>js_envelope = (\<lambda>_. Inr (1, ())),
     js_node = (\<lambda>_. Inr \<lparr>nr_speedlimit = (), nr_server = ''h;8443;0;tls;xhttp;path=/a=b|host=h'', nr_custom_config = (), nr_version = ''2021.9''\<rparr>),
     js_users = (\<lambda>_. Inr []), js_custom = (\<lambda>_. Inl []), js_null = (\<lambda>_. True), js_show = (\<lambda>_. []), js_type = (\<lambda>t. t)\<rparr>"

definition sample_regexes :: regexes where
  "sample_regexes = \<lparr>re_first_port = (\<lambda>_. None), re_second_port = (\<lambda>_. None), re_host = (\<lambda>_. None)\<rparr>"

definition sample_panel :: panel where
  "sample_panel req k = Inr (if hq_if_none_match req = Some ''v1'' then \<lparr>ht_status = 304, ht_etag = None, ht_body = []\<rparr>
     else \<lparr>ht_status = 200, ht_etag = Some ''v1'', ht_body = []\<rparr>)"

definition sample_client :: "unit client" where
  "sample_client = \<lparr>cl_params = \<lparr>pp_node_type = V2ray, pp_node_id = 7, pp_enable_vless = False, pp_vless_flow = [],
       pp_speed_limit = (), pp_device_limit = 0\<rparr>,
     cl_disable_custom_config = False, cl_etags = Map.empty, cl_version = []\<rparr>"

definition sample_answer :: node_info where
  "sample_answer = sample_node\<lparr>ni_type := V2ray, ni_port := 8443, ni_transport := ''xhttp'', ni_host := ''h'', ni_path := ''/a=b'',
     ni_enable_tls := True\<rparr>"

lemma sample_poll:
  "tc_node (fst (client_tick sample_float sample_json sample_regexes sample_panel (\<lambda>_. True) sample_client)) = Inr sample_answer"
  "tc_users (fst (client_tick sample_float sample_json sample_regexes sample_panel (\<lambda>_. True) sample_client)) = Inr []"
  by code_simp+

theorem outage_until_panel_changes_witness:
  "manager_handler (wd_inbounds sample_running) ''Trojan_127.0.0.1_443'' = Some sample_inbound \<and>
   manager_handler (wd_inbounds (foldl (\<lambda>w t. snd (controller_tick sample_setting t w)) sample_running
     (client_ticks sample_float sample_json sample_regexes (\<lambda>_. True) (replicate 4 sample_panel) sample_client)))
     ''Trojan_127.0.0.1_443'' = None"
proof -
  let ?ct = "client_tick sample_float sample_json sample_regexes sample_panel (\<lambda>_. True) sample_client"
  have "build_transport sample_answer = Inl XhttpUnsupported"
    by (simp add: build_transport_def sample_answer_def sample_node_def)
  then have "\<forall>us. \<exists>e. controller_build sample_setting sample_answer us = Inl e"
    by (auto simp: controller_build_def build_inbound_def build_stream_def rbind_def Let_def split: sum.splits)
  then have fails: "rebuild_fails sample_setting sample_answer" by (simp add: rebuild_fails_def)
  have changed: "Some sample_answer \<noteq> ct_node_info (wd_controller sample_running)" "ni_port sample_answer \<noteq> 0"
    by (simp_all add: sample_controller sample_answer_def sample_node_def)
  have "\<forall>P' \<in> set (sample_panel # replicate 3 sample_panel). tagged P' (node_path (pp_node_id (cl_params sample_client))) ''v1''"
    by (auto simp: tagged_def sample_panel_def)
  from outage_until_panel_changes [OF surjective_pairing [of ?ct] sample_poll(1) _ changed fails this] sample_poll(2) sample_handler
  show ?thesis by (simp add: Let_def sample_controller numeral_eq_Suc)
qed

theorem compare_version_spec_witness: "compare_version ''2021.9'' ''2021.11'' = - 1"
proof -
  have "version_number ''2021.9'' 0 = version_number ''2021.11'' 0" "version_number ''2021.9'' 1 < version_number ''2021.11'' 1"
    by code_simp+
  then have "version_less ''2021.9'' ''2021.11''" unfolding version_less_def by (intro exI [of _ 1]) auto
  moreover have "wf_version ''2021.9''" "wf_version ''2021.11''" by code_simp+
  ultimately show ?thesis using compare_version_spec [of "''2021.9''" "''2021.11''"] by simp
qed

end
