(* ===== verification/Panel.thy ===== *)
theory Panel
  imports Egress Sspanel
begin

text \<open>
  saas/src/panel.rs, with the configuration it reads from saas/src/config.rs: the data plane shared by all nodes, the
  start of one controller for every SSpanel node, and the controllers' ticks in any order on the shared
  inbounds and counters.
\<close>

section \<open>Configuration\<close>

record connection_config =
  cn_handshake :: u32
  cn_conn_idle :: u32
  cn_uplink_only :: u32
  cn_downlink_only :: u32
  cn_buffer_size :: i32

definition connection_default :: connection_config where
  "connection_default = \<lparr>cn_handshake = 4, cn_conn_idle = 30, cn_uplink_only = 2, cn_downlink_only = 4, cn_buffer_size = 64\<rparr>"

text \<open>A node of the configuration and the normalised settings of its client; \<open>'f\<close> is the type of floating point numbers.\<close>

record 'f api_config_cfg =
  af_api_host :: string
  af_node_id :: i32
  af_api_key :: string
  af_node_type :: string
  af_enable_vless :: bool
  af_vless_flow :: string
  af_timeout :: u32
  af_speed_limit :: 'f
  af_device_limit :: i32
  af_rule_list_path :: string
  af_disable_custom_config :: bool

record 'f api_config =
  an_api_host :: string
  an_node_id :: i32
  an_key :: string
  an_node_type :: node_type
  an_enable_vless :: bool
  an_vless_flow :: string
  an_timeout :: u32
  an_speed_limit :: 'f
  an_device_limit :: i32
  an_rule_list_path :: string
  an_disable_custom_config :: bool

record 'f node_config =
  nc_panel_type :: string
  nc_api :: "'f api_config_cfg"
  nc_controller :: controller_config

record 'f panel_config =
  pg_connection :: connection_config
  pg_nodes :: "'f node_config list"
  pg_egress :: egress_config

datatype panel_error =
    DnsResolver string
  | EgressRouting string
  | UnsupportedNodeType string
  | StartingNode i32 start_error
  | NoNodes

definition node_api_config :: "'f node_config \<Rightarrow> panel_error + 'f api_config" where
  "node_api_config n =
     (let a = nc_api n in
      rbind (ok_or (node_type_parse (af_node_type a)) (UnsupportedNodeType (af_node_type a))) (\<lambda>ty.
      Inr \<lparr>an_api_host = af_api_host a, an_node_id = af_node_id a, an_key = af_api_key a, an_node_type = ty,
           an_enable_vless = af_enable_vless a, an_vless_flow = af_vless_flow a, an_timeout = af_timeout a,
           an_speed_limit = af_speed_limit a, an_device_limit = af_device_limit a,
           an_rule_list_path = af_rule_list_path a, an_disable_custom_config = af_disable_custom_config a\<rparr>))"

text \<open>A new client knows no entity tag. Its HTTP half is the panel it is given below, one for each setting.\<close>

definition client_new :: "'f api_config \<Rightarrow> 'f client" where
  "client_new a = \<lparr>cl_params = \<lparr>pp_node_type = an_node_type a, pp_node_id = an_node_id a, pp_enable_vless = an_enable_vless a,
       pp_vless_flow = an_vless_flow a, pp_speed_limit = an_speed_limit a, pp_device_limit = an_device_limit a\<rparr>,
     cl_disable_custom_config = an_disable_custom_config a, cl_etags = Map.empty, cl_version = []\<rparr>"

section \<open>Starting\<close>

text \<open>What the process is given once: the libraries, the machine, and the panel behind each client's settings.\<close>

record ('f, 'j, 'tls) machine =
  mc_libs :: libs
  mc_host :: "'tls host"
  mc_sockets :: sockets
  mc_float :: "'f float_ops"
  mc_json :: "('f, 'j) json_lib"
  mc_regexes :: regexes
  mc_panel :: "'f api_config \<Rightarrow> panel"

record ('f, 'tls) panel_node =
  pn_setting :: "'tls setting"
  pn_client :: "'f client"
  pn_controller :: controller

record ('f, 'tls) process =
  pc_nodes :: "('f, 'tls) panel_node list"
  pc_inbounds :: "'tls inbounds"
  pc_stats :: stats

definition node_setting :: "('f, 'j, 'tls) machine \<Rightarrow> controller_config \<Rightarrow> 'tls setting" where
  "node_setting M cfg = \<lparr>st_cfg = cfg, st_libs = mc_libs M, st_host = mc_host M, st_sockets = mc_sockets M\<rparr>"

text \<open>
  The body of the loop over the nodes. The users are asked for after the node; when \<open>start\<close> fails before that, the
  whole process ends with its error, so that asking earlier makes no difference.
\<close>

definition start_node :: "('f, 'j, 'tls) machine \<Rightarrow> 'f node_config \<Rightarrow> ('f, 'tls) process \<Rightarrow> panel_error + ('f, 'tls) process" where
  "start_node M n p =
     (if nc_panel_type n \<noteq> ''SSpanel'' then Inr p
      else rbind (node_api_config n) (\<lambda>a.
        case get_node_info (mc_float M) (mc_json M) (mc_regexes M) (mc_panel M a) (client_new a) of (na, cl1) \<Rightarrow>
        case get_user_list (mc_float M) (mc_json M) (mc_panel M a) cl1 of (ua, cl2) \<Rightarrow>
        let E = node_setting M (nc_controller n) in
        rbind (map_err (StartingNode (af_node_id (nc_api n)))
                 (controller_start E na ua \<lparr>wd_controller = controller_new, wd_inbounds = pc_inbounds p, wd_stats = pc_stats p\<rparr>)) (\<lambda>w.
        Inr \<lparr>pc_nodes = pc_nodes p @ [\<lparr>pn_setting = E, pn_client = cl2, pn_controller = wd_controller w\<rparr>],
             pc_inbounds = wd_inbounds w, pc_stats = wd_stats w\<rparr>)))"

fun start_nodes :: "('f, 'j, 'tls) machine \<Rightarrow> 'f node_config list \<Rightarrow> ('f, 'tls) process \<Rightarrow> panel_error + ('f, 'tls) process" where
  "start_nodes M [] p = Inr p"
| "start_nodes M (n # ns) p = rbind (start_node M n p) (start_nodes M ns)"

record data_plane =
  dp_egress :: compiled_egress
  dp_handshake_timeout :: u64
  dp_idle_timeout :: u64

definition data_plane_of :: "crypto_lib \<Rightarrow> string + unit \<Rightarrow> 'f panel_config \<Rightarrow> panel_error + data_plane" where
  "data_plane_of L resolver cfg =
     rbind (map_err DnsResolver resolver) (\<lambda>_.
     rbind (map_err EgressRouting (compile L (pg_egress cfg))) (\<lambda>egress.
     Inr \<lparr>dp_egress = egress, dp_handshake_timeout = ucast (max (cn_handshake (pg_connection cfg)) 1),
          dp_idle_timeout = ucast (max (cn_conn_idle (pg_connection cfg)) 1)\<rparr>))"

definition panel_start ::
  "('f, 'j, 'tls) machine \<Rightarrow> string + unit \<Rightarrow> 'f panel_config \<Rightarrow> panel_error + data_plane \<times> ('f, 'tls) process" where
  "panel_start M resolver cfg =
     rbind (data_plane_of (lb_crypto (mc_libs M)) resolver cfg) (\<lambda>dp.
     rbind (start_nodes M (pg_nodes cfg) \<lparr>pc_nodes = [], pc_inbounds = manager_new, pc_stats = stats_new\<rparr>) (\<lambda>p.
     if pc_nodes p = [] then Inl NoNodes else Inr (dp, p)))"

section \<open>Running\<close>

definition world_of :: "('f, 'tls) process \<Rightarrow> nat \<Rightarrow> 'tls world" where
  "world_of p i = \<lparr>wd_controller = pn_controller (pc_nodes p ! i), wd_inbounds = pc_inbounds p, wd_stats = pc_stats p\<rparr>"

definition node_answer :: "('f, 'j, 'tls) machine \<Rightarrow> panel \<Rightarrow> (user_traffic list \<Rightarrow> bool) \<Rightarrow> ('f, 'tls) process \<Rightarrow> nat \<Rightarrow> tick \<times> 'f client" where
  "node_answer M P accepts p i = client_tick (mc_float M) (mc_json M) (mc_regexes M) P accepts (pn_client (pc_nodes p ! i))"

text \<open>A tick of the \<open>i\<close>-th controller's task, against the panel as it then answers.\<close>

definition panel_tick ::
  "('f, 'j, 'tls) machine \<Rightarrow> panel \<Rightarrow> (user_traffic list \<Rightarrow> bool) \<Rightarrow> nat \<Rightarrow> ('f, 'tls) process \<Rightarrow> ('f, 'tls) process" where
  "panel_tick M P accepts i p =
     (let n = pc_nodes p ! i in
      case node_answer M P accepts p i of (t, cl) \<Rightarrow>
      let w = snd (controller_tick (pn_setting n) t (world_of p i))
      in \<lparr>pc_nodes = (pc_nodes p)[i := n\<lparr>pn_client := cl, pn_controller := wd_controller w\<rparr>],
          pc_inbounds = wd_inbounds w, pc_stats = wd_stats w\<rparr>)"

text \<open>The shutdown: every controller removes its inbound when its loop ends.\<close>

definition panel_shutdown :: "('f, 'tls) process \<Rightarrow> ('f, 'tls) process" where
  "panel_shutdown p = p\<lparr>pc_inbounds := foldl (\<lambda>m n. manager_remove (ct_node_tag (pn_controller n)) m) (pc_inbounds p) (pc_nodes p)\<rparr>"

section \<open>What a node's tick touches\<close>

text \<open>
  A tick keeps the node's tag or takes the tag of the node it was told; the inbounds under every other tag stay,
  and nothing is left under an abandoned tag.
\<close>

lemma rebuild_frame:
  "let w' = rebuild_node E node us w; c = wd_controller w; c' = wd_controller w' in
     (ct_node_tag c' = ct_node_tag c \<or> ct_node_tag c' = build_node_tag node (cc_listen_ip (st_cfg E))) \<and>
     (\<forall>tg. tg \<noteq> ct_node_tag c \<longrightarrow> tg \<noteq> ct_node_tag c' \<longrightarrow> manager_handler (wd_inbounds w') tg = manager_handler (wd_inbounds w) tg) \<and>
     (ct_node_tag c' \<noteq> ct_node_tag c \<longrightarrow> manager_handler (wd_inbounds w') (ct_node_tag c) = None)"
proof (cases "ni_port node = 0")
  case True
  then show ?thesis by (simp add: rebuild_node_def)
next
  case False
  have tg: "bi_tag b = build_node_tag node (cc_listen_ip (st_cfg E))" if "controller_build E node us' = Inr b" for b us'
    using build_inboundE(1) [OF that [unfolded controller_build_def]] .
  from rebuild_cases [OF False, of w E us] show ?thesis
    unfolding Let_def
    by (elim disjE exE conjE) (simp_all add: manager_add_handler tg)
qed

lemma sync_frame:
  "ct_node_tag (wd_controller (sync_users E us w)) = ct_node_tag (wd_controller w)"
  "tg \<noteq> ct_node_tag (wd_controller w) \<Longrightarrow> manager_handler (wd_inbounds (sync_users E us w)) tg = manager_handler (wd_inbounds w) tg"
  by (auto simp: sync_users_def Let_def split: option.splits sum.splits)

lemma node_monitor_cases:
  "node_info_monitor E na ua w = w \<or> (\<exists>us. node_info_monitor E na ua w = sync_users E us w) \<or>
   (\<exists>node us. na = Inr node \<and> node_info_monitor E na ua w = rebuild_node E node us w)"
  unfolding node_info_monitor_def by (auto split: sum.split api_error.split)

lemma tick_frame:
  "let w' = snd (controller_tick E t w); c = wd_controller w; c' = wd_controller w' in
     (ct_node_tag c' = ct_node_tag c \<or> (\<exists>node. tc_node t = Inr node \<and> ct_node_tag c' = build_node_tag node (cc_listen_ip (st_cfg E)))) \<and>
     (\<forall>tg. tg \<noteq> ct_node_tag c \<longrightarrow> tg \<noteq> ct_node_tag c' \<longrightarrow> manager_handler (wd_inbounds w') tg = manager_handler (wd_inbounds w) tg) \<and>
     (ct_node_tag c' \<noteq> ct_node_tag c \<longrightarrow> manager_handler (wd_inbounds w') (ct_node_tag c) = None)"
proof -
  let ?m = "node_info_monitor E (tc_node t) (tc_users t) w"
  consider (same) "?m = w" | (sync) us where "?m = sync_users E us w"
    | (rebuild) node us where "tc_node t = Inr node" "?m = rebuild_node E node us w"
    using node_monitor_cases by metis
  then show ?thesis
  proof cases
    case same
    then show ?thesis by (simp add: tick_monitor)
  next
    case sync
    then show ?thesis by (simp add: tick_monitor sync_frame)
  next
    case rebuild
    with rebuild_frame [of E node us w] show ?thesis by (auto simp: tick_monitor Let_def)
  qed
qed

section \<open>The invariant of the process\<close>

definition node_tag :: "('f, 'tls) process \<Rightarrow> nat \<Rightarrow> string" where
  "node_tag p i = ct_node_tag (pn_controller (pc_nodes p ! i))"

definition process_ok :: "(nat \<Rightarrow> string set) \<Rightarrow> ('f, 'tls) process \<Rightarrow> bool" where
  "process_ok D p \<longleftrightarrow>
     (\<forall>i < length (pc_nodes p). node_tag p i \<in> D i \<and> node_ok (pn_setting (pc_nodes p ! i)) (world_of p i)) \<and>
     (\<forall>tg. manager_handler (pc_inbounds p) tg \<noteq> None \<longrightarrow> (\<exists>i < length (pc_nodes p). tg = node_tag p i))"

text \<open>
  The ticks of the controllers in any order, where the panel tells the \<open>i\<close>-th node only nodes with a tag of \<open>D i\<close>;
  connections and traffic between them.
\<close>

inductive process_step :: "('f, 'j, 'tls) machine \<Rightarrow> (nat \<Rightarrow> string set) \<Rightarrow> ('f, 'tls) process \<Rightarrow> ('f, 'tls) process \<Rightarrow> bool" for M D where
  tick: "i < length (pc_nodes p) \<Longrightarrow>
    (\<And>node. tc_node (fst (node_answer M P accepts p i)) = Inr node \<Longrightarrow>
       build_node_tag node (cc_listen_ip (st_cfg (pn_setting (pc_nodes p ! i)))) \<in> D i) \<Longrightarrow>
    process_step M D p (panel_tick M P accepts i p)"
| serve: "manager_handler (pc_inbounds p) tg = Some h \<Longrightarrow> same_users h h' \<Longrightarrow>
    process_step M D p (p\<lparr>pc_inbounds := put_handler tg h' (pc_inbounds p)\<rparr>)"
| traffic: "process_step M D p (p\<lparr>pc_stats := s\<rparr>)"

lemma panel_tick_simps:
  fixes M p P accepts i
  defines "w' \<equiv> snd (controller_tick (pn_setting (pc_nodes p ! i)) (fst (node_answer M P accepts p i)) (world_of p i))"
  shows "length (pc_nodes (panel_tick M P accepts i p)) = length (pc_nodes p)"
    "pc_inbounds (panel_tick M P accepts i p) = wd_inbounds w'"
    "i < length (pc_nodes p) \<Longrightarrow> j < length (pc_nodes p) \<Longrightarrow>
       node_tag (panel_tick M P accepts i p) j = (if j = i then ct_node_tag (wd_controller w') else node_tag p j)"
    "i < length (pc_nodes p) \<Longrightarrow> j < length (pc_nodes p) \<Longrightarrow>
       pn_setting (pc_nodes (panel_tick M P accepts i p) ! j) = pn_setting (pc_nodes p ! j)"
    "i < length (pc_nodes p) \<Longrightarrow> j < length (pc_nodes p) \<Longrightarrow> wd_controller (world_of (panel_tick M P accepts i p) j) =
       (if j = i then wd_controller w' else wd_controller (world_of p j))"
    "wd_inbounds (world_of (panel_tick M P accepts i p) j) = wd_inbounds w'"
  by (auto simp: w'_def panel_tick_def world_of_def node_tag_def nth_list_update Let_def split: prod.splits)

text \<open>A node is as before when its controller is and the inbound under its tag is.\<close>

lemma node_ok_frame:
  "node_ok E w \<Longrightarrow> wd_controller w' = wd_controller w \<Longrightarrow>
   manager_handler (wd_inbounds w') (ct_node_tag (wd_controller w)) = manager_handler (wd_inbounds w) (ct_node_tag (wd_controller w)) \<Longrightarrow>
   node_ok E w'"
  by (simp add: node_ok_def)

lemma tick_process_ok:
  assumes ok: "process_ok D p" and i: "i < length (pc_nodes p)" and disj: "\<And>i j. i \<noteq> j \<Longrightarrow> D i \<inter> D j = {}"
    and own: "\<And>node. tc_node (fst (node_answer M P accepts p i)) = Inr node \<Longrightarrow>
       build_node_tag node (cc_listen_ip (st_cfg (pn_setting (pc_nodes p ! i)))) \<in> D i"
  shows "process_ok D (panel_tick M P accepts i p)"
proof -
  let ?E = "pn_setting (pc_nodes p ! i)" and ?t = "fst (node_answer M P accepts p i)"
  let ?w = "world_of p i" and ?q = "panel_tick M P accepts i p"
  define w' where "w' = snd (controller_tick ?E ?t ?w)"
  note q = panel_tick_simps [where M = M and p = p and P = P and accepts = accepts and i = i, folded w'_def]
  have tag: "ct_node_tag (wd_controller ?w) = node_tag p i" and inb: "\<And>j. wd_inbounds (world_of p j) = pc_inbounds p"
    by (simp_all add: world_of_def node_tag_def)
  from ok i have oki: "node_ok ?E ?w" "node_tag p i \<in> D i" by (simp_all add: process_ok_def)
  note fr = tick_frame [of ?E ?t ?w, folded w'_def, unfolded Let_def tag inb]
  have tag': "ct_node_tag (wd_controller w') \<in> D i" using fr own oki(2) by auto
  have others: "manager_handler (wd_inbounds w') (node_tag p j) = manager_handler (pc_inbounds p) (node_tag p j)"
    if "j < length (pc_nodes p)" "j \<noteq> i" for j
  proof -
    have "node_tag p j \<in> D j" using ok that by (simp add: process_ok_def)
    then have "node_tag p j \<noteq> node_tag p i" "node_tag p j \<noteq> ct_node_tag (wd_controller w')"
      using disj [of i j] that(2) oki(2) tag' by auto
    then show ?thesis using fr by simp
  qed
  have "node_tag ?q j \<in> D j \<and> node_ok (pn_setting (pc_nodes ?q ! j)) (world_of ?q j)" if j: "j < length (pc_nodes p)" for j
  proof (cases "j = i")
    case True
    have "node_ok ?E (world_of ?q i)"
      using tick_node_ok [OF oki(1), of ?t, folded w'_def] node_ok_cong [of w' "world_of ?q i" ?E] i q(5,6) by simp
    with True tag' i show ?thesis by (simp add: q)
  next
    case False
    have "node_ok (pn_setting (pc_nodes p ! j)) (world_of p j)" "node_tag p j \<in> D j"
      using ok j by (simp_all add: process_ok_def)
    moreover have "ct_node_tag (wd_controller (world_of p j)) = node_tag p j" by (simp add: world_of_def node_tag_def)
    ultimately show ?thesis using False i j others [OF j False] by (auto simp: q inb intro: node_ok_frame)
  qed
  moreover have "\<exists>j < length (pc_nodes p). tg = node_tag ?q j" if h: "manager_handler (wd_inbounds w') tg \<noteq> None" for tg
  proof (cases "tg = ct_node_tag (wd_controller w')")
    case True
    then show ?thesis using i q(3) by auto
  next
    case False
    then have "tg \<noteq> node_tag p i" using fr h by metis
    moreover from this False fr h have "manager_handler (pc_inbounds p) tg \<noteq> None" by simp
    then obtain j where j: "j < length (pc_nodes p)" "tg = node_tag p j" using ok by (auto simp: process_ok_def)
    ultimately have "j \<noteq> i" by auto
    then have "node_tag ?q j = tg" using i j q(3) by simp
    with j(1) show ?thesis by blast
  qed
  ultimately show ?thesis by (simp add: process_ok_def q)
qed

lemma process_step_ok:
  assumes "process_step M D p p'" "process_ok D p" "\<And>i j. i \<noteq> j \<Longrightarrow> D i \<inter> D j = {}"
  shows "process_ok D p'"
  using assms
proof (induction rule: process_step.induct)
  case (tick i p P accepts)
  then show ?case by (intro tick_process_ok)
next
  case (serve p tg h h')
  have "node_ok E (world_of (p\<lparr>pc_inbounds := put_handler tg h' (pc_inbounds p)\<rparr>) j)" if "node_ok E (world_of p j)" for E j
    using panel_step_node_ok [OF panel_step.serve [of "world_of p j" tg h h'] that] serve.hyps
    by (simp add: world_of_def)
  with serve show ?case by (auto simp: process_ok_def node_tag_def split: if_splits)
next
  case (traffic p s)
  have "node_ok E (world_of (p\<lparr>pc_stats := s\<rparr>) j) = node_ok E (world_of p j)" for E j
    by (rule node_ok_cong) (simp_all add: world_of_def)
  with traffic show ?case by (simp add: process_ok_def node_tag_def)
qed

lemma process_steps_ok:
  assumes "(process_step M D)\<^sup>*\<^sup>* p p'" "process_ok D p" "\<And>i j. i \<noteq> j \<Longrightarrow> D i \<inter> D j = {}"
  shows "process_ok D p'"
  using assms by (induction rule: rtranclp_induct) (auto intro: process_step_ok)

section \<open>The start\<close>

text \<open>What a start has reached: every started node runs under a tag of its own, and nothing else runs.\<close>

definition started_ok :: "('f, 'tls) process \<Rightarrow> bool" where
  "started_ok p \<longleftrightarrow> distinct (map (\<lambda>n. ct_node_tag (pn_controller n)) (pc_nodes p)) \<and>
     {tg. manager_handler (pc_inbounds p) tg \<noteq> None} = (\<lambda>n. ct_node_tag (pn_controller n)) ` set (pc_nodes p) \<and>
     (\<forall>n \<in> set (pc_nodes p). node_ok (pn_setting n)
        \<lparr>wd_controller = pn_controller n, wd_inbounds = pc_inbounds p, wd_stats = pc_stats p\<rparr>)"

lemma controller_start_adds:
  assumes "controller_start E na ua w = Inr w'"
  shows "manager_handler (wd_inbounds w) (ct_node_tag (wd_controller w')) = None"
    "manager_handler (wd_inbounds w') (ct_node_tag (wd_controller w')) \<noteq> None"
    "tg \<noteq> ct_node_tag (wd_controller w') \<Longrightarrow> manager_handler (wd_inbounds w') tg = manager_handler (wd_inbounds w) tg"
proof -
  from assms obtain built m node us where a: "manager_add (st_sockets E) built (wd_inbounds w) = Inr m"
    and w': "w' = w\<lparr>wd_inbounds := m, wd_controller := \<lparr>ct_node_info = Some node, ct_node_tag = bi_tag built, ct_user_list = us\<rparr>\<rparr>"
    by (auto simp: controller_start_def rbind_Inr_conv split: if_splits)
  show "manager_handler (wd_inbounds w) (ct_node_tag (wd_controller w')) = None"
    using a w' by (auto elim: manager_addE)
  show "manager_handler (wd_inbounds w') (ct_node_tag (wd_controller w')) \<noteq> None"
    "tg \<noteq> ct_node_tag (wd_controller w') \<Longrightarrow> manager_handler (wd_inbounds w') tg = manager_handler (wd_inbounds w) tg"
    using manager_add_handler [OF a] w' by simp_all
qed

lemma start_node_ok_step:
  assumes "start_node M n p = Inr p'" "started_ok p"
  shows "started_ok p'"
proof (cases "p' = p")
  case True
  with assms show ?thesis by simp
next
  case False
  let ?w = "\<lparr>wd_controller = controller_new, wd_inbounds = pc_inbounds p, wd_stats = pc_stats p\<rparr>"
  from assms(1) False obtain E na ua w' cl where st: "controller_start E na ua ?w = Inr w'"
    and p': "p' = \<lparr>pc_nodes = pc_nodes p @ [\<lparr>pn_setting = E, pn_client = cl, pn_controller = wd_controller w'\<rparr>],
       pc_inbounds = wd_inbounds w', pc_stats = wd_stats w'\<rparr>"
    by (auto simp: start_node_def rbind_Inr_conv Let_def case_prod_beta split: if_splits)
  note ad = controller_start_adds [OF st, simplified]
  let ?tg = "ct_node_tag (wd_controller w')"
  have old: "ct_node_tag (pn_controller n) \<noteq> ?tg" if "n \<in> set (pc_nodes p)" for n
    using assms(2) that ad(1) unfolding started_ok_def by (metis (mono_tags, lifting) imageI mem_Collect_eq)
  have "node_ok (pn_setting n) \<lparr>wd_controller = pn_controller n, wd_inbounds = wd_inbounds w', wd_stats = wd_stats w'\<rparr>"
    if "n \<in> set (pc_nodes p)" for n
    using assms(2) that old [OF that] ad(3) by (auto simp: started_ok_def intro: node_ok_frame)
  moreover have "node_ok E \<lparr>wd_controller = wd_controller w', wd_inbounds = wd_inbounds w', wd_stats = wd_stats w'\<rparr>"
    using start_node_ok [OF st] by (rule node_ok_cong [THEN iffD1, rotated 2]) simp_all
  moreover have "{tg. manager_handler (wd_inbounds w') tg \<noteq> None} = insert ?tg {tg. manager_handler (pc_inbounds p) tg \<noteq> None}"
    using ad by (auto, metis+)
  moreover have "?tg \<notin> (\<lambda>n. ct_node_tag (pn_controller n)) ` set (pc_nodes p)"
    using old by (auto dest: sym)
  ultimately show ?thesis using assms(2) unfolding p' by (simp add: started_ok_def)
qed

lemma start_nodes_ok: "start_nodes M ns p = Inr p' \<Longrightarrow> started_ok p \<Longrightarrow> started_ok p'"
  by (induction M ns p arbitrary: p' rule: start_nodes.induct) (auto simp: rbind_Inr_conv intro: start_node_ok_step)

lemma panel_started_ok:
  assumes "panel_start M resolver cfg = Inr (dp, p)"
  shows "started_ok p" "pc_nodes p \<noteq> []"
proof -
  from assms have "start_nodes M (pg_nodes cfg) \<lparr>pc_nodes = [], pc_inbounds = manager_new, pc_stats = stats_new\<rparr> = Inr p"
    "pc_nodes p \<noteq> []" by (auto simp: panel_start_def rbind_Inr_conv split: if_splits)
  moreover have "started_ok \<lparr>pc_nodes = [], pc_inbounds = manager_new, pc_stats = stats_new\<rparr>"
    by (simp add: started_ok_def manager_new_def manager_handler_def)
  ultimately show "started_ok p" "pc_nodes p \<noteq> []" by (auto intro: start_nodes_ok)
qed

lemma started_process_ok:
  assumes "started_ok p" "\<And>i. i < length (pc_nodes p) \<Longrightarrow> node_tag p i \<in> D i"
  shows "process_ok D p"
proof -
  have "\<exists>i < length (pc_nodes p). tg = node_tag p i" if "manager_handler (pc_inbounds p) tg \<noteq> None" for tg
    using assms(1) that by (auto simp: started_ok_def node_tag_def set_conv_nth dest!: equalityD1 subsetD)
  with assms show ?thesis by (auto simp: started_ok_def process_ok_def world_of_def)
qed

section \<open>Properties of the process\<close>

lemma shutdown_removes:
  "manager_handler (foldl (\<lambda>m n. manager_remove (f n) m) m ns) tg = (if tg \<in> f ` set ns then None else manager_handler m tg)"
  by (induction ns arbitrary: m) auto

text \<open>
  C35: Nodes do not meddle with each other. A successful start has every node's inbound running under a tag of its
  own and nothing else running. From then on, when the panel gives the nodes tags from disjoint sets, for
  instance because they listen on different ports, any interleaving of the controllers' ticks, connections
  and traffic leaves under every node's tag only a handler with exactly that node's protocol and users, and
  after the shutdown no inbound is left.
\<close>

theorem panel_isolates_nodes:
  assumes start: "panel_start M resolver cfg = Inr (dp, p0)"
    and disj: "\<And>i j. i \<noteq> j \<Longrightarrow> D i \<inter> D j = {}" and first: "\<And>i. i < length (pc_nodes p0) \<Longrightarrow> node_tag p0 i \<in> D i"
    and steps: "(process_step M D)\<^sup>*\<^sup>* p0 p"
  shows "distinct (map (\<lambda>n. ct_node_tag (pn_controller n)) (pc_nodes p0)) \<and>
    dom (ib_running (pc_inbounds p0)) = (\<lambda>n. ct_node_tag (pn_controller n)) ` set (pc_nodes p0) \<and> pc_nodes p0 \<noteq> [] \<and>
    (\<forall>i h. i < length (pc_nodes p) \<longrightarrow> manager_handler (pc_inbounds p) (node_tag p i) = Some h \<longrightarrow>
       (\<exists>node. ct_node_info (pn_controller (pc_nodes p ! i)) = Some node \<and>
         serving (st_libs (pn_setting (pc_nodes p ! i))) node (node_tag p i) (ct_user_list (pn_controller (pc_nodes p ! i))) h)) \<and>
    ib_running (pc_inbounds (panel_shutdown p)) = Map.empty"
proof (intro conjI allI impI)
  note st = panel_started_ok [OF start]
  have ok: "process_ok D p"
    using process_steps_ok [OF steps started_process_ok [OF st(1) first] disj] .
  show "pc_nodes p0 \<noteq> []" by (rule st(2))
  show "distinct (map (\<lambda>n. ct_node_tag (pn_controller n)) (pc_nodes p0))"
    "dom (ib_running (pc_inbounds p0)) = (\<lambda>n. ct_node_tag (pn_controller n)) ` set (pc_nodes p0)"
    using st(1) by (simp_all add: started_ok_def dom_def manager_handler_def)
  show "\<exists>node. ct_node_info (pn_controller (pc_nodes p ! i)) = Some node \<and>
      serving (st_libs (pn_setting (pc_nodes p ! i))) node (node_tag p i) (ct_user_list (pn_controller (pc_nodes p ! i))) h"
    if "i < length (pc_nodes p)" "manager_handler (pc_inbounds p) (node_tag p i) = Some h" for i h
    using ok that by (auto simp: process_ok_def node_ok_def world_of_def node_tag_def)
  have "manager_handler (pc_inbounds (panel_shutdown p)) tg = None" for tg
    using ok by (auto simp: panel_shutdown_def shutdown_removes process_ok_def node_tag_def)
  then show "ib_running (pc_inbounds (panel_shutdown p)) = Map.empty"
    by (simp add: manager_handler_def fun_eq_iff)
qed

text \<open>
  The tags have to be disjoint: a node whose rebuild failed keeps its old tag, and once another node has taken that
  tag, a user list of the first is installed in the inbound of the second.
\<close>

lemma stale_tag_overwrites:
  assumes "ct_node_info (wd_controller w) = Some node" "manager_handler (wd_inbounds w) (ct_node_tag (wd_controller w)) = Some (InTrojan t)"
    "users_differ (ct_user_list (wd_controller w)) us"
  shows "manager_handler (wd_inbounds (sync_users E us w)) (ct_node_tag (wd_controller w)) =
    Some (InTrojan (build_trojan_users (st_libs E) us (ct_node_tag (wd_controller w))))"
  using assms by (simp add: sync_users_def Let_def apply_users_def)

section \<open>Two nodes on one machine\<close>

definition two_json :: "(unit, string) json_lib" where
  "two_json = \<lparr>js_envelope = (\<lambda>b. Inr (1, b)),
     js_node = (\<lambda>p. Inr \<lparr>nr_speedlimit = (), nr_server = ''h;'' @ p @ '';0;tcp;;'', nr_custom_config = [], nr_version = ''9''\<rparr>),
     js_users = (\<lambda>_. Inr []), js_custom = (\<lambda>_. Inl []), js_null = (\<lambda>_. True), js_show = (\<lambda>_. []), js_type = (\<lambda>t. t)\<rparr>"

definition two_machine :: "(unit, string, unit) machine" where
  "two_machine = \<lparr>mc_libs = st_libs sample_setting, mc_host = st_host sample_setting, mc_sockets = st_sockets sample_setting,
     mc_float = sample_float, mc_json = two_json, mc_regexes = sample_regexes,
     mc_panel = (\<lambda>a req k. Inr \<lparr>ht_status = 200, ht_etag = None, ht_body = (if an_node_id a = 7 then ''8443'' else ''8444'')\<rparr>)\<rparr>"

definition two_node :: "i32 \<Rightarrow> unit node_config" where
  "two_node i = \<lparr>nc_panel_type = ''SSpanel'',
     nc_api = \<lparr>af_api_host = ''p'', af_node_id = i, af_api_key = [], af_node_type = ''V2ray'', af_enable_vless = True,
       af_vless_flow = [], af_timeout = 0, af_speed_limit = (), af_device_limit = 0, af_rule_list_path = [],
       af_disable_custom_config = True\<rparr>,
     nc_controller = controller_default\<lparr>cc_listen_ip := ''127.0.0.1''\<rparr>\<rparr>"

definition two_config :: "unit panel_config" where
  "two_config = \<lparr>pg_connection = connection_default, pg_nodes = [two_node 7, two_node 8], pg_egress = egress_default\<rparr>"

definition two_info :: "i32 \<Rightarrow> u32 \<Rightarrow> node_info" where
  "two_info i p = sample_node\<lparr>ni_type := V2ray, ni_id := i, ni_port := p, ni_transport := ''tcp'', ni_enable_vless := True\<rparr>"

definition two_api :: "i32 \<Rightarrow> unit api_config" where
  "two_api i = \<lparr>an_api_host = ''p'', an_node_id = i, an_key = [], an_node_type = V2ray, an_enable_vless = True,
     an_vless_flow = [], an_timeout = 0, an_speed_limit = (), an_device_limit = 0, an_rule_list_path = [],
     an_disable_custom_config = True\<rparr>"

lemma two_node_answers:
  "fst (get_node_info sample_float two_json sample_regexes (mc_panel two_machine (two_api 7)) (client_new (two_api 7))) = Inr (two_info 7 8443)"
  "fst (get_node_info sample_float two_json sample_regexes (mc_panel two_machine (two_api 8)) (client_new (two_api 8))) = Inr (two_info 8 8444)"
  by code_simp+

lemma two_tags:
  "build_node_tag (two_info 7 8443) ''127.0.0.1'' = ''V2ray_127.0.0.1_8443''"
  "build_node_tag (two_info 8 8444) ''127.0.0.1'' = ''V2ray_127.0.0.1_8444''"
  "parse_socket_addr (''127.0.0.1'' @ '':'' @ show_nat 8443) = Some (V4 0x7f000001, 8443)"
  "parse_socket_addr (''127.0.0.1'' @ '':'' @ show_nat 8444) = Some (V4 0x7f000001, 8444)"
  by code_simp+

lemma two_users: "fst (get_user_list sample_float two_json (mc_panel two_machine a) cl) = Inr []"
  by (simp add: get_user_list_def get_json_def two_json_def two_machine_def send_with_retry_def parse_response_def
      Let_def rbind_def map_err_def set_etag_def split: prod.splits)

lemma two_node_config: "nc_panel_type (two_node i) = ''SSpanel''" "node_api_config (two_node i) = Inr (two_api i)"
  "nc_controller (two_node i) = controller_default\<lparr>cc_listen_ip := ''127.0.0.1''\<rparr>"
  by (simp_all add: two_node_def node_api_config_def two_api_def node_type_parse_def rbind_def ok_or_def Let_def)

lemma two_machine_simps:
  "mc_float two_machine = sample_float" "mc_json two_machine = two_json" "mc_regexes two_machine = sample_regexes"
  "sk_bind_tcp (mc_sockets two_machine) adr = Inr ()"
  by (simp_all add: two_machine_def sample_setting_def)

lemma two_starts:
  assumes "fst (get_node_info sample_float two_json sample_regexes (mc_panel two_machine (two_api i)) (client_new (two_api i))) = Inr (two_info i prt)"
    and tg: "build_node_tag (two_info i prt) ''127.0.0.1'' = tg"
    and adr: "parse_socket_addr (''127.0.0.1'' @ '':'' @ show_nat (unat (ucast prt :: u16))) = Some adr"
    and prt: "prt \<noteq> 0" "\<not> 65535 < prt" "(ucast prt :: u16) \<noteq> 0" and free: "ib_running (pc_inbounds p) tg = None"
  shows "\<exists>p'. start_node two_machine (two_node i) p = Inr p' \<and>
    map (\<lambda>n. ct_node_tag (pn_controller n)) (pc_nodes p') = map (\<lambda>n. ct_node_tag (pn_controller n)) (pc_nodes p) @ [tg] \<and>
    (\<forall>tg'. tg' \<noteq> tg \<longrightarrow> ib_running (pc_inbounds p') tg' = ib_running (pc_inbounds p) tg')"
proof -
  let ?E = "node_setting two_machine (nc_controller (two_node i))"
  have "controller_build ?E (two_info i prt) [] = Inr \<lparr>bi_tag = tg, bi_listen = ''127.0.0.1'', bi_port = ucast prt,
      bi_stream = stream_config_raw, bi_handler = InVless (build_vless_users (mc_libs two_machine) [] tg)\<rparr>"
    using tg prt
    by (simp add: controller_build_def build_inbound_def build_inbound_handler_def build_stream_def build_security_def is_vless_def
        build_transport_def node_setting_def two_node_config controller_default_def cert_default_def two_info_def sample_node_def
        stream_config_raw_def Let_def)
  then have "\<exists>w. controller_start ?E (Inr (two_info i prt)) (Inr []) \<lparr>wd_controller = controller_new, wd_inbounds = pc_inbounds p, wd_stats = pc_stats p\<rparr> = Inr w \<and>
      ct_node_tag (wd_controller w) = tg \<and> (\<forall>tg'. tg' \<noteq> tg \<longrightarrow> ib_running (wd_inbounds w) tg' = ib_running (pc_inbounds p) tg')"
    using adr prt free two_machine_simps
    by (simp add: controller_start_def manager_add_def manager_contains_def token_new_def binds_udp_def node_setting_def two_info_def)
  then obtain w where "controller_start ?E (Inr (two_info i prt)) (Inr []) \<lparr>wd_controller = controller_new, wd_inbounds = pc_inbounds p, wd_stats = pc_stats p\<rparr> = Inr w"
    "ct_node_tag (wd_controller w) = tg" "\<forall>tg'. tg' \<noteq> tg \<longrightarrow> ib_running (wd_inbounds w) tg' = ib_running (pc_inbounds p) tg'"
    by blast
  then show ?thesis using assms(1) two_machine_simps
    by (simp add: start_node_def two_node_config case_prod_beta Let_def two_users)
qed

lemma two_panel_start:
  "\<exists>dp p. panel_start two_machine (Inr ()) two_config = Inr (dp, p) \<and>
     map (\<lambda>n. ct_node_tag (pn_controller n)) (pc_nodes p) = [''V2ray_127.0.0.1_8443'', ''V2ray_127.0.0.1_8444'']"
proof -
  let ?p0 = "\<lparr>pc_nodes = [], pc_inbounds = manager_new, pc_stats = stats_new\<rparr> :: (unit, unit) process"
  have "ib_running (pc_inbounds ?p0) ''V2ray_127.0.0.1_8443'' = None" "ib_running (pc_inbounds ?p0) ''V2ray_127.0.0.1_8444'' = None"
    by (simp_all add: manager_new_def)
  with two_starts [OF two_node_answers(1) two_tags(1), of "(V4 0x7f000001, 8443)" ?p0] two_tags(3) obtain p1 where
    p1: "start_node two_machine (two_node 7) ?p0 = Inr p1"
      "map (\<lambda>n. ct_node_tag (pn_controller n)) (pc_nodes p1) = [''V2ray_127.0.0.1_8443'']"
      "ib_running (pc_inbounds p1) ''V2ray_127.0.0.1_8444'' = None"
    by auto
  with two_starts [OF two_node_answers(2) two_tags(2), of "(V4 0x7f000001, 8444)" p1] two_tags(4) obtain p2 where
    p2: "start_node two_machine (two_node 8) p1 = Inr p2"
      "map (\<lambda>n. ct_node_tag (pn_controller n)) (pc_nodes p2) = [''V2ray_127.0.0.1_8443'', ''V2ray_127.0.0.1_8444'']"
    by auto
  have "(case compile L egress_default of Inr _ \<Rightarrow> True | Inl _ \<Rightarrow> False)" for L
    by code_simp
  then obtain e where "compile (lb_crypto (mc_libs two_machine)) egress_default = Inr e" by (metis sum.case_eq_if sum.collapse(2))
  moreover have "pc_nodes p2 \<noteq> []" using p2(2) by auto
  ultimately have "panel_start two_machine (Inr ()) two_config =
      Inr (\<lparr>dp_egress = e, dp_handshake_timeout = 4, dp_idle_timeout = 30\<rparr>, p2)"
    using p1(1) p2(1) by (simp add: panel_start_def data_plane_of_def two_config_def connection_default_def)
  with p2(2) show ?thesis by (intro exI conjI)
qed

text \<open>A tick of the first node on which the panel cannot be reached.\<close>

theorem panel_isolates_nodes_witness:
  "\<exists>dp p. panel_start two_machine (Inr ()) two_config = Inr (dp, p) \<and> length (pc_nodes p) = 2 \<and>
     dom (ib_running (pc_inbounds p)) = {''V2ray_127.0.0.1_8443'', ''V2ray_127.0.0.1_8444''} \<and>
     ib_running (pc_inbounds (panel_shutdown (panel_tick two_machine (\<lambda>_ _. Inl []) (\<lambda>_. True) 0 p))) = Map.empty"
proof -
  let ?tags = "[''V2ray_127.0.0.1_8443'', ''V2ray_127.0.0.1_8444'']"
  define D where "D i = (if i < 2 then {?tags ! i} else {})" for i :: nat
  from two_panel_start obtain dp p where p: "panel_start two_machine (Inr ()) two_config = Inr (dp, p)"
    and tags: "map (\<lambda>n. ct_node_tag (pn_controller n)) (pc_nodes p) = ?tags" by (elim exE conjE)
  let ?q = "panel_tick two_machine (\<lambda>_ _. Inl []) (\<lambda>_. True) 0 p"
  have len: "length (pc_nodes p) = 2" using arg_cong [OF tags, of length] by simp
  have "tc_node (fst (node_answer two_machine (\<lambda>_ _. Inl []) (\<lambda>_. True) p 0)) \<noteq> Inr node" for node
    by (simp add: node_answer_def client_tick_def get_node_info_def get_json_def send_with_retry_def map_err_def Let_def)
  then have "process_step two_machine D p ?q" using len by (intro process_step.tick) auto
  then have "(process_step two_machine D)\<^sup>*\<^sup>* p ?q" by blast
  moreover have "node_tag p i = ?tags ! i" if "i < length (pc_nodes p)" for i
    using arg_cong [OF tags, of "\<lambda>l. l ! i"] that by (simp add: node_tag_def)
  then have "node_tag p i \<in> D i" if "i < length (pc_nodes p)" for i using that len by (simp add: D_def)
  moreover have "D i \<inter> D j = {}" if "i \<noteq> j" for i j
    using that by (auto simp: D_def less_2_cases_iff nth_Cons')
  ultimately have iso: "dom (ib_running (pc_inbounds p)) = (\<lambda>n. ct_node_tag (pn_controller n)) ` set (pc_nodes p)"
    "ib_running (pc_inbounds (panel_shutdown ?q)) = Map.empty"
    using panel_isolates_nodes [of two_machine "Inr ()" two_config dp p D ?q] p by blast+
  have "(\<lambda>n. ct_node_tag (pn_controller n)) ` set (pc_nodes p) = {''V2ray_127.0.0.1_8443'', ''V2ray_127.0.0.1_8444''}"
    using arg_cong [OF tags, of set] by simp
  with p len iso show ?thesis by (intro exI conjI) simp_all
qed

end
