(* ===== verification/Spec2Isabelle.thy ===== *)
theory Spec2Isabelle
  imports Net Translation Sniff Balance Rule Uuid Controller Vless Trojan Mux Socks Http SsUdp Vmess
    Service Dialer Transport AppConfig Panel
begin

text \<open>
  A verification development of xray-rs, a proxy server in Rust.

  \<^bold>\<open>The program.\<close> A listener accepts a connection and hands it to the service tree of its inbound
  (kernel/src/runtime/tree.rs). The transport (crate transport) applies TLS and unwraps WebSocket, HTTP
  upgrade or gRPC framing; the proxy (crate proxy) reads the protocol header, authenticates the user and
  learns the target; the route table (kernel/src/route) chooses an outbound by the first matching rule; the
  outbound dials and two copy loops relay the bytes and count them for the user. UDP and multiplexed flows
  are served by the proxy itself. Two programs are built on this: app reads a configuration once, and saas
  polls a panel for nodes and users, keeps the inbounds in line with it, and reports the users' traffic.

  \<^bold>\<open>Foundations.\<close> Prelude has the machine types (\<open>u8\<close> to \<open>u64\<close> as words, \<open>i32\<close> as a word read signed),
  big-endian numbers, the result monad (\<open>Result<T, E>\<close> is a sum, \<open>?\<close> is \<open>rbind\<close>) and shared list lemmas.
  RustStd models what the sources use of the Rust library: UTF-8 strings, trimming, splitting, number and
  address parsing. Errors has the error types. ProxyIo is a connection: the results of its reads, cut in
  any way, and the bytes written. IoMonad sequences reads and writes on it.

  \<^bold>\<open>Crate kernel.\<close> Net: net.rs, addresses and the address codec of all protocols. Translation:
  pipe/translation.rs, reading a header that arrives in pieces; the locale \<open>header_codec\<close> is what a parser
  must promise (it asks for more bytes exactly on proper prefixes), and VLESS, trojan, the packet framings
  and the HTTP head interpret it. Sniff: route/sniff.rs. Balance and Rule: route/balance.rs and
  route/rule.rs. Uuid: uuid.rs. Users: rcu.rs, runtime/user.rs and runtime/session.rs. Stats: stats.rs, with
  counters in a store because they are shared, and the atomic operations as a step relation. Copy:
  pipe/timer.rs and pipe/copy.rs with \<open>relay_stream\<close> of proxy/src/io.rs. Service: runtime/service/mod.rs and
  runtime/context.rs, services swapped while they serve. Tree: runtime/tree.rs with pipe/outbound.rs and
  pipe/transport.rs; the locale \<open>proxy_children\<close> is what a flow relies on of the route and outbound
  children. Dialer: runtime/dns.rs and runtime/dialer.rs.

  \<^bold>\<open>Crate proxy.\<close> Vless, Trojan, Socks and Http (with dokodemo.rs): the inbounds of these names, Socks also
  the client of outbound.rs. Mux and UdpRelay: mux.rs and udp.rs. Crypto: crypto.rs. Framed: \<open>relay_framed\<close> of
  io.rs over the locale \<open>chunk_codec\<close>, the contract of the traits \<open>ChunkRead\<close> and \<open>ChunkWrite\<close>, interpreted by
  Shadowsocks (shadowsocks.rs) and VmessBody (vmess/body.rs). SsUdp: the UDP side of shadowsocks.rs.
  OutboundProxy: outbound.rs. VmessAuth: vmess/crypto.rs, vmess/user.rs and the replay filter of vmess.rs.
  Vmess: vmess/header.rs and the handler of vmess.rs.

  \<^bold>\<open>Crate transport.\<close> ByteStream has the locale \<open>byte_stream\<close>, what a reader promises to the proxies above
  it. Grpc (grpc.rs) and Transport (ws.rs) interpret it; Transport also has httpupgrade.rs and the layering
  of lib.rs.

  \<^bold>\<open>Crates saas and app.\<close> Egress: egress_config.rs and egress_compile.rs. NodeBuilder: api.rs, builder.rs and
  the settings of config.rs. NodeController: inbound_manager.rs and the node half of controller.rs.
  Controller: its traffic half. Sspanel: sspanel/mod.rs and sspanel/model.rs. Panel: panel.rs and the rest of
  config.rs. AppConfig: app/src/config.rs and app/src/instance.rs.

  \<^bold>\<open>What is shown.\<close> Every property stands after a text that states it in words.
  \<^item> Serving and authentication: VLESS, trojan and VMess serve a registered user's request however its
    bytes are cut, and accept nobody else; SOCKS and HTTP with accounts complete nothing without one; the
    SOCKS and Shadowsocks clients interoperate with the servers.
  \<^item> Relays: every byte arrives and is counted, for every interleaving of the directions, in the plain,
    Shadowsocks and VMess relays; mux sessions are isolated; gRPC and WebSocket streams reassemble.
  \<^item> Keys and replays: nonces do not repeat, the key schedule ends with the right length, the hot set
    does not change whom VMess matches, and the replay filter is consistent and bounded.
  \<^item> HTTP: a plain request is relayed as exactly the rewritten head and the body it came with.
  \<^item> Routing: CIDR matching is comparison of the network bits, the first matching rule decides, and the
    trees compiled from the egress and from the server's configuration run exactly the outbound of the
    first matching entry.
  \<^item> Reconfiguration: a swapped service serves the newest version, reconciling a keyed tree is assignment
    of the new map.
  \<^item> The panel: traffic is conserved, also with several reporters, and a refused report is repeated; an inbound has exactly its node's
    protocol and users in every reachable state, also with several nodes ticking in any order as long as
    their tags are disjoint.
  \<^item> Flaws, as theorems about the same definitions: traffic stranded behind a clear flag, the replay window
    before an ID's time stamp, and the outage after a node change that cannot be built. The routing of the
    stand-alone server is stated as the code has it, which differs from config.example.toml in the default
    outbound, the combination of a route's dimensions and the domain matchers (\<open>full_is_suffix\<close>,
    \<open>keyword_covers_nothing\<close>, \<open>one_dimension_covers\<close>). The lemmas
    \<open>mux_survives_idle\<close>, \<open>context_publish_needs_handle\<close>, \<open>sniff_http_crlf_blank_line\<close>, \<open>uuid_parse_ignores_tail\<close>,
    \<open>instance_run_ignores_binding\<close> and \<open>stale_tag_overwrites\<close> record smaller ones.

  \<^bold>\<open>Loops.\<close> Recursion follows the data wherever the code's does. A loop that waits for events takes the
  list of events, and an exhausted list is a loop that still waits. Fuel is used where a loop follows the
  input less directly: one unit per character in trimming, per frame in the demultiplexer and per packet
  in the UDP relays, and one more than the limit of bytes in the head of an HTTP upgrade, where every turn
  consumes that much or ends; the theorems there state that the result is reached.

  \<^bold>\<open>Parameters.\<close> Code outside the repository is an argument, with what the theorems need of it as a named
  hypothesis: \<open>aead_laws\<close>, \<open>hkdf_laws\<close> and \<open>gcm_laws\<close> (opening undoes sealing, lengths) for the cipher
  crates, \<open>watch_laws\<close> for tokio's watch channel, \<open>tagged\<close> for a panel that handles entity tags. Without
  hypotheses: SHA-1, SHA-224, base64, hexadecimal and percent encoding, the resolver and sockets, the
  events of h2 and tungstenite, the JSON, TOML and regular expression libraries, floating point, files,
  OpenSSL, clocks, and random bytes. Every such hypothesis has a concrete instance in a witness.

  \<^bold>\<open>Not modelled.\<close> The stream sum of transport/src/stream.rs and the variants of proxy/src/lib.rs, which pass
  each call on; binding sockets (transport/src/listener.rs) and OpenSSL (transport/src/tls.rs); channel
  creation (kernel/src/pipe/pipe.rs); the main functions, log lines and the machine's load figures
  (saas/src/serverstatus.rs); the bridge between the VMess codec and the demultiplexer (\<open>serve_mux\<close> of
  proxy/src/vmess/body.rs); the audit and online reports of the panel client, which nothing calls. The
  tasks of the runtime appear as interleavings of steps; cancellation inside a step does not.
\<close>

end
